(* ===== verification/Prelude.thy ===== *)
theory Prelude
  imports Main "HOL-Library.Signed_Division" "HOL-Library.Multiset" "HOL-Library.Sublist"
begin

text \<open>
  Generic material shared by the component theories: byte strings, Go's fixed width signed
  integers, the decimal rendering of \<open>fmt\<close>'s \<open>%v\<close> and \<open>%d\<close> verbs, Go's
  \<open>for\<close>/\<open>select\<close> loops as runs of a partial step function, and the locale
  \<open>step_invariant\<close> that lifts a fact about one iteration to a whole run. Nothing here is
  specific to one component, so nothing here is mapped to a source line.
\<close>

named_theorems go_simps \<open>unfolding rules of small operations shared by the components\<close>

section \<open>Bytes and strings\<close>

text \<open>A Go \<open>string\<close> and a \<open>[]byte\<close> are both sequences of bytes; \<open>char\<close> is a byte.\<close>

type_synonym bytes = string

section \<open>Fixed width signed integers\<close>

text \<open>
  \<open>swrap w x\<close> is the value a \<open>w\<close> bit two's complement register holds after a
  computation whose mathematical result is \<open>x\<close>. Go's \<open>int\<close> is 32 or 64 bits wide,
  depending on the platform, and the client ships for both; \<open>int64\<close> is always 64.
  Go's \<open>/\<close> truncates towards zero, which is \<open>sdiv\<close> of
  \<open>HOL-Library.Signed_Division\<close>.
\<close>

definition swrap :: "nat \<Rightarrow> int \<Rightarrow> int" where
  "swrap w x = (x + 2 ^ (w - 1)) mod 2 ^ w - 2 ^ (w - 1)"

definition fits :: "nat \<Rightarrow> int \<Rightarrow> bool" where
  "fits w x \<longleftrightarrow> - (2 ^ (w - 1)) \<le> x \<and> x < 2 ^ (w - 1)"

lemma double_half_pow: "0 < w \<Longrightarrow> (2::int) ^ w = 2 * 2 ^ (w - 1)"
  by (cases w) auto

lemma swrap_id [simp]: "0 < w \<Longrightarrow> fits w x \<Longrightarrow> swrap w x = x"
  by (simp add: swrap_def fits_def double_half_pow)

lemma fits_swrap: "0 < w \<Longrightarrow> fits w (swrap w x)"
  using pos_mod_bound [of "2 ^ w" "x + 2 ^ (w - 1)"] pos_mod_sign [of "2 ^ w" "x + 2 ^ (w - 1)"]
  by (simp add: swrap_def fits_def double_half_pow)

lemma sdiv_nonneg: "0 \<le> a \<Longrightarrow> 0 < b \<Longrightarrow> (a::int) sdiv b = a div b"
  by (cases "a = 0") (simp_all add: signed_divide_int_def)

lemma sdiv_nonpos: "a \<le> 0 \<Longrightarrow> 0 < b \<Longrightarrow> (a::int) sdiv b \<le> 0"
  by (cases "a = 0") (simp_all add: signed_divide_int_def pos_imp_zdiv_nonneg_iff)

lemma div_mult_add:
  assumes "0 \<le> n" "n < (k::int)"
  shows "(x * k + n) div k = x" and "(x * k + n) mod k = n"
proof -
  show "(x * k + n) div k = x"
    by (rule int_div_pos_eq [where r = n]) (use assms in auto)
  then show "(x * k + n) mod k = n"
    using mult_div_mod_eq [of k "x * k + n"] by simp
qed

lemma div_less_mult:
  assumes "x div k + 1 \<le> y" "0 < (k::int)"
  shows "x < y * k"
proof -
  have "(x div k + 1) * k = x div k * k + k" by (simp add: distrib_right)
  with pos_mod_bound [OF assms(2), of x] div_mult_mod_eq [of x k]
  have "x < (x div k + 1) * k" by linarith
  also have "\<dots> \<le> y * k" using assms by (intro mult_right_mono) auto
  finally show ?thesis .
qed

section \<open>Panics\<close>

text \<open>The result of an operation that can panic.\<close>

datatype 'a go = Panics | Returns 'a

section \<open>Decimal rendering\<close>

definition digit :: "nat \<Rightarrow> char" where
  "digit n = char_of (48 + n)"

definition is_digit :: "char \<Rightarrow> bool" where
  "is_digit c \<longleftrightarrow> 48 \<le> (of_char c :: nat) \<and> (of_char c :: nat) \<le> 57"

definition digit_val :: "char \<Rightarrow> nat" where
  "digit_val c = of_char c - 48"

fun show_nat :: "nat \<Rightarrow> string" where
  "show_nat n = (if n < 10 then [digit n] else show_nat (n div 10) @ [digit (n mod 10)])"

declare show_nat.simps [simp del]

definition show_int :: "int \<Rightarrow> string" where
  "show_int i = (if i < 0 then CHR ''-'' # show_nat (nat (- i)) else show_nat (nat i))"

definition read_nat :: "string \<Rightarrow> nat" where
  "read_nat s = foldl (\<lambda>a c. 10 * a + digit_val c) 0 s"

lemma of_char_digit [simp]: "n < 10 \<Longrightarrow> (of_char (digit n) :: nat) = 48 + n"
  by (simp add: digit_def of_char_of)

lemma is_digit_digit [simp]: "n < 10 \<Longrightarrow> is_digit (digit n)"
  by (simp add: is_digit_def)

lemma digit_val_digit [simp]: "n < 10 \<Longrightarrow> digit_val (digit n) = n"
  by (simp add: digit_val_def)

lemma read_nat_snoc [simp]: "read_nat (s @ [c]) = 10 * read_nat s + digit_val c"
  by (simp add: read_nat_def)

lemma show_nat_nonempty [simp]: "show_nat n \<noteq> []"
  by (subst show_nat.simps) simp

lemma show_nat_digits: "c \<in> set (show_nat n) \<Longrightarrow> is_digit c"
proof (induction n rule: show_nat.induct)
  case (1 n)
  then show ?case
    by (cases "n < 10") (auto simp: show_nat.simps [of n])
qed

lemma read_show_nat [simp]: "read_nat (show_nat n) = n"
proof (induction n rule: show_nat.induct)
  case (1 n)
  then show ?case
    by (cases "n < 10") (simp_all add: show_nat.simps [of n] read_nat_def)
qed

lemma show_nat_inj [simp]: "show_nat m = show_nat n \<longleftrightarrow> m = n"
  by (metis read_show_nat)

lemma minus_not_in_show_nat [simp]: "CHR ''-'' \<notin> set (show_nat n)"
  using show_nat_digits by (fastforce simp: is_digit_def)

lemma slash_not_in_show_nat [simp]: "CHR ''/'' \<notin> set (show_nat n)"
  using show_nat_digits by (fastforce simp: is_digit_def)

lemma show_int_inj [simp]: "show_int i = show_int j \<longleftrightarrow> i = j"
proof
  assume eq: "show_int i = show_int j"
  have minus: "\<And>n s. CHR ''-'' # s \<noteq> show_nat n"
    by (metis list.set_intros(1) minus_not_in_show_nat)
  from eq minus minus [symmetric] show "i = j"
    by (auto simp: show_int_def split: if_splits)
qed simp

section \<open>Splitting a string at a separator\<close>

lemma append_sep_inj:
  assumes "x \<notin> set a" and "x \<notin> set c" and "a @ x # b = c @ x # d"
  shows "a = c \<and> b = d"
  using assms
proof (induction a arbitrary: c)
  case Nil
  then show ?case by (cases c) auto
next
  case (Cons y ys)
  then show ?case by (cases c) auto
qed

section \<open>Sums over a list, one of whose elements changes\<close>

lemma sum_list_update_add:
  fixes f :: "'a \<Rightarrow> 'b::comm_monoid_add"
  shows "i < length xs \<Longrightarrow> sum_list (map f (xs[i := y])) + f (xs ! i) = sum_list (map f xs) + f y"
proof (induction xs arbitrary: i)
  case Nil
  then show ?case by simp
next
  case (Cons x xs)
  show ?case
  proof (cases i)
    case 0
    then show ?thesis by (simp add: ac_simps)
  next
    case (Suc j)
    with Cons.IH [of j] Cons.prems show ?thesis by (simp add: ac_simps)
  qed
qed

section \<open>Runs of a loop body\<close>

text \<open>
  A Go \<open>for\<close>/\<open>select\<close> loop is a state type, a type of inputs (what the environment
  lets the \<open>select\<close> see) and a step that is \<open>None\<close> where the loop body cannot take
  that input. \<open>run\<close> feeds a list of inputs to the loop.
\<close>

fun run :: "('s \<Rightarrow> 'e \<Rightarrow> 's option) \<Rightarrow> 's \<Rightarrow> 'e list \<Rightarrow> 's option" where
  "run step s [] = Some s"
| "run step s (e # es) = (case step s e of None \<Rightarrow> None | Some t \<Rightarrow> run step t es)"

lemma run_append:
  "run step s (es @ fs) = (case run step s es of None \<Rightarrow> None | Some t \<Rightarrow> run step t fs)"
  by (induction es arbitrary: s) (simp_all split: option.split)

lemma run_Cons_Some:
  "run step s (e # es) = Some u \<longleftrightarrow> (\<exists>t. step s e = Some t \<and> run step t es = Some u)"
  by (simp split: option.split)

locale step_invariant =
  fixes step :: "'s \<Rightarrow> 'e \<Rightarrow> 's option"
    and inv :: "'s \<Rightarrow> bool"
  assumes step_inv: "inv s \<Longrightarrow> step s e = Some t \<Longrightarrow> inv t"
begin

lemma run_inv: "inv s \<Longrightarrow> run step s es = Some t \<Longrightarrow> inv t"
proof (induction es arbitrary: s)
  case Nil
  then show ?case by simp
next
  case (Cons e es)
  then show ?case by (auto split: option.splits intro: step_inv)
qed

end

text \<open>
  The same with a history: \<open>rel s t\<close> relates the state a run starts from to the one it
  reaches, where every step extends it.
\<close>

locale step_history =
  fixes step :: "'s \<Rightarrow> 'e \<Rightarrow> 's option"
    and rel :: "'s \<Rightarrow> 'e list \<Rightarrow> 's \<Rightarrow> bool"
  assumes rel_refl: "rel s [] s"
    and rel_step: "step s e = Some t \<Longrightarrow> rel t es u \<Longrightarrow> rel s (e # es) u"
begin

lemma run_rel: "run step s es = Some t \<Longrightarrow> rel s es t"
proof (induction es arbitrary: s)
  case Nil
  then show ?case by (simp add: rel_refl)
next
  case (Cons e es)
  then show ?case by (auto split: option.splits intro: rel_step)
qed

end

text \<open>Every event of a run is of some kind, in the state where it happens.\<close>

fun along :: "('s \<Rightarrow> 'e \<Rightarrow> 's option) \<Rightarrow> ('s \<Rightarrow> 'e \<Rightarrow> bool) \<Rightarrow> 's \<Rightarrow> 'e list \<Rightarrow> bool" where
  "along step good s [] = True"
| "along step good s (e # es) = (good s e \<and> (case step s e of None \<Rightarrow> True | Some t \<Rightarrow> along step good t es))"

lemma along_all: "(\<And>s e. e \<in> set es \<Longrightarrow> good s e) \<Longrightarrow> along step good s es"
  by (induction es arbitrary: s) (auto split: option.split)

lemma along_True: "along step (\<lambda>_ _. True) s es"
  by (induction es arbitrary: s) (simp_all split: option.split)

lemma run_keeps:
  assumes "\<And>s e t. J s \<Longrightarrow> good s e \<Longrightarrow> step s e = Some t \<Longrightarrow> J t"
  shows "J s \<Longrightarrow> run step s es = Some t \<Longrightarrow> along step good s es \<Longrightarrow> J t"
  by (induction es arbitrary: s) (auto split: option.splits intro: assms)

text \<open>What a run lets one see: \<open>see s e\<close> at each event \<open>e\<close>, in the state \<open>s\<close> where it happens, one after the other.\<close>

fun collect :: "('s \<Rightarrow> 'e \<Rightarrow> 's option) \<Rightarrow> ('s \<Rightarrow> 'e \<Rightarrow> 'x list) \<Rightarrow> 's \<Rightarrow> 'e list \<Rightarrow> 'x list" where
  "collect step see s [] = []"
| "collect step see s (e # es) = see s e @ (case step s e of None \<Rightarrow> [] | Some t \<Rightarrow> collect step see t es)"

lemma run_collects:
  assumes "\<And>s e t xs. J s xs \<Longrightarrow> good s e \<Longrightarrow> step s e = Some t \<Longrightarrow> J t (xs @ see s e)"
  shows "J s xs \<Longrightarrow> run step s es = Some t \<Longrightarrow> along step good s es \<Longrightarrow> J t (xs @ collect step see s es)"
proof (induction es arbitrary: s xs)
  case (Cons e es)
  from Cons.prems(2) obtain u where "step s e = Some u" "run step u es = Some t" by (auto split: option.splits)
  with Cons.IH [of u "xs @ see s e"] assms [of s xs e u] Cons.prems(1,3) show ?case by simp
qed simp

lemma collect_events: "run step s es = Some t \<Longrightarrow> collect step (\<lambda>_. f) s es = concat (map f es)"
  by (induction es arbitrary: s) (auto split: option.splits)

lemma collect_append:
  "run step s es = Some t \<Longrightarrow> collect step see s (es @ fs) = collect step see s es @ collect step see t fs"
  by (induction es arbitrary: s) (auto split: option.splits)

text \<open>
  A forward simulation: every step of a detailed system is one step of an abstract system, matched with it by \<open>match\<close>, or none.
  So its runs are runs of the abstract system, and what the matching steps keep holds of the detailed system.
\<close>

locale simulation =
  fixes cstep :: "'s \<Rightarrow> 'e \<Rightarrow> 's option" and astep :: "'a \<Rightarrow> 'f \<Rightarrow> 'a option"
    and rel :: "'s \<Rightarrow> 'a \<Rightarrow> bool" and cinv :: "'s \<Rightarrow> bool" and match :: "'s \<Rightarrow> 'e \<Rightarrow> 'a \<Rightarrow> 'f \<Rightarrow> bool"
  assumes cinv_step: "cinv s \<Longrightarrow> cstep s e = Some t \<Longrightarrow> cinv t"
    and sim_step: "cinv s \<Longrightarrow> rel s a \<Longrightarrow> cstep s e = Some t \<Longrightarrow>
      rel t a \<or> (\<exists>f b. match s e a f \<and> astep a f = Some b \<and> rel t b)"
begin

lemma run_sim: "cinv s \<Longrightarrow> rel s a \<Longrightarrow> run cstep s es = Some t \<Longrightarrow> \<exists>fs b. run astep a fs = Some b \<and> rel t b"
proof (induction es arbitrary: s a)
  case Nil
  then have "run astep a [] = Some a \<and> rel t a" by simp
  then show ?case by blast
next
  case (Cons e es)
  from Cons.prems(3) obtain u where u: "cstep s e = Some u" "run cstep u es = Some t" by (auto split: option.splits)
  note inv = cinv_step [OF Cons.prems(1) u(1)]
  from sim_step [OF Cons.prems(1,2) u(1)] show ?case
  proof
    assume "rel u a"
    from Cons.IH [OF inv this u(2)] show ?case .
  next
    assume "\<exists>f b. match s e a f \<and> astep a f = Some b \<and> rel u b"
    then obtain f b where f: "astep a f = Some b" "rel u b" by blast
    from Cons.IH [OF inv f(2) u(2)] obtain fs c where "run astep b fs = Some c" "rel t c" by blast
    with f(1) show ?case by (auto intro!: exI [of _ "f # fs"])
  qed
qed

text \<open>What every step keeps, of the detailed state and an abstract one, holds along a run.\<close>

lemma transfer_both:
  assumes keeps: "\<And>s e t a b. cinv s \<Longrightarrow> rel s a \<Longrightarrow> good s e \<Longrightarrow> I s a \<Longrightarrow> cstep s e = Some t \<Longrightarrow>
      b = a \<or> (\<exists>f. match s e a f \<and> astep a f = Some b) \<Longrightarrow> I t b"
    and "cinv s" "rel s a" "I s a" "run cstep s es = Some t" "along cstep good s es"
  shows "cinv t \<and> (\<exists>b. rel t b \<and> I t b)"
proof (rule run_keeps [where J = "\<lambda>s. cinv s \<and> (\<exists>a. rel s a \<and> I s a)", OF _ _ assms(5,6)])
  fix s e t
  assume s: "cinv s \<and> (\<exists>a. rel s a \<and> I s a)" and e: "good s e" "cstep s e = Some t"
  then obtain a where a: "cinv s" "rel s a" "I s a" by blast
  from sim_step [OF a(1,2) e(2)] obtain b where b: "rel t b" "b = a \<or> (\<exists>f. match s e a f \<and> astep a f = Some b)" by blast
  from keeps [OF a(1,2) e(1) a(3) e(2) b(2)] b(1) cinv_step [OF a(1) e(2)] show "cinv t \<and> (\<exists>a. rel t a \<and> I t a)" by blast
qed (use assms(2-4) in blast)

lemma transfer:
  assumes "\<And>s e a f b. cinv s \<Longrightarrow> rel s a \<Longrightarrow> good s e \<Longrightarrow> I a \<Longrightarrow> match s e a f \<Longrightarrow> astep a f = Some b \<Longrightarrow> I b"
    and "cinv s" "rel s a" "I a" "run cstep s es = Some t" "along cstep good s es"
  shows "cinv t \<and> (\<exists>b. rel t b \<and> I b)"
  by (rule transfer_both [where I = "\<lambda>_. I", OF _ assms(2-6)]) (use assms(1) in blast)

end

text \<open>
  A system that comes to its end by itself: \<open>work\<close> bounds what it has left to do, its own steps take from it, \<open>cost\<close> is
  what the steps that others cause may add, and while it is \<open>alive\<close> and not at its end it has a step of its own.
\<close>

locale winding_down = step_invariant step inv
  for step :: "'s \<Rightarrow> 'e \<Rightarrow> 's option" and inv :: "'s \<Rightarrow> bool" +
  fixes own :: "'e \<Rightarrow> bool" and cost :: "'e \<Rightarrow> nat" and work :: "'s \<Rightarrow> nat" and alive :: "'s \<Rightarrow> bool" and final :: "'s \<Rightarrow> bool"
  assumes work_step: "inv s \<Longrightarrow> step s e = Some t \<Longrightarrow> work t + (if own e then 1 else 0) \<le> work s + cost e"
    and own_free: "alive s \<Longrightarrow> own e \<Longrightarrow> step s e = Some t \<Longrightarrow> cost e = 0"
    and alive_step: "alive s \<Longrightarrow> own e \<Longrightarrow> step s e = Some t \<Longrightarrow> alive t"
    and progress: "inv s \<Longrightarrow> alive s \<Longrightarrow> \<not> final s \<Longrightarrow> \<exists>e t. own e \<and> step s e = Some t"
begin

lemma run_work:
  "inv s \<Longrightarrow> run step s es = Some t \<Longrightarrow> work t + length (filter own es) \<le> work s + sum_list (map cost es)"
proof (induction es arbitrary: s)
  case (Cons e es)
  from Cons.prems(2) obtain u where u: "step s e = Some u" "run step u es = Some t" by (auto split: option.splits)
  with work_step [OF Cons.prems(1) u(1)] Cons.IH [OF step_inv [OF Cons.prems(1) u(1)] u(2)] show ?case by (auto split: if_splits)
qed simp

lemma finishes:
  "inv s \<Longrightarrow> alive s \<Longrightarrow> \<exists>es t. run step s es = Some t \<and> final t \<and> list_all own es \<and> length es \<le> work s"
proof (induction "work s" arbitrary: s rule: less_induct)
  case less
  show ?case
  proof (cases "final s")
    case True
    then show ?thesis by (intro exI [of _ "[]"]) simp
  next
    case False
    with progress less.prems obtain e u where e: "own e" "step s e = Some u" by blast
    from work_step [OF less.prems(1) e(2)] own_free [OF less.prems(2) e] e(1) have dec: "work u + 1 \<le> work s" by simp
    then obtain es t where "run step u es = Some t" "final t" "list_all own es" "length es \<le> work u"
      using less.hyps [of u] step_inv [OF less.prems(1) e(2)] alive_step [OF less.prems(2) e] by auto
    with e dec show ?thesis by (intro exI [of _ "e # es"] exI [of _ t]) simp
  qed
qed

end

end
