(* ===== verification/Config.thy ===== *)
theory Config
  imports Prelude
begin

text \<open>
  Package \<open>config\<close> (\<open>config/config.go\<close>): the environment variables of the client. The
  environment is the argument \<open>getenv\<close>; a variable that is not set reads as the empty string.
\<close>

definition Production :: string where
  "Production = ''https://api.auklet.io''"

definition env_prefix :: string where
  "env_prefix = ''AUKLET_''"

definition envar :: "(string \<Rightarrow> string) \<Rightarrow> string \<Rightarrow> string" where
  "envar getenv s = getenv (env_prefix @ s)"

definition env_APIKey :: "(string \<Rightarrow> string) \<Rightarrow> string" where
  "env_APIKey getenv = envar getenv ''API_KEY''"

definition env_AppID :: "(string \<Rightarrow> string) \<Rightarrow> string" where
  "env_AppID getenv = envar getenv ''APP_ID''"

definition env_BaseURL :: "(string \<Rightarrow> string) \<Rightarrow> string \<Rightarrow> string" where
  "env_BaseURL getenv fromcli =
     (if fromcli \<noteq> [] then fromcli
      else let url = envar getenv ''BASE_URL'' in if url \<noteq> [] then url else Production)"

definition env_LogErrors :: "(string \<Rightarrow> string) \<Rightarrow> bool" where
  "env_LogErrors getenv \<longleftrightarrow> getenv (env_prefix @ ''LOG_ERRORS'') = ''true''"

definition env_LogInfo :: "(string \<Rightarrow> string) \<Rightarrow> bool" where
  "env_LogInfo getenv \<longleftrightarrow> getenv (env_prefix @ ''LOG_INFO'') = ''true''"

lemma BaseURL_nonempty [simp]: "env_BaseURL getenv fromcli \<noteq> []"
  by (simp add: env_BaseURL_def Production_def Let_def)

end
