(* ===== verification/FileSys.thy ===== *)
theory FileSys
  imports Prelude
begin

text \<open>
  The file system interface of the client (\<open>Fs\<close> in \<open>broker/message.go\<close> and
  \<open>api/api.go\<close>, with the methods of \<open>afero.File\<close> the client calls) and
  \<open>fsutil.WriteFile\<close>. The file system itself is not part of the repository: the client's
  operations take the interface as an argument, and what they rely on is the locale
  \<open>file_system\<close>. \<open>disk_fs\<close>, an ordered table of files with an arbitrary plan of
  failing calls, satisfies it.
\<close>

section \<open>The interface\<close>

text \<open>
  A call that can fail returns the text of its error. Reading calls do not change the world
  \<open>'w\<close>; \<open>'h\<close> is the type of open files. The permission bits (always 0666 or 0777)
  are left out.
\<close>

datatype open_flag = O_WRONLY | O_RDWR | O_CREATE | O_TRUNC

record ('w, 'h) Fs =
  Open :: "string \<Rightarrow> 'w \<Rightarrow> string + 'h"
  Stat :: "string \<Rightarrow> 'w \<Rightarrow> string + int"
  MkdirAll :: "string \<Rightarrow> 'w \<Rightarrow> string option \<times> 'w"
  OpenFile :: "string \<Rightarrow> open_flag list \<Rightarrow> 'w \<Rightarrow> (string + 'h) \<times> 'w"
  Remove :: "string \<Rightarrow> 'w \<Rightarrow> string option \<times> 'w"
  Name :: "'h \<Rightarrow> string"
  ReadAll :: "'h \<Rightarrow> 'w \<Rightarrow> string + bytes"
  Readdirnames :: "'h \<Rightarrow> 'w \<Rightarrow> string + string list"
  Write :: "'h \<Rightarrow> bytes \<Rightarrow> 'w \<Rightarrow> string option \<times> 'w"

text \<open>\<open>fsutil.WriteFile\<close>: the error, if any, and the world after the call.\<close>

definition WriteFile :: "('w, 'h) Fs \<Rightarrow> string \<Rightarrow> bytes \<Rightarrow> 'w \<Rightarrow> string option \<times> 'w" where
  "WriteFile fs path b w =
     (case OpenFile fs path [O_WRONLY, O_CREATE, O_TRUNC] w of
        (Inl err, w') \<Rightarrow> (Some err, w')
      | (Inr f, w') \<Rightarrow> Write fs f b w')"

definition entry :: "string \<Rightarrow> string \<Rightarrow> string" where
  "entry dir name = dir @ CHR ''/'' # name"

text \<open>A new file starts empty; bytes written at the start of a file replace those they cover.\<close>

definition contents_of :: "bytes option \<Rightarrow> bytes" where
  "contents_of c = (case c of None \<Rightarrow> [] | Some b \<Rightarrow> b)"

definition overwrite :: "bytes \<Rightarrow> bytes \<Rightarrow> bytes" where
  "overwrite b old = b @ drop (length b) old"

section \<open>What the client relies on\<close>

text \<open>
  \<open>content w\<close> is the table of regular files. Failing calls change nothing, except that a
  failing write may leave the file it writes in any state.
\<close>

locale file_system =
  fixes fs :: "('w, 'h) Fs"
    and content :: "'w \<Rightarrow> string \<Rightarrow> bytes option"
  assumes Open_Name: "Open fs p w = Inr f \<Longrightarrow> Name fs f = p"
    and ReadAll_content: "ReadAll fs f w = Inr b \<Longrightarrow> content w (Name fs f) = Some b"
    and Stat_size: "Stat fs p w = Inr n \<Longrightarrow> content w p = Some b \<Longrightarrow> n = int (length b)"
    and MkdirAll_content: "MkdirAll fs p w = (e, w') \<Longrightarrow> content w' = content w"
    and OpenFile_fails: "OpenFile fs p fl w = (Inl err, w') \<Longrightarrow> content w' = content w"
    and OpenFile_creates: "OpenFile fs p fl w = (Inr f, w') \<Longrightarrow> O_CREATE \<in> set fl \<Longrightarrow>
      Name fs f = p \<and>
      content w' = (content w)(p \<mapsto> (if O_TRUNC \<in> set fl then [] else contents_of (content w p)))"
    and Write_overwrites: "Write fs f b w = (None, w') \<Longrightarrow>
      content w' = (content w)(Name fs f \<mapsto> overwrite b (contents_of (content w (Name fs f))))"
    and Write_fails: "Write fs f b w = (Some err, w') \<Longrightarrow> q \<noteq> Name fs f \<Longrightarrow> content w' q = content w q"
    and Remove_removes: "Remove fs p w = (None, w') \<Longrightarrow> content w' = (content w)(p := None)"
    and Remove_fails: "Remove fs p w = (Some err, w') \<Longrightarrow> content w' = content w"
    and Readdirnames_lists: "Readdirnames fs f w = Inr ns \<Longrightarrow>
      distinct ns \<and> (\<forall>n. CHR ''/'' \<notin> set n \<longrightarrow> content w (entry (Name fs f) n) \<noteq> None \<longrightarrow> n \<in> set ns)"
begin

lemma WriteFile_writes: "WriteFile fs p b w = (None, w') \<Longrightarrow> content w' = (content w)(p \<mapsto> b)"
  by (auto simp: WriteFile_def overwrite_def contents_of_def split: prod.splits sum.splits
      dest!: OpenFile_creates Write_overwrites)

lemma WriteFile_frame:
  assumes "WriteFile fs p b w = (e, w')" and "q \<noteq> p"
  shows "content w' q = content w q"
proof (cases "OpenFile fs p [O_WRONLY, O_CREATE, O_TRUNC] w")
  case (Pair r u)
  show ?thesis
  proof (cases r)
    case (Inl err)
    with Pair assms(1) show ?thesis by (auto simp: WriteFile_def dest: OpenFile_fails)
  next
    case (Inr f)
    with Pair have u: "Name fs f = p" "content u q = content w q"
      using OpenFile_creates assms(2) by fastforce+
    from Pair Inr assms(1) have "Write fs f b u = (e, w')" by (simp add: WriteFile_def)
    with u assms(2) show ?thesis
      using Write_fails [of f b u _ w' q] Write_overwrites [of f b u w'] by (cases e) auto
  qed
qed

end

section \<open>A disk\<close>

text \<open>
  Files in the order they were created, directories, and a plan of failures: \<open>fault\<close> gives
  the error text of the calls that fail. A handle is the path it was opened with.
\<close>

datatype fs_call = C_Open | C_Stat | C_MkdirAll | C_OpenFile | C_Remove | C_ReadAll | C_Readdirnames | C_Write

record disk =
  files :: "(string \<times> bytes) list"
  dirs :: "string list"
  fault :: "fs_call \<Rightarrow> string \<Rightarrow> string option"

fun put :: "string \<Rightarrow> bytes \<Rightarrow> (string \<times> bytes) list \<Rightarrow> (string \<times> bytes) list" where
  "put p b [] = [(p, b)]"
| "put p b ((q, c) # fl) = (if p = q then (p, b) # fl else (q, c) # put p b fl)"

definition child :: "string \<Rightarrow> string \<Rightarrow> string option" where
  "child dir p =
     (let n = length dir in
      if take (Suc n) p = dir @ ''/'' \<and> CHR ''/'' \<notin> set (drop (Suc n) p) then Some (drop (Suc n) p) else None)"

definition names_in :: "string \<Rightarrow> disk \<Rightarrow> string list" where
  "names_in dir d = remdups (List.map_filter (child dir) (map fst (files d)))"

definition disk_fs :: "(disk, string) Fs" where
  "disk_fs =
     \<lparr>Open = (\<lambda>p d. case fault d C_Open p of Some e \<Rightarrow> Inl e
         | None \<Rightarrow> if map_of (files d) p \<noteq> None \<or> p \<in> set (dirs d) then Inr p else Inl ''no such file''),
      Stat = (\<lambda>p d. case fault d C_Stat p of Some e \<Rightarrow> Inl e
         | None \<Rightarrow> (case map_of (files d) p of Some b \<Rightarrow> Inr (int (length b))
                    | None \<Rightarrow> if p \<in> set (dirs d) then Inr 0 else Inl ''no such file'')),
      MkdirAll = (\<lambda>p d. case fault d C_MkdirAll p of Some e \<Rightarrow> (Some e, d)
         | None \<Rightarrow> (None, d\<lparr>dirs := List.insert p (dirs d)\<rparr>)),
      OpenFile = (\<lambda>p fl d. case fault d C_OpenFile p of Some e \<Rightarrow> (Inl e, d)
         | None \<Rightarrow>
             if map_of (files d) p = None \<and> O_CREATE \<notin> set fl then (Inl ''no such file'', d)
             else (Inr p, d\<lparr>files := put p (if O_TRUNC \<in> set fl then []
               else contents_of (map_of (files d) p)) (files d)\<rparr>)),
      Remove = (\<lambda>p d. case fault d C_Remove p of Some e \<Rightarrow> (Some e, d)
         | None \<Rightarrow> if map_of (files d) p = None then (Some ''no such file'', d)
                   else (None, d\<lparr>files := filter (\<lambda>f. fst f \<noteq> p) (files d)\<rparr>)),
      Name = (\<lambda>p. p),
      ReadAll = (\<lambda>p d. case fault d C_ReadAll p of Some e \<Rightarrow> Inl e
         | None \<Rightarrow> (case map_of (files d) p of Some b \<Rightarrow> Inr b | None \<Rightarrow> Inl ''is a directory'')),
      Readdirnames = (\<lambda>p d. case fault d C_Readdirnames p of Some e \<Rightarrow> Inl e
         | None \<Rightarrow> if p \<in> set (dirs d) then Inr (names_in p d) else Inl ''not a directory''),
      Write = (\<lambda>p b d. case fault d C_Write p of Some e \<Rightarrow> (Some e, d)
         | None \<Rightarrow> (None, d\<lparr>files := put p (overwrite b (contents_of (map_of (files d) p))) (files d)\<rparr>))\<rparr>"

definition empty_disk :: disk where
  "empty_disk = \<lparr>files = [], dirs = [], fault = (\<lambda>_ _. None)\<rparr>"

definition disk_content :: "disk \<Rightarrow> string \<Rightarrow> bytes option" where
  "disk_content d = map_of (files d)"

lemma map_of_put [simp]: "map_of (put p b fl) = (map_of fl)(p \<mapsto> b)"
  by (induction fl) auto

lemma map_of_filter_key: "map_of (filter (\<lambda>f. fst f \<noteq> p) fl) = (map_of fl)(p := None)"
  by (induction fl) auto

lemma child_entry: "CHR ''/'' \<notin> set n \<Longrightarrow> child dir (entry dir n) = Some n"
  by (simp add: child_def entry_def Let_def)

lemma names_in_complete:
  assumes "CHR ''/'' \<notin> set n" and "map_of (files d) (entry dir n) \<noteq> None"
  shows "n \<in> set (names_in dir d)"
proof -
  from assms(2) have "entry dir n \<in> set (map fst (files d))"
    by (metis map_of_eq_None_iff list.set_map)
  with child_entry [OF assms(1)] show ?thesis
    by (force simp: names_in_def List.map_filter_def image_iff)
qed

interpretation disk: file_system disk_fs disk_content
proof unfold_locales
  fix f :: string and w ns
  assume "Readdirnames disk_fs f w = Inr ns"
  then have "ns = names_in f w" by (auto simp: disk_fs_def split: option.splits if_splits)
  then show "distinct ns \<and> (\<forall>n. CHR ''/'' \<notin> set n \<longrightarrow>
      disk_content w (entry (Name disk_fs f) n) \<noteq> None \<longrightarrow> n \<in> set ns)"
    using names_in_complete by (auto simp: names_in_def disk_fs_def disk_content_def)
qed (auto simp: disk_fs_def disk_content_def map_of_filter_key split: option.splits if_splits)

text \<open>A file system that is one part of a larger world.\<close>

definition on_fst :: "('w, 'h) Fs \<Rightarrow> ('w \<times> 'x, 'h) Fs" where
  "on_fst fs =
     \<lparr>Open = (\<lambda>p w. Open fs p (fst w)), Stat = (\<lambda>p w. Stat fs p (fst w)),
      MkdirAll = (\<lambda>p w. case MkdirAll fs p (fst w) of (e, u) \<Rightarrow> (e, u, snd w)),
      OpenFile = (\<lambda>p fl w. case OpenFile fs p fl (fst w) of (r, u) \<Rightarrow> (r, u, snd w)),
      Remove = (\<lambda>p w. case Remove fs p (fst w) of (e, u) \<Rightarrow> (e, u, snd w)),
      Name = Name fs, ReadAll = (\<lambda>f w. ReadAll fs f (fst w)), Readdirnames = (\<lambda>f w. Readdirnames fs f (fst w)),
      Write = (\<lambda>f b w. case Write fs f b (fst w) of (e, u) \<Rightarrow> (e, u, snd w))\<rparr>"

context file_system
begin

lemma on_fst_file_system: "file_system (on_fst fs) (\<lambda>w. content (fst w))"
proof (unfold_locales, goal_cases)
  case 1
  then show ?case by (auto simp: on_fst_def dest: Open_Name)
next
  case 2
  then show ?case by (auto simp: on_fst_def dest: ReadAll_content)
next
  case 3
  then show ?case by (auto simp: on_fst_def dest: Stat_size)
next
  case 4
  then show ?case by (auto simp: on_fst_def split: prod.splits dest: MkdirAll_content)
next
  case 5
  then show ?case by (auto simp: on_fst_def split: prod.splits dest: OpenFile_fails)
next
  case (6 p fl w f w')
  then show ?case using OpenFile_creates [of p fl "fst w" f] by (auto simp: on_fst_def split: prod.splits)
next
  case (7 f b w w')
  then show ?case using Write_overwrites [of f b "fst w"] by (auto simp: on_fst_def split: prod.splits)
next
  case (8 f b w err w' q)
  then show ?case using Write_fails [of f b "fst w" err _ q] by (auto simp: on_fst_def split: prod.splits)
next
  case 9
  then show ?case by (auto simp: on_fst_def split: prod.splits dest: Remove_removes)
next
  case 10
  then show ?case by (auto simp: on_fst_def split: prod.splits dest: Remove_fails)
next
  case (11 f w ns)
  then show ?case using Readdirnames_lists [of f "fst w" ns] by (auto simp: on_fst_def)
qed

end

interpretation site: file_system "on_fst disk_fs" "\<lambda>w. disk_content (fst w)"
  by (rule disk.on_fst_file_system)

end
