(* ===== verification/Base64.thy ===== *)
theory Base64
  imports Prelude
begin

text \<open>
  Standard base64 with padding, as \<open>encoding/json\<close> writes a \<open>[]byte\<close> field: the
  encoder, the decoder (which skips line breaks, as Go's does), their round trip and the length
  of an encoding. Part of Go's library, so nothing here is mapped; the storage accounting of
  \<open>broker.Persistor\<close> and the round trip of saved messages rest on it.
\<close>

definition b64_char :: "nat \<Rightarrow> char" where
  "b64_char n =
     (if n < 26 then char_of (65 + n) else if n < 52 then char_of (71 + n)
      else if n < 62 then char_of (n - 4) else if n = 62 then CHR ''+'' else CHR ''/'')"

definition b64_val :: "char \<Rightarrow> nat option" where
  "b64_val c =
     (let n = of_char c in
      if 65 \<le> n \<and> n \<le> 90 then Some (n - 65) else if 97 \<le> n \<and> n \<le> 122 then Some (n - 71)
      else if 48 \<le> n \<and> n \<le> 57 then Some (n + 4) else if c = CHR ''+'' then Some 62
      else if c = CHR ''/'' then Some 63 else None)"

abbreviation pad :: char where
  "pad \<equiv> CHR ''=''"

abbreviation byte :: "char \<Rightarrow> nat" where
  "byte c \<equiv> of_char c"

fun b64_encode :: "bytes \<Rightarrow> string" where
  "b64_encode [] = []"
| "b64_encode [a] = [b64_char (byte a div 4), b64_char (byte a mod 4 * 16), pad, pad]"
| "b64_encode [a, b] =
     [b64_char (byte a div 4), b64_char (byte a mod 4 * 16 + byte b div 16),
      b64_char (byte b mod 16 * 4), pad]"
| "b64_encode (a # b # c # bs) =
     b64_char (byte a div 4) # b64_char (byte a mod 4 * 16 + byte b div 16) #
     b64_char (byte b mod 16 * 4 + byte c div 64) # b64_char (byte c mod 64) # b64_encode bs"

definition b64_bytes :: "nat \<Rightarrow> nat \<Rightarrow> nat \<Rightarrow> nat \<Rightarrow> bytes" where
  "b64_bytes w x y z =
     [char_of (w * 4 + x div 16), char_of (x mod 16 * 16 + y div 4), char_of (y mod 4 * 64 + z)]"

fun b64_groups :: "string \<Rightarrow> bytes option" where
  "b64_groups [] = Some []"
| "b64_groups (w # x # y # z # s) =
     (case (b64_val w, b64_val x) of
        (Some w', Some x') \<Rightarrow>
          if z = pad then
            (if s \<noteq> [] then None
             else if y = pad then Some (take 1 (b64_bytes w' x' 0 0))
             else (case b64_val y of None \<Rightarrow> None
                   | Some y' \<Rightarrow> Some (take 2 (b64_bytes w' x' y' 0))))
          else (case (b64_val y, b64_val z) of
                  (Some y', Some z') \<Rightarrow> map_option ((@) (b64_bytes w' x' y' z')) (b64_groups s)
                | _ \<Rightarrow> None)
      | _ \<Rightarrow> None)"
| "b64_groups _ = None"

definition b64_decode :: "string \<Rightarrow> bytes option" where
  "b64_decode s = b64_groups (filter (\<lambda>c. c \<noteq> CHR 0x0A \<and> c \<noteq> CHR 0x0D) s)"

text \<open>The alphabet.\<close>

definition b64_alphabet :: "char \<Rightarrow> bool" where
  "b64_alphabet c \<longleftrightarrow> c = pad \<or> b64_val c \<noteq> None"

lemma of_b64_char: "n < 64 \<Longrightarrow> byte (b64_char n) =
   (if n < 26 then 65 + n else if n < 52 then 71 + n else if n < 62 then n - 4
    else if n = 62 then 43 else 47)"
  by (simp add: b64_char_def of_char_of)

lemma b64_val_char [simp]: "n < 64 \<Longrightarrow> b64_val (b64_char n) = Some n"
proof -
  assume n: "n < 64"
  consider "n < 26" | "26 \<le> n" "n < 52" | "52 \<le> n" "n < 62" | "n = 62" | "n = 63"
    using n by linarith
  then show ?thesis
  proof cases
    case 3
    then have "byte (b64_char n) = n - 4" by (simp add: of_b64_char [OF n])
    moreover from 3 have "\<not> 65 \<le> n - 4" "\<not> 97 \<le> n - 4" "48 \<le> n - 4" "n - 4 \<le> 57" "n - 4 + 4 = n"
      by linarith+
    ultimately show ?thesis by (simp only: b64_val_def Let_def if_False if_True simp_thms)
  qed (simp_all add: b64_val_def Let_def of_b64_char [OF n], simp_all add: b64_char_def)
qed

lemma b64_val_pad [simp]: "b64_val pad = None"
  by (simp add: b64_val_def)

lemma b64_char_not_pad [simp]: "n < 64 \<Longrightarrow> b64_char n \<noteq> pad"
  by (metis b64_val_char b64_val_pad option.distinct(1))

lemma byte_less [simp]: "byte c < 256"
  by (simp add: of_char_def)

lemma b64_bytes_encode:
  "b64_bytes (byte a div 4) (byte a mod 4 * 16 + byte b div 16)
     (byte b mod 16 * 4 + byte c div 64) (byte c mod 64) = [a, b, c]"
proof -
  have lt: "byte b div 16 < 16" "byte c div 64 < 4"
    using byte_less [of b] byte_less [of c] by linarith+
  have "byte a div 4 * 4 + (byte a mod 4 * 16 + byte b div 16) div 16 = byte a"
    and "(byte a mod 4 * 16 + byte b div 16) mod 16 * 16 + (byte b mod 16 * 4 + byte c div 64) div 4 = byte b"
    and "(byte b mod 16 * 4 + byte c div 64) mod 4 * 64 + byte c mod 64 = byte c"
    using lt by simp_all
  then show ?thesis by (simp only: b64_bytes_def char_of_char)
qed

text \<open>The shorter groups at the end are those of bytes padded with zero.\<close>

lemma b64_bytes_encode1:
  "take 1 (b64_bytes (byte a div 4) (byte a mod 4 * 16) 0 0) = [a]"
  by (simp add: b64_bytes_def)

lemma b64_bytes_encode2:
  "take 2 (b64_bytes (byte a div 4) (byte a mod 4 * 16 + byte b div 16) (byte b mod 16 * 4) 0) = [a, b]"
proof -
  have lt: "byte b div 16 < 16" using byte_less [of b] by linarith
  have "byte a div 4 * 4 + (byte a mod 4 * 16 + byte b div 16) div 16 = byte a"
    and "(byte a mod 4 * 16 + byte b div 16) mod 16 * 16 + byte b mod 16 * 4 div 4 = byte b"
    using lt by simp_all
  then show ?thesis by (simp add: b64_bytes_def)
qed

lemma sextets [simp]:
  "byte a div 4 < 64" "byte a mod 4 * 16 < 64" "byte a mod 4 * 16 + byte b div 16 < 64"
  "byte b mod 16 * 4 < 64" "byte b mod 16 * 4 + byte c div 64 < 64" "byte c mod 64 < 64"
  using byte_less [of a] byte_less [of b] byte_less [of c] by linarith+

lemma b64_groups_encode: "b64_groups (b64_encode bs) = Some bs"
  by (induction bs rule: b64_encode.induct)
    (simp_all add: b64_bytes_encode1 [simplified] b64_bytes_encode2 b64_bytes_encode)

lemma b64_alphabet_char [simp]: "n < 64 \<Longrightarrow> b64_alphabet (b64_char n)"
  by (simp add: b64_alphabet_def)

lemma b64_alphabet_encode: "list_all b64_alphabet (b64_encode bs)"
  by (induction bs rule: b64_encode.induct) (simp_all, simp_all add: b64_alphabet_def)

lemma b64_alphabet_no_break: "b64_alphabet c \<Longrightarrow> c \<noteq> CHR 0x0A \<and> c \<noteq> CHR 0x0D"
  by (auto simp: b64_alphabet_def b64_val_def)

theorem b64_roundtrip [simp]: "b64_decode (b64_encode bs) = Some bs"
proof -
  have "filter (\<lambda>c. c \<noteq> CHR 0x0A \<and> c \<noteq> CHR 0x0D) (b64_encode bs) = b64_encode bs"
    using b64_alphabet_encode b64_alphabet_no_break
    by (simp add: filter_id_conv list_all_iff)
  then show ?thesis by (simp add: b64_decode_def b64_groups_encode)
qed

lemma length_b64_encode: "length (b64_encode bs) = 4 * ((length bs + 2) div 3)"
proof (induction bs rule: b64_encode.induct)
  case (4 a b c bs)
  have "(length (a # b # c # bs) + 2) div 3 = (length bs + 2) div 3 + 1" by simp
  with 4 show ?case by simp
qed simp_all

text \<open>The characters of an encoding are plain in a JSON string: nothing in it is escaped.\<close>

lemma b64_alphabet_plain:
  "b64_alphabet c \<Longrightarrow> 32 \<le> byte c \<and> c \<notin> {CHR 0x22, CHR 0x5C, CHR ''<'', CHR ''>'', CHR ''&''}"
  by (auto simp: b64_alphabet_def b64_val_def Let_def split: if_splits)

end
