(* ===== verification/Json.thy ===== *)
theory Json
  imports Base64
begin

text \<open>
  What the client uses of Go's \<open>encoding/json\<close>: JSON values, the compact text that
  \<open>json.Marshal\<close> writes, the parser behind \<open>json.Unmarshal\<close> and
  \<open>json.Decoder\<close>, and the assignment of an object's members to the fields of a struct.
  Strings are byte strings; a byte of 128 or more is taken to be part of valid UTF-8 and passes
  through unchanged (Go replaces invalid UTF-8, and escapes the two separators U+2028 and
  U+2029). Field names are matched up to ASCII case. Error texts are reduced to the two kinds
  the library distinguishes. The package is Go's library: nothing here is mapped.
\<close>

section \<open>Values and their text\<close>

datatype json =
    JNull
  | JBool bool
  | JNum string
  | JStr string
  | JArr "json list"
  | JObj "(string \<times> json) list"

abbreviation dquote :: char where "dquote \<equiv> CHR 0x22"
abbreviation bslash :: char where "bslash \<equiv> CHR 0x5C"

definition hex_digit :: "nat \<Rightarrow> char" where
  "hex_digit n = char_of (if n < 10 then 48 + n else 87 + n)"

definition hex_val :: "char \<Rightarrow> nat option" where
  "hex_val c =
     (let n = of_char c in
      if 48 \<le> n \<and> n \<le> 57 then Some (n - 48) else if 97 \<le> n \<and> n \<le> 102 then Some (n - 87)
      else if 65 \<le> n \<and> n \<le> 70 then Some (n - 55) else None)"

text \<open>\<open>json.Marshal\<close> also escapes the three characters that matter to HTML.\<close>

definition plain :: "char \<Rightarrow> bool" where
  "plain c \<longleftrightarrow> 32 \<le> byte c \<and> c \<notin> {dquote, bslash, CHR ''<'', CHR ''>'', CHR ''&''}"

definition esc :: "char \<Rightarrow> string" where
  "esc c =
     (if plain c then [c]
      else if c = dquote \<or> c = bslash then [bslash, c]
      else if c = CHR 0x0A then [bslash, CHR ''n'']
      else if c = CHR 0x0D then [bslash, CHR ''r'']
      else if c = CHR 0x09 then [bslash, CHR ''t'']
      else [bslash, CHR ''u'', CHR ''0'', CHR ''0'', hex_digit (byte c div 16), hex_digit (byte c mod 16)])"

definition quote :: "string \<Rightarrow> string" where
  "quote s = dquote # concat (map esc s) @ [dquote]"

fun render :: "json \<Rightarrow> string"
  and render_elems :: "json list \<Rightarrow> string"
  and render_members :: "(string \<times> json) list \<Rightarrow> string"
where
  "render JNull = ''null''"
| "render (JBool b) = (if b then ''true'' else ''false'')"
| "render (JNum n) = n"
| "render (JStr s) = quote s"
| "render (JArr vs) = CHR ''['' # render_elems vs"
| "render (JObj ms) = CHR ''{'' # render_members ms"
| "render_elems [] = [CHR '']'']"
| "render_elems [v] = render v @ [CHR '']'']"
| "render_elems (v # w # vs) = render v @ CHR '','' # render_elems (w # vs)"
| "render_members [] = [CHR ''}'']"
| "render_members [(k, v)] = quote k @ CHR '':'' # render v @ [CHR ''}'']"
| "render_members ((k, v) # m # ms) =
     quote k @ CHR '':'' # render v @ CHR '','' # render_members (m # ms)"

section \<open>The parser\<close>

definition is_ws :: "char \<Rightarrow> bool" where
  "is_ws c \<longleftrightarrow> c \<in> {CHR '' '', CHR 0x09, CHR 0x0A, CHR 0x0D}"

definition skip_ws :: "string \<Rightarrow> string" where
  "skip_ws s = dropWhile is_ws s"

text \<open>A code point as UTF-8.\<close>

definition utf8 :: "nat \<Rightarrow> string" where
  "utf8 n =
     (if n < 128 then [char_of n]
      else if n < 2048 then [char_of (192 + n div 64), char_of (128 + n mod 64)]
      else if n < 65536 then
        [char_of (224 + n div 4096), char_of (128 + n div 64 mod 64), char_of (128 + n mod 64)]
      else
        [char_of (240 + n div 262144), char_of (128 + n div 4096 mod 64),
         char_of (128 + n div 64 mod 64), char_of (128 + n mod 64)])"

definition hex4 :: "string \<Rightarrow> (nat \<times> string) option" where
  "hex4 s =
     (case s of
        a # b # c # d # r \<Rightarrow>
          (case (hex_val a, hex_val b, hex_val c, hex_val d) of
             (Some w, Some x, Some y, Some z) \<Rightarrow> Some (((w * 16 + x) * 16 + y) * 16 + z, r)
           | _ \<Rightarrow> None)
      | _ \<Rightarrow> None)"

text \<open>The low half of a surrogate pair, if the text goes on with one.\<close>

definition low_surrogate :: "string \<Rightarrow> (nat \<times> string) option" where
  "low_surrogate s =
     (case s of
        b # u # r \<Rightarrow>
          (if b = bslash \<and> u = CHR ''u'' then
             (case hex4 r of
                Some (n, r') \<Rightarrow> (if 56320 \<le> n \<and> n < 57344 then Some (n, r') else None)
              | None \<Rightarrow> None)
           else None)
      | _ \<Rightarrow> None)"

definition simple_escape :: "char \<Rightarrow> char option" where
  "simple_escape e =
     (if e \<in> {dquote, bslash, CHR ''/''} then Some e
      else if e = CHR ''n'' then Some (CHR 0x0A) else if e = CHR ''r'' then Some (CHR 0x0D)
      else if e = CHR ''t'' then Some (CHR 0x09) else if e = CHR ''b'' then Some (CHR 0x08)
      else if e = CHR ''f'' then Some (CHR 0x0C) else None)"

text \<open>One \<open>\<setminus>u\<close> escape: the bytes it stands for and the text after it.\<close>

definition unicode_escape :: "string \<Rightarrow> (string \<times> string) option" where
  "unicode_escape s =
     (case hex4 s of
        None \<Rightarrow> None
      | Some (n, r) \<Rightarrow>
          if n < 55296 \<or> 57344 \<le> n then Some (utf8 n, r)
          else if n < 56320 then
            (case low_surrogate r of
               Some (m, r') \<Rightarrow> Some (utf8 (65536 + (n - 55296) * 1024 + (m - 56320)), r')
             | None \<Rightarrow> Some (utf8 65533, r))
          else Some (utf8 65533, r))"

lemma hex4_length: "hex4 s = Some (n, r) \<Longrightarrow> length r < length s"
  by (auto simp: hex4_def split: list.splits option.splits prod.splits)

lemma low_surrogate_length: "low_surrogate s = Some (n, r) \<Longrightarrow> length r < length s"
  by (auto simp: low_surrogate_def split: list.splits option.splits prod.splits if_splits
        dest!: hex4_length)

lemma unicode_escape_length [termination_simp]:
  "unicode_escape s = Some (t, r) \<Longrightarrow> length r < length s"
  by (auto simp: unicode_escape_def split: option.splits prod.splits if_splits
        dest!: hex4_length low_surrogate_length)

text \<open>The rest of a string literal after its opening quote.\<close>

function parse_chars :: "string \<Rightarrow> (string \<times> string) option" where
  "parse_chars s =
     (case s of
        [] \<Rightarrow> None
      | c # r \<Rightarrow>
          if c = dquote then Some ([], r)
          else if c = bslash then
            (case r of
               [] \<Rightarrow> None
             | e # r' \<Rightarrow>
                 if e = CHR ''u'' then
                   (case unicode_escape r' of
                      None \<Rightarrow> None
                    | Some (t, r'') \<Rightarrow> map_option (apfst ((@) t)) (parse_chars r''))
                 else
                   (case simple_escape e of
                      None \<Rightarrow> None
                    | Some x \<Rightarrow> map_option (apfst ((#) x)) (parse_chars r')))
          else if byte c < 32 then None
          else map_option (apfst ((#) c)) (parse_chars r))"
  by pat_completeness auto
termination
  by (relation "measure length") (auto dest: unicode_escape_length)

declare parse_chars.simps [simp del]

definition is_num_char :: "char \<Rightarrow> bool" where
  "is_num_char c \<longleftrightarrow> is_digit c \<or> c \<in> {CHR ''+'', CHR ''-'', CHR ''.'', CHR ''e'', CHR ''E''}"

definition valid_exp :: "string \<Rightarrow> bool" where
  "valid_exp s =
     (case s of
        [] \<Rightarrow> True
      | e # t \<Rightarrow>
          (e = CHR ''e'' \<or> e = CHR ''E'') \<and>
          (let u = (case t of [] \<Rightarrow> [] | c # t' \<Rightarrow> if c = CHR ''+'' \<or> c = CHR ''-'' then t' else t)
           in u \<noteq> [] \<and> list_all is_digit u))"

definition valid_frac :: "string \<Rightarrow> bool" where
  "valid_frac s =
     (case s of
        [] \<Rightarrow> True
      | c # t \<Rightarrow> if c = CHR ''.'' then takeWhile is_digit t \<noteq> [] \<and> valid_exp (dropWhile is_digit t)
                 else valid_exp s)"

definition valid_number :: "string \<Rightarrow> bool" where
  "valid_number s =
     (let t = (case s of [] \<Rightarrow> [] | c # s' \<Rightarrow> if c = CHR ''-'' then s' else s);
          d = takeWhile is_digit t
      in d \<noteq> [] \<and> (hd d = CHR ''0'' \<longrightarrow> length d = 1) \<and> valid_frac (dropWhile is_digit t))"

definition strip :: "string \<Rightarrow> string \<Rightarrow> string option" where
  "strip p s = (if take (length p) s = p then Some (drop (length p) s) else None)"

definition parse_lit :: "string \<Rightarrow> json \<Rightarrow> string \<Rightarrow> (json \<times> string) option" where
  "parse_lit p v s = map_option (Pair v) (strip p s)"

definition parse_number :: "string \<Rightarrow> (json \<times> string) option" where
  "parse_number s =
     (let n = takeWhile is_num_char s
      in if valid_number n then Some (JNum n, dropWhile is_num_char s) else None)"

text \<open>Fuel bounds the nesting and the number of elements; \<open>parse\<close> gives the length of the text.\<close>

fun parse_value :: "nat \<Rightarrow> string \<Rightarrow> (json \<times> string) option"
  and parse_elems :: "nat \<Rightarrow> string \<Rightarrow> (json list \<times> string) option"
  and parse_members :: "nat \<Rightarrow> string \<Rightarrow> ((string \<times> json) list \<times> string) option"
where
  "parse_value 0 s = None"
| "parse_value (Suc n) s =
     (case skip_ws s of
        [] \<Rightarrow> None
      | c # r \<Rightarrow>
          if c = dquote then map_option (apfst JStr) (parse_chars r)
          else if c = CHR ''{'' then
            (case strip ''}'' (skip_ws r) of
               Some r' \<Rightarrow> Some (JObj [], r')
             | None \<Rightarrow> map_option (apfst JObj) (parse_members n r))
          else if c = CHR ''['' then
            (case strip '']'' (skip_ws r) of
               Some r' \<Rightarrow> Some (JArr [], r')
             | None \<Rightarrow> map_option (apfst JArr) (parse_elems n r))
          else if c = CHR ''n'' then parse_lit ''null'' JNull (c # r)
          else if c = CHR ''t'' then parse_lit ''true'' (JBool True) (c # r)
          else if c = CHR ''f'' then parse_lit ''false'' (JBool False) (c # r)
          else parse_number (c # r))"
| "parse_elems 0 s = None"
| "parse_elems (Suc n) s =
     (case parse_value n s of
        None \<Rightarrow> None
      | Some (v, r) \<Rightarrow>
          (case skip_ws r of
             [] \<Rightarrow> None
           | c # r' \<Rightarrow>
               if c = CHR '','' then map_option (apfst ((#) v)) (parse_elems n r')
               else if c = CHR '']'' then Some ([v], r') else None))"
| "parse_members 0 s = None"
| "parse_members (Suc n) s =
     (case strip [dquote] (skip_ws s) of
        None \<Rightarrow> None
      | Some r0 \<Rightarrow>
          (case parse_chars r0 of
             None \<Rightarrow> None
           | Some (k, r1) \<Rightarrow>
               (case strip '':'' (skip_ws r1) of
                  None \<Rightarrow> None
                | Some r2 \<Rightarrow>
                    (case parse_value n r2 of
                       None \<Rightarrow> None
                     | Some (v, r3) \<Rightarrow>
                         (case skip_ws r3 of
                            [] \<Rightarrow> None
                          | c # r4 \<Rightarrow>
                              if c = CHR '','' then map_option (apfst ((#) (k, v))) (parse_members n r4)
                              else if c = CHR ''}'' then Some ([(k, v)], r4) else None)))))"

definition parse :: "string \<Rightarrow> (json \<times> string) option" where
  "parse s = parse_value (Suc (length s)) s"

section \<open>Parsing what was rendered\<close>

lemma hex_val_digit [simp]: "n < 16 \<Longrightarrow> hex_val (hex_digit n) = Some n"
proof -
  assume n: "n < 16"
  have "of_char (hex_digit n) = (if n < 10 then 48 + n else 87 + n)"
    using n by (simp add: hex_digit_def of_char_of)
  with n show ?thesis by (simp add: hex_val_def Let_def)
qed

lemma parse_chars_quote [simp]: "parse_chars (dquote # r) = Some ([], r)"
  by (subst parse_chars.simps) simp

lemma parse_chars_plain:
  "plain c \<Longrightarrow> parse_chars (c # r) = map_option (apfst ((#) c)) (parse_chars r)"
  by (subst parse_chars.simps) (auto simp: plain_def)

lemma parse_chars_simple:
  "e \<noteq> CHR ''u'' \<Longrightarrow> simple_escape e = Some x \<Longrightarrow>
   parse_chars (bslash # e # r) = map_option (apfst ((#) x)) (parse_chars r)"
  by (subst parse_chars.simps) simp

lemma parse_chars_unicode:
  "unicode_escape r = Some (t, r') \<Longrightarrow>
   parse_chars (bslash # CHR ''u'' # r) = map_option (apfst ((@) t)) (parse_chars r')"
  by (subst parse_chars.simps) simp

lemma unicode_escape_byte:
  assumes "byte c < 128"
  shows "unicode_escape (CHR ''0'' # CHR ''0'' # hex_digit (byte c div 16) # hex_digit (byte c mod 16) # r) =
    Some ([c], r)"
proof -
  have "hex_val CHR ''0'' = Some 0" by (simp add: hex_val_def)
  moreover have "byte c div 16 < 16" using assms by linarith
  ultimately have "hex4 (CHR ''0'' # CHR ''0'' # hex_digit (byte c div 16) # hex_digit (byte c mod 16) # r) =
      Some (byte c, r)"
    by (simp add: hex4_def)
  with assms show ?thesis by (simp add: unicode_escape_def utf8_def)
qed

lemma not_plain:
  assumes "\<not> plain c"
  shows "byte c < 128"
proof (rule ccontr)
  assume "\<not> byte c < 128"
  then have "32 \<le> byte c" "c \<noteq> dquote" "c \<noteq> bslash" "c \<noteq> CHR ''<''" "c \<noteq> CHR ''>''" "c \<noteq> CHR ''&''"
    by auto
  with assms show False by (simp add: plain_def)
qed

lemma esc_special:
  "c \<in> {dquote, bslash, CHR 0x0A, CHR 0x0D, CHR 0x09} \<Longrightarrow>
   \<exists>e. esc c = [bslash, e] \<and> e \<noteq> CHR ''u'' \<and> simple_escape e = Some c"
  by (elim insertE emptyE) (simp_all add: esc_def plain_def simple_escape_def)

lemma append_single: "(@) [c] = (#) c"
  by (rule ext) simp

lemma parse_chars_esc: "parse_chars (esc c @ r) = map_option (apfst ((#) c)) (parse_chars r)"
proof -
  consider "plain c" | "c \<in> {dquote, bslash, CHR 0x0A, CHR 0x0D, CHR 0x09}"
    | "\<not> plain c" "c \<notin> {dquote, bslash, CHR 0x0A, CHR 0x0D, CHR 0x09}" by blast
  then show ?thesis
  proof cases
    case 1
    then show ?thesis by (simp add: esc_def parse_chars_plain)
  next
    case 2
    then obtain e where "esc c = [bslash, e]" "e \<noteq> CHR ''u''" "simple_escape e = Some c"
      using esc_special by blast
    then show ?thesis by (simp add: parse_chars_simple)
  next
    case 3
    from 3(1) have "byte c < 128" by (rule not_plain)
    from unicode_escape_byte [OF this, of r] 3 show ?thesis
      by (simp add: esc_def parse_chars_unicode append_single)
  qed
qed

lemma parse_chars_string [simp]:
  "parse_chars (concat (map esc s) @ dquote # r) = Some (s, r)"
  by (induction s) (simp_all add: parse_chars_esc)

lemma esc_all_plain: "list_all plain s \<Longrightarrow> concat (map esc s) = s"
  by (induction s) (simp_all add: esc_def)

lemma length_esc: "1 \<le> length (esc c)"
  by (simp add: esc_def)

lemma length_quote: "length s + 2 \<le> length (quote s)"
proof -
  have "length s \<le> length (concat (map esc s))"
  proof (induction s)
    case (Cons c s)
    then show ?case using length_esc [of c] by simp
  qed simp
  then show ?thesis by (simp add: quote_def)
qed

fun wf_json :: "json \<Rightarrow> bool" where
  "wf_json (JNum n) = (valid_number n \<and> list_all is_num_char n)"
| "wf_json (JArr vs) = (\<forall>v \<in> set vs. wf_json v)"
| "wf_json (JObj ms) = (\<forall>m \<in> set ms. wf_json (snd m))"
| "wf_json _ = True"

text \<open>A text may follow a value if it does not go on with a character of a number.\<close>

definition delim :: "string \<Rightarrow> bool" where
  "delim r \<longleftrightarrow> (case r of [] \<Rightarrow> True | c # _ \<Rightarrow> \<not> is_num_char c)"

lemma delim_simps [simp]:
  "delim []" "delim (CHR '','' # r)" "delim (CHR '']'' # r)" "delim (CHR ''}'' # r)"
  "delim (CHR 0x0A # r)" "delim (CHR '' '' # r)" "delim (CHR ''{'' # r)"
  by (simp_all add: delim_def is_num_char_def is_digit_def)

definition starts_value :: "char \<Rightarrow> bool" where
  "starts_value c \<longleftrightarrow> \<not> is_ws c \<and> c \<noteq> CHR '']'' \<and> c \<noteq> CHR ''}'' \<and> c \<noteq> CHR '',''"

lemma valid_number_start:
  assumes "valid_number n"
  obtains c r where "n = c # r" and "is_digit c \<or> c = CHR ''-''"
proof (cases n)
  case Nil
  with assms show ?thesis by (simp add: valid_number_def)
next
  case (Cons c r)
  with assms have "is_digit c \<or> c = CHR ''-''"
    by (auto simp: valid_number_def Let_def split: if_splits)
  with Cons show ?thesis by (rule that)
qed

lemma number_start:
  assumes "is_digit c \<or> c = CHR ''-''"
  shows "\<not> is_ws c" "c \<noteq> dquote" "c \<noteq> CHR ''{''" "c \<noteq> CHR ''[''" "c \<noteq> CHR '']''" "c \<noteq> CHR ''}''"
    "c \<noteq> CHR '',''" "c \<noteq> CHR ''n''" "c \<noteq> CHR ''t''" "c \<noteq> CHR ''f''"
proof -
  have "byte c = 45 \<or> 48 \<le> byte c \<and> byte c \<le> 57"
    using assms by (auto simp: is_digit_def)
  then show "\<not> is_ws c" "c \<noteq> dquote" "c \<noteq> CHR ''{''" "c \<noteq> CHR ''[''" "c \<noteq> CHR '']''" "c \<noteq> CHR ''}''"
    "c \<noteq> CHR '',''" "c \<noteq> CHR ''n''" "c \<noteq> CHR ''t''" "c \<noteq> CHR ''f''"
    by (auto simp: is_ws_def)
qed

lemma render_start:
  assumes "wf_json v"
  obtains c r where "render v = c # r" and "starts_value c"
proof (cases v)
  case (JNum n)
  with assms have "valid_number n" by simp
  then obtain c r where c: "n = c # r" "is_digit c \<or> c = CHR ''-''"
    by (rule valid_number_start)
  have "starts_value c"
    unfolding starts_value_def by (intro conjI) (rule number_start [OF c(2)])+
  with JNum c that show ?thesis by simp
next
  case JNull
  then show ?thesis by (intro that [of "CHR ''n''" "''ull''"]) (simp_all add: starts_value_def is_ws_def)
next
  case (JBool b)
  then show ?thesis
    by (intro that [of "if b then CHR ''t'' else CHR ''f''" "if b then ''rue'' else ''alse''"])
      (simp_all add: starts_value_def is_ws_def)
next
  case (JStr t)
  then show ?thesis
    by (intro that [of dquote "concat (map esc t) @ [dquote]"])
      (simp_all add: quote_def starts_value_def is_ws_def)
next
  case (JArr vs)
  then show ?thesis
    by (intro that [of "CHR ''[''" "render_elems vs"]) (simp_all add: starts_value_def is_ws_def)
next
  case (JObj ms)
  then show ?thesis
    by (intro that [of "CHR ''{''" "render_members ms"]) (simp_all add: starts_value_def is_ws_def)
qed

lemma skip_ws_start [simp]: "\<not> is_ws c \<Longrightarrow> skip_ws (c # r) = c # r"
  by (simp add: skip_ws_def)

lemma strip_single [simp]: "strip [x] (c # r) = (if c = x then Some r else None)"
  by (auto simp: strip_def)

lemma takeWhile_all: "list_all p n \<Longrightarrow> (case r of [] \<Rightarrow> True | c # _ \<Rightarrow> \<not> p c) \<Longrightarrow>
   takeWhile p (n @ r) = n \<and> dropWhile p (n @ r) = r"
  by (induction n) (auto split: list.splits)

lemma parse_number_append:
  "valid_number n \<Longrightarrow> list_all is_num_char n \<Longrightarrow> delim r \<Longrightarrow> parse_number (n @ r) = Some (JNum n, r)"
  using takeWhile_all [of is_num_char n r] by (simp add: parse_number_def delim_def Let_def)

lemma parse_value_num:
  assumes "valid_number n" "list_all is_num_char n" "delim r"
  shows "parse_value (Suc k) (n @ r) = Some (JNum n, r)"
proof -
  obtain c t where n: "n = c # t" and c: "is_digit c \<or> c = CHR ''-''"
    using assms(1) by (rule valid_number_start)
  show ?thesis
    using parse_number_append [OF assms] by (simp add: n number_start [OF c])
qed

lemma parse_lit_append [simp]: "parse_lit p v (p @ r) = Some (v, r)"
  by (simp add: parse_lit_def strip_def)

lemma parse_elems_step:
  assumes "parse_value n (t @ u) = Some (v, u)"
  shows "u = CHR '','' # u' \<Longrightarrow>
      parse_elems (Suc n) (t @ u) = map_option (apfst ((#) v)) (parse_elems n u')"
    and "u = CHR '']'' # u' \<Longrightarrow> parse_elems (Suc n) (t @ u) = Some ([v], u')"
  using assms by (simp_all add: is_ws_def)

lemma parse_members_step:
  assumes "parse_value n (t @ u) = Some (v, u)"
  shows "u = CHR '','' # u' \<Longrightarrow> parse_members (Suc n) (quote k @ CHR '':'' # t @ u) =
      map_option (apfst ((#) (k, v))) (parse_members n u')"
    and "u = CHR ''}'' # u' \<Longrightarrow> parse_members (Suc n) (quote k @ CHR '':'' # t @ u) = Some ([(k, v)], u')"
  using assms by (simp_all add: is_ws_def quote_def)

theorem parse_render:
  "wf_json v \<Longrightarrow> delim r \<Longrightarrow> length (render v) < n \<Longrightarrow> parse_value n (render v @ r) = Some (v, r)"
  and "vs \<noteq> [] \<Longrightarrow> (\<forall>v \<in> set vs. wf_json v) \<Longrightarrow> length (render_elems vs) < n \<Longrightarrow>
    parse_elems n (render_elems vs @ r) = Some (vs, r)"
  and "ms \<noteq> [] \<Longrightarrow> (\<forall>m \<in> set ms. wf_json (snd m)) \<Longrightarrow> length (render_members ms) < n \<Longrightarrow>
    parse_members n (render_members ms @ r) = Some (ms, r)"
proof (induction v and vs and ms arbitrary: n r and n r and n r
    rule: render_render_elems_render_members.induct)
  case 1
  then show ?case by (cases n) (simp_all add: is_ws_def parse_lit_append [of "''null''", simplified])
next
  case (2 b)
  then show ?case
    by (cases n; cases b) (simp_all add: is_ws_def parse_lit_append [of "''true''", simplified]
        parse_lit_append [of "''false''", simplified])
next
  case (3 m)
  then show ?case by (cases n) (simp_all add: parse_value_num del: parse_value.simps)
next
  case (4 s)
  then show ?case by (cases n) (simp_all add: quote_def is_ws_def)
next
  case (5 vs)
  then obtain k where n: "n = Suc k" by (cases n) auto
  show ?case
  proof (cases vs)
    case Nil
    then show ?thesis by (simp add: n is_ws_def)
  next
    case (Cons v ws)
    with "5.prems" have "wf_json v" by simp
    then obtain c t where c: "render v = c # t" "starts_value c" by (rule render_start)
    then obtain t' where "render_elems vs = c # t'" by (cases ws) (auto simp: Cons)
    moreover have "parse_elems k (render_elems vs @ r) = Some (vs, r)"
      using "5.prems" by (intro "5.IH") (simp_all add: n Cons)
    ultimately show ?thesis using c(2) by (simp add: n starts_value_def is_ws_def)
  qed
next
  case (6 ms)
  then obtain k where n: "n = Suc k" by (cases n) auto
  show ?case
  proof (cases ms)
    case Nil
    then show ?thesis by (simp add: n is_ws_def)
  next
    case (Cons m ns)
    obtain t' where "render_members ms = dquote # t'"
      by (cases ns; cases m) (auto simp: Cons quote_def)
    moreover have "parse_members k (render_members ms @ r) = Some (ms, r)"
      using "6.prems" by (intro "6.IH") (simp_all add: n Cons)
    ultimately show ?thesis by (simp add: n is_ws_def)
  qed
next
  case 7
  then show ?case by simp
next
  case (8 v)
  then obtain k where n: "n = Suc k" by (cases n) auto
  from 8 n have "parse_value k (render v @ CHR '']'' # r) = Some (v, CHR '']'' # r)" by simp
  then show ?case by (simp add: n parse_elems_step del: parse_elems.simps)
next
  case (9 v w vs)
  then obtain k where n: "n = Suc k" by (cases n) auto
  have "parse_value k (render v @ CHR '','' # render_elems (w # vs) @ r) =
      Some (v, CHR '','' # render_elems (w # vs) @ r)"
    using "9.prems" n by (intro "9.IH"(1)) auto
  moreover have "parse_elems k (render_elems (w # vs) @ r) = Some (w # vs, r)"
    using "9.prems" n by (intro "9.IH"(2)) auto
  ultimately show ?case by (simp add: n parse_elems_step del: parse_elems.simps)
next
  case 10
  then show ?case by simp
next
  case (11 k v)
  then obtain j where n: "n = Suc j" by (cases n) auto
  have "parse_value j (render v @ CHR ''}'' # r) = Some (v, CHR ''}'' # r)"
    using "11.prems" n by (intro "11.IH") auto
  then show ?case by (simp add: n parse_members_step del: parse_members.simps)
next
  case (12 k v m ms)
  then obtain j where n: "n = Suc j" by (cases n) auto
  have "parse_value j (render v @ CHR '','' # render_members (m # ms) @ r) =
      Some (v, CHR '','' # render_members (m # ms) @ r)"
    using "12.prems" n by (intro "12.IH"(1)) auto
  moreover have "parse_members j (render_members (m # ms) @ r) = Some (m # ms, r)"
    using "12.prems" n by (intro "12.IH"(2)) auto
  ultimately show ?case by (simp add: n parse_members_step del: parse_members.simps)
qed

corollary parse_render_append:
  "wf_json v \<Longrightarrow> delim r \<Longrightarrow> parse (render v @ r) = Some (v, r)"
  unfolding parse_def by (rule parse_render(1)) auto

section \<open>Parsing consumes its input\<close>

lemma map_apfst_Some: "map_option (apfst f) x = Some (a, r) \<Longrightarrow> \<exists>b. x = Some (b, r)"
  by (cases x) auto

lemma parse_chars_shorter: "parse_chars s = Some (t, r) \<Longrightarrow> length r < length s"
proof (induction s arbitrary: t rule: parse_chars.induct)
  case (1 s)
  show ?case
  proof (cases s)
    case Nil
    with "1.prems" show ?thesis by (simp add: parse_chars.simps)
  next
    case (Cons c u)
    note IH = "1.IH" [OF Cons] and eq = "1.prems" [unfolded Cons parse_chars.simps [of "c # u"]]
    consider "c = dquote" | "c \<noteq> dquote" "c = bslash" | "c \<noteq> dquote" "c \<noteq> bslash" by blast
    then show ?thesis
    proof cases
      case 1
      with eq Cons show ?thesis by simp
    next
      case 2
      with eq obtain e u' where u: "u = e # u'" by (cases u) auto
      show ?thesis
      proof (cases "e = CHR ''u''")
        case True
        with eq 2 u obtain a u'' where a: "unicode_escape u' = Some (a, u'')"
          and m: "map_option (apfst ((@) a)) (parse_chars u'') = Some (t, r)"
          by (auto split: option.splits prod.splits)
        from map_apfst_Some [OF m] IH(1) [OF 2 u True a] a have "length r < length u''" by blast
        with unicode_escape_length [OF a] u Cons show ?thesis by simp
      next
        case False
        with eq 2 u obtain x where x: "simple_escape e = Some x"
          and m: "map_option (apfst ((#) x)) (parse_chars u') = Some (t, r)"
          by (auto split: option.splits)
        from map_apfst_Some [OF m] IH(2) [OF 2 u False x] have "length r < length u'" by blast
        with u Cons show ?thesis by simp
      qed
    next
      case 3
      with eq have ge: "\<not> byte c < 32" and m: "map_option (apfst ((#) c)) (parse_chars u) = Some (t, r)"
        by (simp_all split: if_splits)
      from map_apfst_Some [OF m] IH(3) [OF 3 ge] have "length r < length u" by blast
      with Cons show ?thesis by simp
    qed
  qed
qed

lemma strip_shorter: "strip p s = Some r \<Longrightarrow> length r + length p = length s"
proof -
  assume "strip p s = Some r"
  then have "take (length p) s = p" and r: "r = drop (length p) s"
    by (auto simp: strip_def split: if_splits)
  then have "length p \<le> length s" by (metis length_take min.cobounded1)
  then show ?thesis by (simp add: r)
qed

lemma parse_lit_shorter: "p \<noteq> [] \<Longrightarrow> parse_lit p v s = Some (w, r) \<Longrightarrow> length r < length s"
  using strip_shorter [of p s r] by (cases p) (auto simp: parse_lit_def)

lemma skip_ws_length: "length (skip_ws s) \<le> length s"
  by (simp add: skip_ws_def length_dropWhile_le)

lemma parse_number_shorter: "parse_number s = Some (v, r) \<Longrightarrow> length r < length s"
proof -
  assume "parse_number s = Some (v, r)"
  then have "valid_number (takeWhile is_num_char s)" and r: "r = dropWhile is_num_char s"
    by (auto simp: parse_number_def Let_def split: if_splits)
  then have "takeWhile is_num_char s \<noteq> []" by (auto simp: valid_number_def Let_def)
  then have "0 < length (takeWhile is_num_char s)" by simp
  moreover have "length (takeWhile is_num_char s) + length (dropWhile is_num_char s) = length s"
    by (metis length_append takeWhile_dropWhile_id)
  ultimately show ?thesis unfolding r by linarith
qed

lemma parse_value_shorter:
  "parse_value n s = Some (v, r) \<Longrightarrow> length r < length s"
  "parse_elems n s = Some (vs, r) \<Longrightarrow> length r < length s"
  "parse_members n s = Some (ms, r) \<Longrightarrow> length r < length s"
proof (induction n s and n s and n s arbitrary: v r and vs r and ms r
    rule: parse_value_parse_elems_parse_members.induct)
  case (2 n s)
  show ?case
  proof (cases "skip_ws s")
    case Nil
    with 2 show ?thesis by simp
  next
    case (Cons c t)
    then have t: "length t < length s" using skip_ws_length [of s] by simp
    note IH = "2.IH" [OF Cons]
    consider "c = dquote" | "c = CHR ''{''" | "c = CHR ''[''" | "c \<notin> {dquote, CHR ''{'', CHR ''[''}" by blast
    then show ?thesis
    proof cases
      case 1
      with "2.prems" Cons t show ?thesis by (auto dest: parse_chars_shorter)
    next
      case 2
      then have c: "c \<noteq> dquote" by simp
      show ?thesis
      proof (cases "strip ''}'' (skip_ws t)")
        case None
        with "2.prems" Cons 2 have "map_option (apfst JObj) (parse_members n t) = Some (v, r)" by simp
        with IH(1) [OF c 2 None] t map_apfst_Some show ?thesis by (metis less_trans)
      next
        case (Some t')
        with "2.prems" Cons 2 strip_shorter [OF Some] skip_ws_length [of t] t show ?thesis by simp
      qed
    next
      case 3
      then have c: "c \<noteq> dquote" "c \<noteq> CHR ''{''" by simp_all
      show ?thesis
      proof (cases "strip '']'' (skip_ws t)")
        case None
        with "2.prems" Cons 3 have "map_option (apfst JArr) (parse_elems n t) = Some (v, r)" by simp
        with IH(2) [OF c 3 None] t map_apfst_Some show ?thesis by (metis less_trans)
      next
        case (Some t')
        with "2.prems" Cons 3 strip_shorter [OF Some] skip_ws_length [of t] t show ?thesis by simp
      qed
    next
      case 4
      with "2.prems" Cons have "length r < length (c # t)"
        by (auto dest: parse_lit_shorter [rotated] parse_number_shorter split: if_splits)
      with t show ?thesis using Cons skip_ws_length [of s] by simp
    qed
  qed
next
  case (4 n s)
  then obtain w u where w: "parse_value n s = Some (w, u)"
    by (auto split: option.splits)
  with "4.IH"(1) have u: "length u < length s" by blast
  with w "4.prems" obtain c t where t: "skip_ws u = c # t" by (auto split: list.splits)
  with u skip_ws_length [of u] have lt: "length t < length s" by simp
  show ?case
  proof (cases "c = CHR '',''")
    case True
    with w t "4.prems" have "map_option (apfst ((#) w)) (parse_elems n t) = Some (vs, r)" by simp
    with "4.IH"(2) [OF w refl t True] lt map_apfst_Some show ?thesis by (metis less_trans)
  next
    case False
    with w t "4.prems" lt show ?thesis by (auto split: if_splits)
  qed
next
  case (6 n s)
  then obtain r0 where r0: "strip [dquote] (skip_ws s) = Some r0" by (auto split: option.splits)
  with "6.prems" obtain k r1 where r1: "parse_chars r0 = Some (k, r1)" by (auto split: option.splits)
  with r0 "6.prems" obtain r2 where r2: "strip '':'' (skip_ws r1) = Some r2" by (auto split: option.splits)
  with r0 r1 "6.prems" obtain w r3 where r3: "parse_value n r2 = Some (w, r3)" by (auto split: option.splits)
  with r0 r1 r2 "6.prems" obtain c t where t: "skip_ws r3 = c # t" by (auto split: list.splits)
  have "length r3 < length r2" using "6.IH"(1) [OF r0 r1 refl r2 r3] .
  with strip_shorter [OF r0] strip_shorter [OF r2] parse_chars_shorter [OF r1]
    skip_ws_length [of s] skip_ws_length [of r1] skip_ws_length [of r3] t
  have lt: "length t < length s" by simp
  show ?case
  proof (cases "c = CHR '',''")
    case True
    with r0 r1 r2 r3 t "6.prems" have "map_option (apfst ((#) (k, w))) (parse_members n t) = Some (ms, r)" by simp
    with "6.IH"(2) [OF r0 r1 refl r2 r3 refl t True] lt map_apfst_Some show ?thesis by (metis less_trans)
  next
    case False
    with r0 r1 r2 r3 t "6.prems" lt show ?thesis by (auto split: if_splits)
  qed
qed simp_all

corollary parse_shorter: "parse s = Some (v, r) \<Longrightarrow> length r < length s"
  unfolding parse_def by (rule parse_value_shorter)

section \<open>Decoding into structs\<close>

datatype json_error = Json_EOF | Json_syntax | Json_type

definition json_error_text :: "json_error \<Rightarrow> string" where
  "json_error_text e =
     (case e of Json_EOF \<Rightarrow> ''EOF'' | Json_syntax \<Rightarrow> ''invalid JSON syntax''
      | Json_type \<Rightarrow> ''json: cannot unmarshal value'')"

lemma json_error_text_nonempty [simp]: "json_error_text e \<noteq> []"
  by (simp add: json_error_text_def split: json_error.split)

definition lower :: "char \<Rightarrow> char" where
  "lower c = (if 65 \<le> byte c \<and> byte c \<le> 90 then char_of (byte c + 32) else c)"

definition same_key :: "string \<Rightarrow> string \<Rightarrow> bool" where
  "same_key a b \<longleftrightarrow> map lower a = map lower b"

lemma same_key_refl [simp]: "same_key a a"
  by (simp add: same_key_def)

text \<open>
  The members of an object are assigned in their order. \<open>f key v r\<close> assigns one member to the
  struct \<open>r\<close> and reports whether its type did not fit; a misfit leaves the field as it was and
  does not stop the others, and the first one is the error of the whole. \<open>null\<close> leaves any
  struct unchanged.
\<close>

fun assign_members ::
  "(string \<Rightarrow> json \<Rightarrow> 'r \<Rightarrow> 'r \<times> bool) \<Rightarrow> (string \<times> json) list \<Rightarrow> 'r \<Rightarrow> 'r \<times> bool"
where
  "assign_members f [] r = (r, False)"
| "assign_members f ((k, v) # ms) r =
     (let (r', bad) = f k v r; (r'', bad') = assign_members f ms r' in (r'', bad \<or> bad'))"

definition assign_struct :: "(string \<Rightarrow> json \<Rightarrow> 'r \<Rightarrow> 'r \<times> bool) \<Rightarrow> json \<Rightarrow> 'r \<Rightarrow> 'r \<times> bool" where
  "assign_struct f v r =
     (case v of JObj ms \<Rightarrow> assign_members f ms r | JNull \<Rightarrow> (r, False) | _ \<Rightarrow> (r, True))"

definition assign_string :: "(string \<Rightarrow> 'r \<Rightarrow> 'r) \<Rightarrow> json \<Rightarrow> 'r \<Rightarrow> 'r \<times> bool" where
  "assign_string g v r = (case v of JStr s \<Rightarrow> (g s r, False) | JNull \<Rightarrow> (r, False) | _ \<Rightarrow> (r, True))"

definition assign_bool :: "(bool \<Rightarrow> 'r \<Rightarrow> 'r) \<Rightarrow> json \<Rightarrow> 'r \<Rightarrow> 'r \<times> bool" where
  "assign_bool g v r = (case v of JBool b \<Rightarrow> (g b r, False) | JNull \<Rightarrow> (r, False) | _ \<Rightarrow> (r, True))"

text \<open>An integer field of \<open>w\<close> bits takes a literal without fraction or exponent that fits.\<close>

definition read_int :: "string \<Rightarrow> int option" where
  "read_int n =
     (case n of
        [] \<Rightarrow> None
      | c # r \<Rightarrow>
          if c = CHR ''-'' then (if r \<noteq> [] \<and> list_all is_digit r then Some (- int (read_nat r)) else None)
          else if list_all is_digit n then Some (int (read_nat n)) else None)"

definition assign_int :: "nat \<Rightarrow> (int \<Rightarrow> 'r \<Rightarrow> 'r) \<Rightarrow> json \<Rightarrow> 'r \<Rightarrow> 'r \<times> bool" where
  "assign_int w g v r =
     (case v of
        JNum n \<Rightarrow> (case read_int n of
                     Some i \<Rightarrow> if fits w i then (g i r, False) else (r, True)
                   | None \<Rightarrow> (r, True))
      | JNull \<Rightarrow> (r, False)
      | _ \<Rightarrow> (r, True))"

text \<open>A \<open>[]byte\<close> field takes a base64 string.\<close>

definition assign_bytes :: "(bytes \<Rightarrow> 'r \<Rightarrow> 'r) \<Rightarrow> json \<Rightarrow> 'r \<Rightarrow> 'r \<times> bool" where
  "assign_bytes g v r =
     (case v of
        JStr s \<Rightarrow> (case b64_decode s of Some b \<Rightarrow> (g b r, False) | None \<Rightarrow> (r, True))
      | JNull \<Rightarrow> (g [] r, False)
      | _ \<Rightarrow> (r, True))"

definition decode_struct ::
  "(string \<Rightarrow> json \<Rightarrow> 'r \<Rightarrow> 'r \<times> bool) \<Rightarrow> json \<Rightarrow> 'r \<Rightarrow> 'r \<times> json_error option"
where
  "decode_struct f v r = (let (r', bad) = assign_struct f v r in (r', if bad then Some Json_type else None))"

text \<open>\<open>json.Unmarshal\<close>: the whole text is checked before anything is assigned.\<close>

definition unmarshal ::
  "(string \<Rightarrow> json \<Rightarrow> 'r \<Rightarrow> 'r \<times> bool) \<Rightarrow> string \<Rightarrow> 'r \<Rightarrow> 'r \<times> json_error option"
where
  "unmarshal f s r =
     (case parse s of
        Some (v, rest) \<Rightarrow> if skip_ws rest = [] then decode_struct f v r else (r, Some Json_syntax)
      | None \<Rightarrow> (r, Some Json_syntax))"

text \<open>\<open>Decoder.Decode\<close>: the next value of a stream, and the text after it.\<close>

definition next_value :: "string \<Rightarrow> json_error + json \<times> string" where
  "next_value s =
     (if skip_ws s = [] then Inl Json_EOF
      else case parse s of None \<Rightarrow> Inl Json_syntax | Some vr \<Rightarrow> Inr vr)"

lemma unmarshal_render:
  "wf_json v \<Longrightarrow> unmarshal f (render v) r = decode_struct f v r"
  using parse_render_append [of v "[]"] by (simp add: unmarshal_def skip_ws_def)

lemma next_value_render:
  assumes "wf_json v" "delim rest"
  shows "next_value (render v @ rest) = Inr (v, rest)"
proof -
  obtain c r where "render v = c # r" "starts_value c" using assms(1) by (rule render_start)
  with parse_render_append [OF assms] show ?thesis by (simp add: next_value_def starts_value_def)
qed

text \<open>Integers as number literals.\<close>

lemma list_all_digit_show_nat [simp]: "list_all is_digit (show_nat n)"
  using show_nat_digits by (simp add: list_all_iff)

lemma show_nat_hd: "hd (show_nat n) = CHR ''0'' \<Longrightarrow> length (show_nat n) = 1"
proof (induction n rule: show_nat.induct)
  case (1 n)
  show ?case
  proof (cases "n < 10")
    case True
    then show ?thesis by (simp add: show_nat.simps [of n])
  next
    case False
    then have "hd (show_nat (n div 10)) = CHR ''0''"
      using "1.prems" by (simp add: show_nat.simps [of n])
    with False "1.IH" have "length (show_nat (n div 10)) = 1" by simp
    then have "n div 10 < 10" by (cases "n div 10 < 10") (simp_all add: show_nat.simps [of "n div 10"])
    then have "show_nat (n div 10) = [digit (n div 10)]" by (simp add: show_nat.simps [of "n div 10"])
    with \<open>hd (show_nat (n div 10)) = CHR ''0''\<close> have "byte (digit (n div 10)) = 48" by simp
    with \<open>n div 10 < 10\<close> have "n div 10 = 0" by simp
    with False show ?thesis by simp
  qed
qed

lemma is_digit_num_char [simp]: "is_digit c \<Longrightarrow> is_num_char c"
  by (simp add: is_num_char_def)

lemma takeWhile_digits [simp]: "list_all is_digit s \<Longrightarrow> takeWhile is_digit s = s"
  by (simp add: takeWhile_eq_all_conv list_all_iff)

lemma dropWhile_digits [simp]: "list_all is_digit s \<Longrightarrow> dropWhile is_digit s = []"
  by (simp add: list_all_iff)

lemma valid_number_show_int [simp]: "valid_number (show_int i)"
proof -
  have pos: "valid_number (show_nat n)" for n
  proof -
    obtain c r where cr: "show_nat n = c # r" by (cases "show_nat n") auto
    with minus_not_in_show_nat [of n] list_all_digit_show_nat [of n]
    have "c \<noteq> CHR ''-''" and "list_all is_digit (c # r)" by auto
    with cr show_nat_hd [of n] show ?thesis
      by (cases "c = CHR ''0''") (simp_all add: valid_number_def Let_def valid_frac_def is_digit_def)
  qed
  have neg: "valid_number (CHR ''-'' # show_nat n)" for n
    using show_nat_hd [of n] by (simp add: valid_number_def Let_def valid_frac_def)
  show ?thesis using pos neg by (simp add: show_int_def)
qed

lemma num_chars_show_int [simp]: "list_all is_num_char (show_int i)"
  using show_nat_digits by (auto simp: show_int_def list_all_iff is_num_char_def)

lemma read_show_int [simp]: "read_int (show_int i) = Some i"
proof -
  have "read_int (show_nat n) = Some (int n)" for n
  proof -
    obtain c r where cr: "show_nat n = c # r" by (cases "show_nat n") auto
    then have "c \<noteq> CHR ''-''" using minus_not_in_show_nat [of n] by auto
    with cr list_all_digit_show_nat [of n] read_show_nat [of n] show ?thesis
      by (simp add: read_int_def)
  qed
  moreover have "read_int (CHR ''-'' # show_nat n) = Some (- int n)" for n
    by (simp add: read_int_def)
  ultimately show ?thesis by (simp add: show_int_def)
qed

lemma assign_int_show [simp]: "fits w i \<Longrightarrow> assign_int w g (JNum (show_int i)) r = (g i r, False)"
  by (simp add: assign_int_def)

end
