(* ===== verification/Broker.thy ===== *)
theory Broker
  imports FileSys Json
begin

text \<open>
  Package \<open>broker\<close>, file \<open>message.go\<close>: messages, the persistence layer that stores
  them one file each under a size limit (\<open>Persistor\<close>), and the loader that reads them back.
  The state of the \<open>Persistor\<close> is passed explicitly, the world of the file system \<open>'w\<close>
  likewise; errors are values.
\<close>

section \<open>Messages\<close>

text \<open>
  \<open>path\<close> and \<open>fs\<close> are set when a message lives in the file system. There is one file
  system in the client, so \<open>has_fs\<close> only tells whether \<open>m.fs\<close> is set. A nil and an
  empty \<open>Bytes\<close> are identified: the client only takes lengths of it, sends it and encodes it.
\<close>

record Message =
  Error :: string
  Topic :: string
  Bytes :: bytes
  path :: string
  has_fs :: bool

definition empty_message :: Message where
  "empty_message = \<lparr>Error = [], Topic = [], Bytes = [], path = [], has_fs = False\<rparr>"

definition Profile :: string where "Profile = ''profiler''"
definition Event :: string where "Event = ''events''"
definition Log :: string where "Log = ''logs''"
definition DataPoint :: string where "DataPoint = ''datapoints''"

datatype create_error = ErrStorageFull (full_limit: int) (full_used: int) | ErrOther string

definition error_text :: "create_error \<Rightarrow> string" where
  "error_text e =
     (case e of
        ErrStorageFull lim used \<Rightarrow>
          ''persistor: storage full: '' @ show_int used @ '' used of '' @ show_int lim @ '' limit''
      | ErrOther t \<Rightarrow> t)"

text \<open>The JSON text of a message. All of its fields can be encoded, so there is no error case.\<close>

definition marshal_message :: "Message \<Rightarrow> string" where
  "marshal_message m =
     render (JObj [(''error'', JStr (Error m)), (''topic'', JStr (Topic m)),
       (''bytes'', if Bytes m = [] then JNull else JStr (b64_encode (Bytes m)))])"

definition message_field :: "string \<Rightarrow> json \<Rightarrow> Message \<Rightarrow> Message \<times> bool" where
  "message_field k v m =
     (if same_key k ''error'' then assign_string (\<lambda>s m. m\<lparr>Error := s\<rparr>) v m
      else if same_key k ''topic'' then assign_string (\<lambda>s m. m\<lparr>Topic := s\<rparr>) v m
      else if same_key k ''bytes'' then assign_bytes (\<lambda>b m. m\<lparr>Bytes := b\<rparr>) v m
      else (m, False))"

section \<open>Reading the message directory\<close>

definition filepaths :: "('w, 'h) Fs \<Rightarrow> string \<Rightarrow> 'w \<Rightarrow> string list \<times> string option" where
  "filepaths fs dir w =
     (case Stat fs dir w of
        Inl _ \<Rightarrow> ([], None)
      | Inr _ \<Rightarrow>
          (case Open fs dir w of
             Inl err \<Rightarrow> ([], Some (''filepaths: failed to open message directory: '' @ err))
           | Inr d \<Rightarrow>
               (case Readdirnames fs d w of
                  Inl err \<Rightarrow>
                    ([], Some (''filepaths: failed to read directory names in '' @ Name fs d @ '': '' @ err))
                | Inr names \<Rightarrow> (map (\<lambda>name. dir @ ''/'' @ name) names, None))))"

text \<open>The loop of \<open>size\<close>: it goes on after a failing \<open>Stat\<close> and keeps the last error.\<close>

fun size_loop :: "('w, 'h) Fs \<Rightarrow> 'w \<Rightarrow> string list \<Rightarrow> int \<Rightarrow> string option \<Rightarrow> int \<times> string option" where
  "size_loop fs w [] n err = (n, err)"
| "size_loop fs w (p # ps) n err =
     (case Stat fs p w of
        Inl err2 \<Rightarrow>
          size_loop fs w ps n (Some (''size: failed to calculate storage size of message '' @ p @ '': '' @ err2))
      | Inr sz \<Rightarrow> size_loop fs w ps (swrap 64 (n + sz)) err)"

definition storage_size :: "('w, 'h) Fs \<Rightarrow> string \<Rightarrow> 'w \<Rightarrow> int \<times> string option" where
  "storage_size fs dir w =
     (case filepaths fs dir w of
        (_, Some err) \<Rightarrow> (0, Some err)
      | (paths, None) \<Rightarrow> size_loop fs w paths 0 None)"

definition readFile :: "('w, 'h) Fs \<Rightarrow> string \<Rightarrow> 'w \<Rightarrow> string + bytes" where
  "readFile fs p w = (case Open fs p w of Inl err \<Rightarrow> Inl err | Inr f \<Rightarrow> ReadAll fs f w)"

text \<open>The message of a file, from what was read of it.\<close>

definition file_message :: "string \<Rightarrow> string + bytes \<Rightarrow> Message" where
  "file_message p r =
     (let m = empty_message\<lparr>path := p, has_fs := True\<rparr> in
      case r of
        Inl err \<Rightarrow> m\<lparr>Error := err\<rparr>
      | Inr b \<Rightarrow>
          (case unmarshal message_field b m of
             (m', Some err) \<Rightarrow> m'\<lparr>Error := json_error_text err\<rparr>
           | (m', None) \<Rightarrow> m'))"

definition loadMessage :: "('w, 'h) Fs \<Rightarrow> string \<Rightarrow> 'w \<Rightarrow> Message" where
  "loadMessage fs p w = file_message p (readFile fs p w)"

text \<open>
  The loader sends its messages one by one, so the file system may change between two of them:
  \<open>w\<close> is the world when the directory is listed, \<open>ws i\<close> the world when message \<open>i\<close>
  is loaded.
\<close>

definition load :: "('w, 'h) Fs \<Rightarrow> string \<Rightarrow> 'w \<Rightarrow> (nat \<Rightarrow> 'w) \<Rightarrow> Message list" where
  "load fs dir w ws =
     (case filepaths fs dir w of
        (paths, err) \<Rightarrow>
          (case err of None \<Rightarrow> [] | Some e \<Rightarrow> [empty_message\<lparr>Error := e, Topic := Log\<rparr>])
            @ map (\<lambda>i. loadMessage fs (paths ! i) (ws i)) [0..<length paths])"

section \<open>Paths\<close>

text \<open>\<open>filepath.Dir\<close>: the cleaned part of a path up to its last slash.\<close>

fun split_slash :: "string \<Rightarrow> string list" where
  "split_slash [] = [[]]"
| "split_slash (c # s) =
     (if c = CHR ''/'' then [] # split_slash s
      else (case split_slash s of [] \<Rightarrow> [[c]] | x # xs \<Rightarrow> (c # x) # xs))"

fun join_slash :: "string list \<Rightarrow> string" where
  "join_slash [] = []"
| "join_slash [x] = x"
| "join_slash (x # y # xs) = x @ CHR ''/'' # join_slash (y # xs)"

fun clean_parts :: "bool \<Rightarrow> string list \<Rightarrow> string list \<Rightarrow> string list" where
  "clean_parts rooted acc [] = rev acc"
| "clean_parts rooted acc (c # cs) =
     (if c = [] \<or> c = ''.'' then clean_parts rooted acc cs
      else if c = ''..'' then
        (case acc of
           [] \<Rightarrow> clean_parts rooted (if rooted then [] else [c]) cs
         | a # as \<Rightarrow> clean_parts rooted (if a = ''..'' then c # acc else as) cs)
      else clean_parts rooted (c # acc) cs)"

definition Clean :: "string \<Rightarrow> string" where
  "Clean p =
     (let rooted = (take 1 p = ''/''); s = join_slash (clean_parts rooted [] (split_slash p))
      in if rooted then CHR ''/'' # s else if s = [] then ''.'' else s)"

definition Dir :: "string \<Rightarrow> string" where
  "Dir p = Clean (rev (dropWhile (\<lambda>c. c \<noteq> CHR ''/'') (rev p)))"

section \<open>Storing and removing messages\<close>

definition save :: "('w, 'h) Fs \<Rightarrow> Message \<Rightarrow> 'w \<Rightarrow> string option \<times> 'w" where
  "save fs m w =
     (let dir = Dir (path m) in
      case MkdirAll fs dir w of
        (Some err, w') \<Rightarrow> (Some (''save: unable to save message to '' @ dir @ '': '' @ err), w')
      | (None, w') \<Rightarrow> WriteFile fs (path m) (marshal_message m) w')"

text \<open>\<open>Message.Remove\<close>; a failure to remove is only logged.\<close>

definition Remove_message :: "('w, 'h) Fs \<Rightarrow> Message \<Rightarrow> 'w \<Rightarrow> 'w" where
  "Remove_message fs m w = (if \<not> has_fs m then w else snd (Remove fs (path m) w))"

record Persistor =
  limit :: "int option"
  msg_dir :: string
  msg_count :: int

definition NewPersistor :: "string \<Rightarrow> Persistor" where
  "NewPersistor dir = \<lparr>limit = None, msg_dir = dir, msg_count = 0\<rparr>"

text \<open>
  \<open>serve\<close> serializes access to the limit: it takes new limits, hands out the current one and
  stops when \<open>done\<close> closes. The state is the limit and whether the loop still runs; each step
  yields what was handed out.
\<close>

datatype serve_event = Done | NewLimit "int option" | CurrentLimit

fun serve_step :: "int option \<times> bool \<Rightarrow> serve_event \<Rightarrow> ((int option \<times> bool) \<times> int option option)" where
  "serve_step (lim, False) ev = ((lim, False), None)"
| "serve_step (lim, True) Done = ((lim, False), None)"
| "serve_step (lim, True) (NewLimit l) = ((l, True), None)"
| "serve_step (lim, True) CurrentLimit = ((lim, True), Some lim)"

fun serve_run :: "int option \<times> bool \<Rightarrow> serve_event list \<Rightarrow> int option list" where
  "serve_run s [] = []"
| "serve_run s (ev # evs) =
     (case serve_step s ev of (s', out) \<Rightarrow> (case out of None \<Rightarrow> [] | Some l \<Rightarrow> [l]) @ serve_run s' evs)"

text \<open>
  The check of the storage limit, in 64 bit arithmetic: nine tenths of the limit may be used.
\<close>

definition over_limit :: "int \<Rightarrow> int \<Rightarrow> int \<Rightarrow> bool" where
  "over_limit lim len used \<longleftrightarrow> swrap 64 (len + used) > swrap 64 (9 * lim) sdiv 10"

definition limit_error :: "int option \<Rightarrow> int \<Rightarrow> int \<Rightarrow> create_error option" where
  "limit_error lim len used =
     (case lim of
        None \<Rightarrow> None
      | Some l \<Rightarrow> if over_limit l len used then Some (ErrStorageFull l used) else None)"

definition message_path :: "string \<Rightarrow> int \<Rightarrow> int \<Rightarrow> string" where
  "message_path dir pid n = dir @ ''/'' @ show_int pid @ ''-'' @ show_int n"

definition CreateMessage ::
  "('w, 'h) Fs \<Rightarrow> int \<Rightarrow> Persistor \<Rightarrow> Message \<Rightarrow> 'w \<Rightarrow> create_error option \<times> Persistor \<times> Message \<times> 'w"
where
  "CreateMessage fs pid p m w =
     (case storage_size fs (msg_dir p) w of
        (_, Some err) \<Rightarrow> (Some (ErrOther err), p, m, w)
      | (totalSize, None) \<Rightarrow>
          (case limit_error (limit p) (int (length (Bytes m))) totalSize of
             Some err \<Rightarrow> (Some err, p, m, w)
           | None \<Rightarrow>
            (let m' = m\<lparr>path := message_path (msg_dir p) pid (msg_count p), has_fs := True\<rparr>;
                 p' = p\<lparr>msg_count := msg_count p + 1\<rparr>
             in case save fs m' w of (err, w') \<Rightarrow> (map_option ErrOther err, p', m', w'))))"

section \<open>Facts about storing messages\<close>

lemma show_int_no_slash [simp]: "CHR ''/'' \<notin> set (show_int i)"
  by (simp add: show_int_def)

lemma message_path_inj: "message_path dir pid m = message_path dir pid n \<longleftrightarrow> m = n"
  by (simp add: message_path_def)

text \<open>A path the \<open>Persistor\<close> makes is an entry of its directory, under a name without slash.\<close>

lemma message_path_entry:
  "message_path dir pid n = entry dir (show_int pid @ ''-'' @ show_int n)"
  by (simp add: message_path_def entry_def)

lemma over_limit_iff:
  assumes "0 \<le> lim" "fits 64 (9 * lim)" "fits 64 (len + used)"
  shows "over_limit lim len used \<longleftrightarrow> 9 * lim < 10 * (len + used)"
  using assms by (simp add: over_limit_def sdiv_nonneg) linarith

lemma marshal_message_wf:
  "wf_json (JObj [(''error'', JStr (Error m)), (''topic'', JStr (Topic m)),
     (''bytes'', if Bytes m = [] then JNull else JStr (b64_encode (Bytes m)))])"
  by simp

lemma same_key_names [simp]:
  "\<not> same_key ''topic'' ''error''" "\<not> same_key ''bytes'' ''error''" "\<not> same_key ''bytes'' ''topic''"
  by (simp_all add: same_key_def lower_def)

text \<open>The text of a message decodes into the fields it was made from, whatever they were before.\<close>

lemma unmarshal_marshal_message:
  "unmarshal message_field (marshal_message m) r =
     (r\<lparr>Error := Error m, Topic := Topic m, Bytes := Bytes m\<rparr>, None)"
  by (simp only: marshal_message_def unmarshal_render [OF marshal_message_wf])
    (simp add: decode_struct_def assign_struct_def message_field_def assign_string_def assign_bytes_def)

lemma file_message_marshal: "file_message p (Inr (marshal_message m)) = m\<lparr>path := p, has_fs := True\<rparr>"
  by (simp add: file_message_def Let_def unmarshal_marshal_message empty_message_def)

lemma length_marshal_message:
  assumes "Bytes m \<noteq> []"
  shows "4 * length (Bytes m) + 102 \<le> 3 * length (marshal_message m)"
proof -
  have b64: "concat (map esc (b64_encode (Bytes m))) = b64_encode (Bytes m)"
    using b64_alphabet_encode [of "Bytes m"] b64_alphabet_plain
    by (intro esc_all_plain) (auto simp: list_all_iff plain_def)
  have "34 + length (b64_encode (Bytes m)) \<le> length (marshal_message m)"
    using length_quote [of "Error m"] length_quote [of "Topic m"] assms
    by (simp add: marshal_message_def quote_def b64 esc_def plain_def)
  moreover have "4 * length (Bytes m) \<le> 3 * length (b64_encode (Bytes m))"
    by (simp add: length_b64_encode)
  ultimately show ?thesis by linarith
qed

lemma marshal_message_ignores [simp]: "marshal_message (m\<lparr>path := q, has_fs := b\<rparr>) = marshal_message m"
  by (simp add: marshal_message_def)

text \<open>The outcomes of \<open>CreateMessage\<close>: an error before anything is touched, or a call of \<open>save\<close>.\<close>

lemma CreateMessage_cases:
  assumes "CreateMessage fs pid p m w = (err, p', m', w')"
  obtains (before) e where "err = Some e" "p' = p" "m' = m" "w' = w"
  | (saved) e used where "storage_size fs (msg_dir p) w = (used, None)"
      "limit_error (limit p) (int (length (Bytes m))) used = None"
      "m' = m\<lparr>path := message_path (msg_dir p) pid (msg_count p), has_fs := True\<rparr>"
      "p' = p\<lparr>msg_count := msg_count p + 1\<rparr>" "save fs m' w = (e, w')" "err = map_option ErrOther e"
proof (cases "storage_size fs (msg_dir p) w")
  case (Pair used serr)
  show ?thesis
  proof (cases serr)
    case (Some e)
    with Pair assms show ?thesis by (intro before [of "ErrOther e"]) (auto simp: CreateMessage_def)
  next
    case None
    show ?thesis
    proof (cases "limit_error (limit p) (int (length (Bytes m))) used")
      case (Some e)
      with Pair None assms show ?thesis by (intro before [of e]) (auto simp: CreateMessage_def)
    next
      case none: None
      let ?m = "m\<lparr>path := message_path (msg_dir p) pid (msg_count p), has_fs := True\<rparr>"
      obtain e u where "save fs ?m w = (e, u)" by (cases "save fs ?m w")
      with Pair None none assms show ?thesis
        by (intro saved [of used e]) (auto simp: CreateMessage_def Let_def)
    qed
  qed
qed

context file_system
begin

lemma save_writes: "save fs m w = (None, w') \<Longrightarrow> content w' = (content w)(path m \<mapsto> marshal_message m)"
  by (auto simp: save_def Let_def split: prod.splits option.splits dest!: WriteFile_writes MkdirAll_content)

lemma save_frame:
  assumes "save fs m w = (e, w')" and "q \<noteq> path m"
  shows "content w' q = content w q"
proof (cases "MkdirAll fs (Dir (path m)) w")
  case (Pair r u)
  with assms show ?thesis
    using MkdirAll_content [OF Pair] WriteFile_frame [of "path m" "marshal_message m" u e w' q]
    by (auto simp: save_def Let_def split: option.splits)
qed

lemma Create_saved:
  assumes "CreateMessage fs pid p m w = (None, p', m', w')"
  shows "m' = m\<lparr>path := message_path (msg_dir p) pid (msg_count p), has_fs := True\<rparr>"
    and "p' = p\<lparr>msg_count := msg_count p + 1\<rparr>"
    and "content w' = (content w)(path m' \<mapsto> marshal_message m)"
  using assms by (cases rule: CreateMessage_cases; auto dest!: save_writes)+

lemma Create_frame:
  assumes "CreateMessage fs pid p m w = (err, p', m', w')"
    and "q \<noteq> message_path (msg_dir p) pid (msg_count p)"
  shows "content w' q = content w q"
  using assms(1)
proof (cases rule: CreateMessage_cases)
  case before
  then show ?thesis by simp
next
  case (saved e used)
  with assms(2) show ?thesis by (intro save_frame) auto
qed

lemma readFile_content: "readFile fs p w = Inr b \<Longrightarrow> content w p = Some b"
  by (auto simp: readFile_def split: sum.splits dest: Open_Name ReadAll_content)

lemma load_saved:
  assumes "content w p = Some (marshal_message m)" and "readFile fs p w = Inr b"
  shows "loadMessage fs p w = m\<lparr>path := p, has_fs := True\<rparr>"
  using assms readFile_content [OF assms(2)]
  by (simp add: loadMessage_def file_message_marshal)

lemma Remove_message_content:
  "content (Remove_message fs m w) = content w \<or>
   has_fs m \<and> content (Remove_message fs m w) = (content w)(path m := None)"
  by (cases "Remove fs (path m) w"; cases "fst (Remove fs (path m) w)")
    (auto simp: Remove_message_def dest: Remove_removes Remove_fails)

end

lemma filepaths_ok:
  "filepaths fs dir w = (ps, None) \<Longrightarrow> ps \<noteq> [] \<Longrightarrow>
   \<exists>d names. Open fs dir w = Inr d \<and> Readdirnames fs d w = Inr names \<and> ps = map (entry dir) names"
  by (auto simp: filepaths_def entry_def split: sum.splits)

lemma path_file_message [simp]: "path (file_message p r) = p"
proof -
  have str: "path (fst (assign_string (\<lambda>s m. m\<lparr>Error := s\<rparr>) v m)) = path m"
    "path (fst (assign_string (\<lambda>s m. m\<lparr>Topic := s\<rparr>) v m)) = path m"
    "path (fst (assign_bytes (\<lambda>b m. m\<lparr>Bytes := b\<rparr>) v m)) = path m" for v and m :: Message
    by (simp_all add: assign_string_def assign_bytes_def split: json.splits option.splits)
  then have field: "path (fst (message_field k v m)) = path m" for k v m
    by (simp add: message_field_def)
  have members: "path (fst (assign_members message_field ms m)) = path m" for ms m
  proof (induction ms arbitrary: m)
    case (Cons kv ms)
    then show ?case
      using field [of "fst kv" "snd kv" m] by (cases kv) (simp add: Let_def split: prod.splits, metis fst_conv)
  qed simp
  have "path (fst (unmarshal message_field b m)) = path m" for b m
    using members
    by (simp add: unmarshal_def decode_struct_def assign_struct_def split: option.splits prod.splits json.splits)
      (metis fst_conv)
  then show ?thesis
    by (simp add: file_message_def Let_def split: sum.splits prod.splits option.splits) (metis fst_conv Message.select_convs(4) Message.surjective Message.update_convs(4) Message.update_convs(5))
qed

lemma path_loadMessage [simp]: "path (loadMessage fs p w) = p"
  by (simp add: loadMessage_def)

section \<open>Properties\<close>

text \<open>A message that \<open>CreateMessage\<close> stores without error is in the file
\<open>dir/pid-count\<close>, as its JSON text, under the new path the message is given; no other file
changes and the counter moves on by one.\<close>

theorem CreateMessage_saves:
  assumes "file_system fs content" and "CreateMessage fs pid p m w = (None, p', m', w')"
  shows "content w' = (content w)(message_path (msg_dir p) pid (msg_count p) \<mapsto> marshal_message m)
    \<and> m' = m\<lparr>path := message_path (msg_dir p) pid (msg_count p), has_fs := True\<rparr>
    \<and> p' = p\<lparr>msg_count := msg_count p + 1\<rparr>"
  using file_system.Create_saved [OF assms] by simp

definition sample :: Message where
  "sample = empty_message\<lparr>Topic := Event, Bytes := ''abc''\<rparr>"

lemma sample_created:
  obtains p' m' w' where
    "CreateMessage disk_fs 7 (NewPersistor ''d'') sample empty_disk = (None, p', m', w')"
proof -
  have "fst (CreateMessage disk_fs 7 (NewPersistor ''d'') sample empty_disk) = None"
    by code_simp
  with that show ?thesis by (metis prod.collapse)
qed

theorem CreateMessage_saves_witness:
  "\<exists>p' m' w'. CreateMessage disk_fs 7 (NewPersistor ''d'') sample empty_disk = (None, p', m', w')
     \<and> disk_content w' (message_path ''d'' 7 0) = Some (marshal_message sample)"
proof -
  obtain p' m' w' where
    c: "CreateMessage disk_fs 7 (NewPersistor ''d'') sample empty_disk = (None, p', m', w')"
    by (rule sample_created)
  from CreateMessage_saves [OF disk.file_system_axioms c] c show ?thesis
    by (auto simp: NewPersistor_def)
qed

text \<open>C20: Save and load are inverse: the loader, reading the file of a message that was stored,
yields exactly that message: the same error, topic and bytes, the path and the file system set.\<close>

theorem CreateMessage_load_roundtrip:
  assumes "file_system fs content" and "CreateMessage fs pid p m w = (None, p', m', w')"
    and "readFile fs (path m') w' = Inr b"
  shows "loadMessage fs (path m') w' = m'"
  using file_system.load_saved [OF assms(1) _ assms(3), of m]
    file_system.Create_saved [OF assms(1,2)] by simp

theorem CreateMessage_load_roundtrip_witness:
  "\<exists>p' m' w'. CreateMessage disk_fs 7 (NewPersistor ''d'') sample empty_disk = (None, p', m', w')
     \<and> loadMessage disk_fs (path m') w' = m' \<and> Bytes m' = ''abc''"
proof -
  let ?r = "CreateMessage disk_fs 7 (NewPersistor ''d'') sample empty_disk"
  obtain p' m' w' where c: "?r = (None, p', m', w')" by (rule sample_created)
  have "\<exists>b. readFile disk_fs (path (fst (snd (snd ?r)))) (snd (snd (snd ?r))) = Inr b"
    by (rule exI [of _ "marshal_message sample"]) code_simp
  moreover have "Bytes (fst (snd (snd ?r))) = ''abc''" by code_simp
  ultimately show ?thesis
    using c CreateMessage_load_roundtrip [OF disk.file_system_axioms c] by auto
qed

text \<open>Whatever its outcome, \<open>CreateMessage\<close> leaves every other file as it was, and an
outcome that is an error of the storage accounting leaves everything as it was.\<close>

theorem CreateMessage_frame:
  assumes "file_system fs content" and "CreateMessage fs pid p m w = (err, p', m', w')"
  shows "(\<forall>q. q \<noteq> message_path (msg_dir p) pid (msg_count p) \<longrightarrow> content w' q = content w q)
    \<and> (\<forall>lim used. err = Some (ErrStorageFull lim used) \<longrightarrow> p' = p \<and> m' = m \<and> w' = w)"
proof -
  have "p' = p \<and> m' = m \<and> w' = w" if "err = Some (ErrStorageFull lim used)" for lim used
    using assms(2) that by (cases rule: CreateMessage_cases) auto
  with file_system.Create_frame [OF assms] show ?thesis by blast
qed

theorem CreateMessage_frame_witness:
  "\<exists>p' m' w'. CreateMessage disk_fs 7 (NewPersistor ''d'') sample empty_disk = (None, p', m', w')
     \<and> disk_content w' ''d/8-0'' = disk_content empty_disk ''d/8-0''"
proof -
  obtain p' m' w' where
    c: "CreateMessage disk_fs 7 (NewPersistor ''d'') sample empty_disk = (None, p', m', w')"
    by (rule sample_created)
  moreover have "''d/8-0'' \<noteq> message_path (msg_dir (NewPersistor ''d'')) 7 (msg_count (NewPersistor ''d''))"
    by code_simp
  ultimately show ?thesis
    using CreateMessage_frame [OF disk.file_system_axioms c] by auto
qed

text \<open>With a storage limit, a message is refused exactly when the bytes in use and its own
together pass nine tenths of the limit; a refusal changes nothing, and any other outcome takes a
number off the counter.\<close>

theorem CreateMessage_limit:
  assumes "limit p = Some lim" and "storage_size fs (msg_dir p) w = (used, None)"
    and "0 \<le> lim" and "fits 64 (9 * lim)" and "fits 64 (int (length (Bytes m)) + used)"
  shows "if 9 * lim < 10 * (int (length (Bytes m)) + used)
    then CreateMessage fs pid p m w = (Some (ErrStorageFull lim used), p, m, w)
    else \<exists>e m' w'. CreateMessage fs pid p m w = (map_option ErrOther e, p\<lparr>msg_count := msg_count p + 1\<rparr>, m', w')"
  using over_limit_iff [OF assms(3-5)] assms(1,2)
  by (simp add: CreateMessage_def limit_error_def Let_def split: prod.split) blast

theorem CreateMessage_limit_witness:
  "CreateMessage disk_fs 7 ((NewPersistor ''d'')\<lparr>limit := Some 3\<rparr>) sample empty_disk =
     (Some (ErrStorageFull 3 0), (NewPersistor ''d'')\<lparr>limit := Some 3\<rparr>, sample, empty_disk)"
proof -
  have "storage_size disk_fs (msg_dir ((NewPersistor ''d'')\<lparr>limit := Some 3\<rparr>)) empty_disk = (0, None)"
    and "length (Bytes sample) = 3"
    by code_simp+
  from CreateMessage_limit [OF _ this(1), of 3 sample 7] this(2) show ?thesis
    by (simp add: fits_def)
qed

text \<open>The limit counts the bytes of the message, but the file holds their base64 encoding
and the JSON around it: a message that passes the check can occupy more than the whole limit.\<close>

theorem stored_file_exceeds_limit:
  assumes "file_system fs content" and "CreateMessage fs pid p m w = (None, p', m', w')"
    and "limit p = Some lim" and "3 * lim < 4 * int (length (Bytes m)) + 102" and "Bytes m \<noteq> []"
  shows "\<exists>b. content w' (path m') = Some b \<and> lim < int (length b)"
  using file_system.Create_saved [OF assms(1,2)] length_marshal_message [OF assms(5)] assms(4) by simp

theorem stored_file_exceeds_limit_witness:
  "\<exists>p' m' w' b. CreateMessage disk_fs 7 ((NewPersistor ''d'')\<lparr>limit := Some 4\<rparr>) sample empty_disk =
       (None, p', m', w')
     \<and> disk_content w' (path m') = Some b \<and> 4 < length b"
proof -
  let ?p = "(NewPersistor ''d'')\<lparr>limit := Some 4\<rparr>"
  have "fst (CreateMessage disk_fs 7 ?p sample empty_disk) = None" by code_simp
  then obtain p' m' w' where c: "CreateMessage disk_fs 7 ?p sample empty_disk = (None, p', m', w')"
    by (metis prod.collapse)
  from stored_file_exceeds_limit [OF disk.file_system_axioms c, of 4] show ?thesis
    using c by (auto simp: sample_def empty_message_def)
qed

text \<open>
  A process stores its messages one after the other with one \<open>Persistor\<close>; the world may be
  changed by others in between, so each call comes with the world it sees.
\<close>

fun create_all ::
  "('w, 'h) Fs \<Rightarrow> int \<Rightarrow> Persistor \<Rightarrow> (Message \<times> 'w) list \<Rightarrow> (create_error option \<times> Message) list"
where
  "create_all fs pid p [] = []"
| "create_all fs pid p ((m, w) # ms) =
     (case CreateMessage fs pid p m w of (err, p', m', _) \<Rightarrow> (err, m') # create_all fs pid p' ms)"

definition stored :: "(create_error option \<times> Message) list \<Rightarrow> Message list" where
  "stored rs = map snd (filter (\<lambda>r. fst r = None) rs)"

lemma stored_paths_from:
  "q \<in> set (map path (stored (create_all fs pid p ms))) \<Longrightarrow>
   \<exists>n \<ge> msg_count p. q = message_path (msg_dir p) pid n"
proof (induction ms arbitrary: p)
  case Nil
  then show ?case by (simp add: stored_def)
next
  case (Cons mw ms)
  obtain m w where mw: "mw = (m, w)" by (cases mw)
  obtain err p' m' w' where c: "CreateMessage fs pid p m w = (err, p', m', w')"
    by (cases "CreateMessage fs pid p m w") auto
  then have p': "msg_dir p' = msg_dir p" "msg_count p \<le> msg_count p'"
    by (cases rule: CreateMessage_cases; simp)+
  from Cons.prems c mw consider "err = None" "q = path m'"
    | "q \<in> set (map path (stored (create_all fs pid p' ms)))"
    by (auto simp: stored_def split: if_splits)
  then show ?case
  proof cases
    case 1
    from c have "path m' = message_path (msg_dir p) pid (msg_count p)"
      using 1(1) by (cases rule: CreateMessage_cases) auto
    with 1(2) show ?thesis by blast
  next
    case 2
    then obtain n where "msg_count p' \<le> n" "q = message_path (msg_dir p') pid n"
      using Cons.IH by blast
    with p' show ?thesis by (intro exI [of _ n]) auto
  qed
qed

text \<open>The names are unique: however the file system changes in between, no two messages
that one \<open>Persistor\<close> stores get the same path.\<close>

theorem stored_paths_distinct:
  "distinct (map path (stored (create_all fs pid p ms)))"
proof (induction ms arbitrary: p)
  case Nil
  then show ?case by (simp add: stored_def)
next
  case (Cons mw ms)
  obtain m w where mw: "mw = (m, w)" by (cases mw)
  obtain err p' m' w' where c: "CreateMessage fs pid p m w = (err, p', m', w')"
    by (cases "CreateMessage fs pid p m w") auto
  note IH = Cons.IH [of p']
  show ?case
  proof (cases err)
    case None
    from c have m': "path m' = message_path (msg_dir p) pid (msg_count p)"
      "msg_dir p' = msg_dir p" "msg_count p' = msg_count p + 1"
      using None by (cases rule: CreateMessage_cases; simp)+
    have "path m' \<notin> set (map path (stored (create_all fs pid p' ms)))"
      using stored_paths_from [of "path m'" fs pid p' ms] m' by (auto simp: message_path_inj)
    with IH None c mw show ?thesis by (simp add: stored_def)
  next
    case (Some e)
    with IH c mw show ?thesis by (simp add: stored_def)
  qed
qed

text \<open>The loader misses nothing: when the directory can be listed, every file in it gives one
message, under its own path, and no file gives two.\<close>

theorem load_complete:
  assumes "file_system fs content" and "filepaths fs dir w = (paths, None)"
    and "Stat fs dir w = Inr n"
    and "CHR ''/'' \<notin> set name" and "content w (entry dir name) \<noteq> None"
  shows "map path (load fs dir w ws) = paths \<and> distinct paths \<and> entry dir name \<in> set paths"
proof -
  from assms(2,3) obtain d names where d: "Open fs dir w = Inr d" "Readdirnames fs d w = Inr names"
    "paths = map (entry dir) names"
    by (auto simp: filepaths_def entry_def split: sum.splits)
  then have "Name fs d = dir" using file_system.Open_Name [OF assms(1)] by blast
  with file_system.Readdirnames_lists [OF assms(1) d(2)] assms(4,5)
  have names: "distinct names" "name \<in> set names" by auto
  have "map path (load fs dir w ws) = paths"
    using assms(2) by (simp add: load_def comp_def map_nth)
  moreover have "inj (entry dir)" by (simp add: inj_def entry_def)
  ultimately show ?thesis
    using names d(3) by (auto simp: distinct_map inj_on_def inj_def)
qed

theorem load_complete_witness:
  "\<exists>d. map path (load disk_fs ''d'' d (\<lambda>_. d)) = [''d/7-0''] \<and> entry ''d'' ''7-0'' \<in> {''d/7-0''}"
proof -
  let ?d = "empty_disk\<lparr>dirs := [''d''], files := [(''d/7-0'', ''{}''), (''e'', [])]\<rparr>"
  have "filepaths disk_fs ''d'' ?d = ([''d/7-0''], None)" by code_simp
  moreover have "Stat disk_fs ''d'' ?d = Inr 0" by code_simp
  moreover have "disk_content ?d (entry ''d'' ''7-0'') \<noteq> None"
    by (simp add: disk_content_def entry_def)
  ultimately have "map path (load disk_fs ''d'' ?d (\<lambda>_. ?d)) = [''d/7-0''] \<and> entry ''d'' ''7-0'' \<in> {''d/7-0''}"
    using load_complete [OF disk.file_system_axioms, of "''d''" ?d "[''d/7-0'']" 0 "''7-0''" "\<lambda>_. ?d"] by simp
  then show ?thesis by (rule exI [of _ ?d])
qed

text \<open>\<open>Remove\<close> deletes at most the message's own file, and does nothing at all to a
message that does not live in the file system.\<close>

theorem Remove_message_only_own:
  assumes "file_system fs content"
  shows "(\<forall>q. q \<noteq> path m \<longrightarrow> content (Remove_message fs m w) q = content w q)
    \<and> content (Remove_message fs m w) (path m) \<in> {None, content w (path m)}
    \<and> (\<not> has_fs m \<longrightarrow> Remove_message fs m w = w)"
proof -
  from file_system.Remove_message_content [OF assms, of m w]
  show ?thesis by (auto simp: Remove_message_def [of fs m w])
qed

theorem Remove_message_only_own_witness:
  "disk_content (Remove_message disk_fs sample (empty_disk\<lparr>files := [(''d/7-0'', ''{}'')]\<rparr>)) ''d/7-0'' = Some ''{}''"
  using Remove_message_only_own [OF disk.file_system_axioms, of sample "empty_disk\<lparr>files := [(''d/7-0'', ''{}'')]\<rparr>"]
  by (simp add: sample_def empty_message_def disk_content_def)

text \<open>The limit a reader gets from \<open>serve\<close> is the last one configured before it asked, or
none if there was none; after \<open>done\<close> closes nothing is handed out.\<close>

fun last_limit :: "int option \<Rightarrow> serve_event list \<Rightarrow> int option" where
  "last_limit lim [] = lim"
| "last_limit lim (NewLimit l # evs) = last_limit l evs"
| "last_limit lim (_ # evs) = last_limit lim evs"

lemma serve_run_stopped [simp]: "serve_run (lim, False) evs = []"
  by (induction evs) simp_all

theorem serve_hands_out_last:
  "serve_run (lim, True) (evs @ CurrentLimit # rest) =
     (if Done \<in> set evs then serve_run (lim, True) evs
      else serve_run (lim, True) evs @ last_limit lim evs # serve_run (last_limit lim evs, True) rest)"
proof (induction evs arbitrary: lim)
  case Nil
  then show ?case by simp
next
  case (Cons e evs)
  then show ?case by (cases e) auto
qed

end
