(* ===== verification/Agent.thy ===== *)
theory Agent
  imports Broker
begin

text \<open>
  Package \<open>agent\<close>: the servers that read JSON messages and data points from the application
  (\<open>agent/server.go\<close>, \<open>agent/datapoint.go\<close>) and the requester that asks the agent for
  emissions (\<open>agent/requester.go\<close>). \<open>serve\<close> yields the messages a server sends before it
  closes its output, or \<open>None\<close> if it never returns. Whoever receives from the output is
  assumed to go on receiving.
\<close>

section \<open>Messages and streams\<close>

text \<open>
  \<open>Data\<close> is the JSON value whose raw text the Go field holds; \<open>None\<close> is the empty text, of a
  message without that member.
\<close>

record agent_Message =
  Type :: string
  Data :: "json option"

definition empty_agent_Message :: agent_Message where
  "empty_agent_Message = \<lparr>Type = [], Data = None\<rparr>"

definition agent_field :: "string \<Rightarrow> json \<Rightarrow> agent_Message \<Rightarrow> agent_Message \<times> bool" where
  "agent_field k v m =
     (if same_key k ''type'' then assign_string (\<lambda>s m. m\<lparr>Type := s\<rparr>) v m
      else if same_key k ''data'' then (m\<lparr>Data := Some v\<rparr>, False)
      else (m, False))"

text \<open>
  A reader and the \<open>json.Decoder\<close> on it: the text that is still to be decoded, whether the
  reader ends with an error instead of EOF, and how much of a text the decoder has in its buffer
  when it gives up on it, which depends on how the reader cuts the text into reads.
\<close>

record stream =
  unread :: string
  failing :: "string option"
  buffered :: "string \<Rightarrow> nat"

datatype decoded = Value json | EndOfStream | Bad string

text \<open>A literal ends where something follows it, which a reader that fails does not show; an object or an array ends with its bracket.\<close>

definition bracketed :: "json \<Rightarrow> bool" where
  "bracketed v = (case v of JArr _ \<Rightarrow> True | JObj _ \<Rightarrow> True | _ \<Rightarrow> False)"

definition Decode :: "stream \<Rightarrow> decoded \<times> stream" where
  "Decode s =
     (if skip_ws (unread s) = [] then
        ((case failing s of None \<Rightarrow> EndOfStream | Some e \<Rightarrow> Bad e), s\<lparr>unread := []\<rparr>)
      else
        (case parse (unread s) of
           None \<Rightarrow> (Bad (json_error_text Json_syntax), s)
         | Some (v, rest) \<Rightarrow>
             (case failing s of
                Some e \<Rightarrow> if rest = [] \<and> \<not> bracketed v then (Bad e, s) else (Value v, s\<lparr>unread := rest\<rparr>)
              | None \<Rightarrow> (Value v, s\<lparr>unread := rest\<rparr>))))"

text \<open>
  \<open>ioutil.ReadAll(dec.Buffered())\<close> and a new decoder: what was buffered is gone. After a syntax
  error that is at least the byte that was wrong.
\<close>

definition discard :: "nat \<Rightarrow> stream \<Rightarrow> stream" where
  "discard least s = s\<lparr>unread := drop (max least (buffered s (unread s))) (unread s)\<rparr>"

section \<open>Server\<close>

record server =
  s_dec :: stream
  s_errd :: bool
  s_msg :: agent_Message
  s_err :: "string option"

definition newServer :: "stream \<Rightarrow> server" where
  "newServer dec = \<lparr>s_dec = dec, s_errd = False, s_msg = empty_agent_Message, s_err = None\<rparr>"

definition scan :: "server \<Rightarrow> bool \<times> server" where
  "scan s =
     (case Decode (s_dec s) of
        (EndOfStream, d) \<Rightarrow> (False, s\<lparr>s_dec := d\<rparr>)
      | (Bad e, d) \<Rightarrow> (True, s\<lparr>s_err := Some e, s_dec := discard 1 d\<rparr>)
      | (Value v, d) \<Rightarrow>
          (case decode_struct agent_field v empty_agent_Message of
             (m, Some e) \<Rightarrow> (True, s\<lparr>s_err := Some (json_error_text e), s_dec := discard 0 d\<rparr>)
           | (m, None) \<Rightarrow> (True, s\<lparr>s_errd := (s_errd s \<or> Type m = ''event''), s_msg := m, s_dec := d\<rparr>)))"

partial_function (option) scan_all :: "server \<Rightarrow> (agent_Message list \<times> server) option" where
  "scan_all s =
     (let (more, s') = scan s in
      if \<not> more then Some ([], s')
      else Option.bind (scan_all s') (\<lambda>(out, t). Some ((if s_err s' \<noteq> None then [] else [s_msg s']) @ out, t)))"

definition cleanExit :: agent_Message where
  "cleanExit = \<lparr>Type = ''cleanExit'', Data = None\<rparr>"

text \<open>When \<open>serve\<close> returns, the output and then \<open>Done\<close> are closed.\<close>

definition serve :: "server \<Rightarrow> agent_Message list option" where
  "serve s =
     map_option (\<lambda>(out, t). out @ (if s_errd t then [] else [cleanExit])) (scan_all s)"

section \<open>DataPointServer\<close>

record dataPointServer =
  d_dec :: stream
  d_msg :: agent_Message
  d_err :: "string option"

definition newDataPointServer :: "stream \<Rightarrow> dataPointServer" where
  "newDataPointServer dec = \<lparr>d_dec = dec, d_msg = empty_agent_Message, d_err = None\<rparr>"

text \<open>Any JSON value fits into the raw \<open>Data\<close> field.\<close>

definition dp_scan :: "dataPointServer \<Rightarrow> bool \<times> dataPointServer" where
  "dp_scan s =
     (case Decode (d_dec s) of
        (Value v, d) \<Rightarrow> (True, s\<lparr>d_msg := \<lparr>Type = ''datapoint'', Data = Some v\<rparr>, d_dec := d\<rparr>)
      | (EndOfStream, d) \<Rightarrow> (False, s\<lparr>d_dec := d\<rparr>)
      | (Bad e, d) \<Rightarrow>
          (True, s\<lparr>d_err := Some (''error decoding data point stream: '' @ e), d_dec := discard 1 d\<rparr>))"

partial_function (option) dp_serve :: "dataPointServer \<Rightarrow> agent_Message list option" where
  "dp_serve s =
     (let (more, s') = dp_scan s in
      if \<not> more then Some []
      else Option.bind (dp_serve s') (\<lambda>out. Some ((if d_err s' \<noteq> None then [] else [d_msg s']) @ out)))"

section \<open>Well-formed streams\<close>

text \<open>
  An agent writes one JSON value per line. \<open>carries s vs\<close>: what is left of the stream is the
  lines of \<open>vs\<close>, after at most the end of the line before.
\<close>

definition line_of :: "json \<Rightarrow> string" where
  "line_of v = render v @ [CHR 0x0A]"

definition carries :: "stream \<Rightarrow> json list \<Rightarrow> bool" where
  "carries s vs \<longleftrightarrow> failing s = None \<and> (\<forall>v \<in> set vs. wf_json v) \<and>
     unread s \<in> {concat (map line_of vs), CHR 0x0A # concat (map line_of vs)}"

lemma skip_ws_newline [simp]: "skip_ws (CHR 0x0A # t) = skip_ws t"
  by (simp add: skip_ws_def is_ws_def)

lemma parse_newline:
  assumes "parse_value (Suc (Suc (length t))) t = Some r"
  shows "parse (CHR 0x0A # t) = Some r"
  using assms by (simp add: parse_def)

lemma parse_line:
  assumes "wf_json v"
  shows "parse (line_of v @ r) = Some (v, CHR 0x0A # r)"
    and "parse (CHR 0x0A # line_of v @ r) = Some (v, CHR 0x0A # r)"
proof -
  have delim: "delim (CHR 0x0A # r)" by (simp add: delim_def is_num_char_def is_digit_def)
  with assms show "parse (line_of v @ r) = Some (v, CHR 0x0A # r)"
    by (simp add: line_of_def parse_render_append)
  from delim assms show "parse (CHR 0x0A # line_of v @ r) = Some (v, CHR 0x0A # r)"
    by (intro parse_newline) (simp add: line_of_def parse_render(1) del: parse_value.simps)
qed

lemma skip_ws_line:
  assumes "wf_json v"
  shows "skip_ws (line_of v @ r) \<noteq> []"
proof -
  obtain c t where "render v = c # t" "starts_value c" using assms by (rule render_start)
  then show ?thesis by (simp add: line_of_def starts_value_def)
qed

lemma Decode_carries_Cons:
  assumes "carries s (v # vs)"
  shows "\<exists>d. Decode s = (Value v, d) \<and> carries d vs"
proof -
  from assms have wf: "wf_json v" and f: "failing s = None"
    and u: "unread s = line_of v @ concat (map line_of vs) \<or>
      unread s = CHR 0x0A # line_of v @ concat (map line_of vs)"
    by (auto simp: carries_def)
  from u have "skip_ws (unread s) \<noteq> []" using skip_ws_line [OF wf] by auto
  moreover from u have "parse (unread s) = Some (v, CHR 0x0A # concat (map line_of vs))"
    using parse_line [OF wf] by auto
  ultimately have "Decode s = (Value v, s\<lparr>unread := CHR 0x0A # concat (map line_of vs)\<rparr>)"
    by (simp add: Decode_def f split: json.splits)
  with assms show ?thesis by (auto simp: carries_def)
qed

lemma Decode_carries_Nil: "carries s [] \<Longrightarrow> \<exists>d. Decode s = (EndOfStream, d)"
  by (auto simp: carries_def Decode_def skip_ws_def is_ws_def)

section \<open>What \<open>serve\<close> sends\<close>

text \<open>One round of \<open>scan_all\<close>, by the outcome of \<open>scan\<close>.\<close>

lemma scan_all_end: "scan s = (False, t) \<Longrightarrow> scan_all s = Some ([], t)"
  by (subst scan_all.simps) simp

lemma scan_all_more:
  "scan s = (True, t) \<Longrightarrow> scan_all s =
     map_option (apfst ((@) (if s_err t = None then [s_msg t] else []))) (scan_all t)"
  by (subst scan_all.simps) (auto simp: map_option_case apfst_def map_prod_def split: option.splits)

lemma Decode_shorter:
  assumes "Decode s = (x, d)" and "failing s = None"
  shows "failing d = None \<and> (x = EndOfStream \<or> (\<exists>v. x = Value v) \<and> length (unread d) < length (unread s)
    \<or> (\<exists>e. x = Bad e) \<and> unread d = unread s \<and> unread s \<noteq> [])"
  using assms parse_shorter
  by (fastforce simp: Decode_def skip_ws_def split: if_splits option.splits json.splits)

lemma scan_shorter:
  assumes "scan s = (True, t)" and "failing (s_dec s) = None"
  shows "failing (s_dec t) = None \<and> length (unread (s_dec t)) < length (unread (s_dec s))"
proof -
  obtain x d where d: "Decode (s_dec s) = (x, d)" by (cases "Decode (s_dec s)")
  from assms(1) d Decode_shorter [OF d assms(2)] show ?thesis
    by (cases x) (auto simp: scan_def discard_def split: prod.splits option.splits)
qed

text \<open>On a stream that ends with EOF the loop ends.\<close>

lemma scan_all_total: "failing (s_dec s) = None \<Longrightarrow> scan_all s \<noteq> None"
proof (induction "length (unread (s_dec s))" arbitrary: s rule: less_induct)
  case less
  obtain more t where t: "scan s = (more, t)" by (cases "scan s")
  show ?case
  proof (cases more)
    case False
    with t show ?thesis by (simp add: scan_all_end)
  next
    case True
    with t scan_shorter [of s t] less show ?thesis by (simp add: scan_all_more)
  qed
qed

text \<open>\<open>s.err\<close> is never cleared, so nothing is sent after the first error.\<close>

lemma scan_err: "scan s = (b, t) \<Longrightarrow> s_err s \<noteq> None \<Longrightarrow> s_err t \<noteq> None"
  by (auto simp: scan_def split: prod.splits decoded.splits option.splits)

lemma scan_all_induct:
  assumes "scan_all s = Some r"
    and stop: "\<And>s t. scan s = (False, t) \<Longrightarrow> P s ([], t)"
    and more: "\<And>s t out u. scan s = (True, t) \<Longrightarrow> P t (out, u) \<Longrightarrow>
      P s ((if s_err t = None then [s_msg t] else []) @ out, u)"
  shows "P s r"
proof (rule scan_all.raw_induct [where P = P, OF _ assms(1)])
  fix f s r
  assume IH: "\<And>s r. f s = Some r \<Longrightarrow> P s r"
    and eq: "(let (more, s') = scan s in
      if \<not> more then Some ([], s')
      else Option.bind (f s') (\<lambda>(out, t). Some ((if s_err s' \<noteq> None then [] else [s_msg s']) @ out, t))) = Some r"
  obtain b t where t: "scan s = (b, t)" by (cases "scan s")
  show "P s r"
  proof (cases b)
    case False
    with eq t have "r = ([], t)" by simp
    with stop t False show ?thesis by simp
  next
    case True
    with eq t obtain out u where u: "f t = Some (out, u)"
      "r = ((if s_err t \<noteq> None then [] else [s_msg t]) @ out, u)"
      by (cases "f t") auto
    with more [of s t out u] IH [OF u(1)] t True show ?thesis by (cases "s_err t") simp_all
  qed
qed

lemma scan_all_deaf: "scan_all s = Some r \<Longrightarrow> s_err s \<noteq> None \<longrightarrow> fst r = []"
  by (erule scan_all_induct) (auto dest: scan_err)

text \<open>A reader that fails is read for ever.\<close>

lemma Decode_failing: "Decode s = (x, d) \<Longrightarrow> failing s = Some e \<Longrightarrow> failing d = Some e \<and> x \<noteq> EndOfStream"
  by (auto simp: Decode_def split: if_splits option.splits json.splits)

lemma scan_failing:
  "scan s = (b, t) \<Longrightarrow> failing (s_dec s) = Some e \<Longrightarrow> failing (s_dec t) = Some e \<and> b"
  using Decode_failing [of "s_dec s"]
  by (cases "Decode (s_dec s)"; cases "fst (Decode (s_dec s))")
    (auto simp: scan_def discard_def split: prod.splits option.splits)

lemma scan_all_failing: "scan_all s = Some r \<Longrightarrow> failing (s_dec s) = None"
proof (erule scan_all_induct [where P = "\<lambda>s r. failing (s_dec s) = None"])
  show "failing (s_dec s) = None" if "scan s = (False, t)" for s t
    using scan_failing [OF that] by (cases "failing (s_dec s)") auto
  show "failing (s_dec s) = None" if "scan s = (True, t)" "failing (s_dec t) = None" for s t
    using scan_failing [OF that(1)] that(2) by (cases "failing (s_dec s)") auto
qed

section \<open>Agent messages on the wire\<close>

definition agent_json :: "agent_Message \<Rightarrow> json" where
  "agent_json m = JObj ((''type'', JStr (Type m)) # (case Data m of None \<Rightarrow> [] | Some v \<Rightarrow> [(''data'', v)]))"

definition wf_agent :: "agent_Message \<Rightarrow> bool" where
  "wf_agent m \<longleftrightarrow> (case Data m of None \<Rightarrow> True | Some v \<Rightarrow> wf_json v)"

lemma wf_agent_json [simp]: "wf_json (agent_json m) = wf_agent m"
  by (simp add: agent_json_def wf_agent_def split: option.split)

lemma decode_agent_json: "decode_struct agent_field (agent_json m) empty_agent_Message = (m, None)"
  by (cases m) (simp add: agent_json_def decode_struct_def assign_struct_def agent_field_def assign_string_def
      same_key_def lower_def empty_agent_Message_def split: option.split)

lemma scan_all_carries:
  assumes "carries (s_dec s) (map agent_json ms)"
  shows "\<exists>t. scan_all s = Some (if s_err s = None then ms else [], t)
    \<and> (s_errd t \<longleftrightarrow> s_errd s \<or> (\<exists>m \<in> set ms. Type m = ''event''))"
  using assms
proof (induction ms arbitrary: s)
  case Nil
  then obtain d where "Decode (s_dec s) = (EndOfStream, d)" using Decode_carries_Nil by auto
  then show ?case by (simp add: scan_def scan_all_end)
next
  case (Cons m ms)
  then obtain d where d: "Decode (s_dec s) = (Value (agent_json m), d)" "carries d (map agent_json ms)"
    using Decode_carries_Cons by fastforce
  define t where "t = s\<lparr>s_errd := (s_errd s \<or> Type m = ''event''), s_msg := m, s_dec := d\<rparr>"
  have t: "scan s = (True, t)" by (simp add: scan_def d(1) decode_agent_json t_def)
  from Cons.IH [of t] d(2) obtain u where
    "scan_all t = Some (if s_err s = None then ms else [], u)" "s_errd u \<longleftrightarrow> s_errd t \<or> (\<exists>m \<in> set ms. Type m = ''event'')"
    by (auto simp: t_def)
  with t show ?case by (auto simp: scan_all_more t_def)
qed

section \<open>Properties of the server\<close>

text \<open>C27: From a stream of well-formed messages, one per line, the server sends exactly these
messages in their order, and a \<open>cleanExit\<close> after them if and only if none of them was an
\<open>event\<close>.\<close>

theorem server_sends_stream:
  assumes "\<forall>m \<in> set ms. wf_agent m"
  shows "serve (newServer \<lparr>unread = concat (map (\<lambda>m. line_of (agent_json m)) ms), failing = None, buffered = k\<rparr>)
    = Some (ms @ (if \<exists>m \<in> set ms. Type m = ''event'' then [] else [cleanExit]))"
proof -
  let ?s = "newServer \<lparr>unread = concat (map (\<lambda>m. line_of (agent_json m)) ms), failing = None, buffered = k\<rparr>"
  have "carries (s_dec ?s) (map agent_json ms)"
    using assms by (simp add: carries_def newServer_def comp_def)
  from scan_all_carries [OF this] show ?thesis by (auto simp: serve_def newServer_def)
qed

definition wire_sample :: "agent_Message list" where
  "wire_sample = [\<lparr>Type = ''profile'', Data = Some (JObj [])\<rparr>, \<lparr>Type = ''event'', Data = None\<rparr>]"

theorem server_sends_stream_witness:
  "serve (newServer \<lparr>unread = concat (map (\<lambda>m. line_of (agent_json m)) wire_sample), failing = None, buffered = (\<lambda>_. 512)\<rparr>)
    = Some wire_sample"
  using server_sends_stream [of wire_sample "\<lambda>_. 512"] by (simp add: wire_sample_def wf_agent_def)

text \<open>C33: The server ends exactly on the streams that end: on EOF it always returns, whatever
the text before it; on a read error, such as a connection that is reset, it never does, but decodes
the same failing stream again and again.\<close>

theorem server_returns_iff_EOF:
  "serve s \<noteq> None \<longleftrightarrow> failing (s_dec s) = None"
  using scan_all_total [of s] scan_all_failing [of s] by (auto simp: serve_def)

text \<open>After one malformed message the server is deaf: no later message is sent, however
well-formed. An \<open>event\<close> among them still counts, so then not even the exit of the application
is reported.\<close>

theorem server_deaf_after_error:
  assumes "scan s = (True, t)" and "s_err t \<noteq> None" and "failing (s_dec s) = None"
  shows "(serve s = Some [] \<or> serve s = Some [cleanExit])
    \<and> (\<forall>ms. carries (s_dec t) (map agent_json ms) \<longrightarrow>
        serve s = Some (if s_errd t \<or> (\<exists>m \<in> set ms. Type m = ''event'') then [] else [cleanExit]))"
proof
  from scan_shorter [OF assms(1,3)] obtain r where r: "scan_all t = Some r" using scan_all_total by blast
  with scan_all_deaf [OF r] assms(1,2) show "serve s = Some [] \<or> serve s = Some [cleanExit]"
    by (cases r) (auto simp: serve_def scan_all_more)
  show "\<forall>ms. carries (s_dec t) (map agent_json ms) \<longrightarrow>
        serve s = Some (if s_errd t \<or> (\<exists>m \<in> set ms. Type m = ''event'') then [] else [cleanExit])"
    using scan_all_carries [of t] assms(1,2) by (fastforce simp: serve_def scan_all_more)
qed

definition broken_stream :: stream where
  "broken_stream = \<lparr>unread = ''{?}'' @ [CHR 0x0A] @ concat (map (\<lambda>m. line_of (agent_json m)) wire_sample),
     failing = None, buffered = (\<lambda>_. 4)\<rparr>"

theorem server_deaf_after_error_witness:
  "serve (newServer broken_stream) = Some []"
proof -
  let ?t = "snd (scan (newServer broken_stream))"
  have "s_err ?t \<noteq> None \<and> fst (scan (newServer broken_stream)) \<and> failing (s_dec (newServer broken_stream)) = None
      \<and> failing (s_dec ?t) = None \<and> unread (s_dec ?t) = concat (map line_of (map agent_json wire_sample))"
    by code_simp
  then have t: "scan (newServer broken_stream) = (True, ?t)" "s_err ?t \<noteq> None"
      "failing (s_dec (newServer broken_stream)) = None" and c: "carries (s_dec ?t) (map agent_json wire_sample)"
    by (auto simp: prod_eq_iff carries_def) (auto simp: wire_sample_def wf_agent_def)
  from conjunct2 [OF server_deaf_after_error [OF t], rule_format, OF c] show ?thesis
    by (simp add: wire_sample_def)
qed

section \<open>Properties of the data point server\<close>

lemma dp_serve_end: "dp_scan s = (False, t) \<Longrightarrow> dp_serve s = Some []"
  by (subst dp_serve.simps) simp

lemma dp_serve_more:
  "dp_scan s = (True, t) \<Longrightarrow> dp_serve s = map_option ((@) (if d_err t = None then [d_msg t] else [])) (dp_serve t)"
  by (subst dp_serve.simps) (auto simp: map_option_case split: option.splits)

text \<open>Every line of the data point stream becomes one message of type \<open>datapoint\<close> that
carries the value of the line; once a line was malformed, none does.\<close>

theorem data_points_sent:
  assumes "carries (d_dec s) vs"
  shows "dp_serve s = Some (if d_err s = None then map (\<lambda>v. \<lparr>Type = ''datapoint'', Data = Some v\<rparr>) vs else [])"
  using assms
proof (induction vs arbitrary: s)
  case Nil
  then obtain d where "Decode (d_dec s) = (EndOfStream, d)" using Decode_carries_Nil by auto
  then show ?case by (simp add: dp_scan_def dp_serve_end)
next
  case (Cons v vs)
  from Decode_carries_Cons [OF Cons.prems] obtain d where
    d: "Decode (d_dec s) = (Value v, d)" "carries d vs" by auto
  define t where "t = s\<lparr>d_msg := \<lparr>Type = ''datapoint'', Data = Some v\<rparr>, d_dec := d\<rparr>"
  have t: "dp_scan s = (True, t)" by (simp add: dp_scan_def d(1) t_def)
  with Cons.IH [of t] d(2) show ?case by (simp add: dp_serve_more t_def)
qed

theorem data_points_sent_witness:
  "dp_serve (newDataPointServer \<lparr>unread = line_of (JNum ''1'') @ line_of (JBool True), failing = None, buffered = (\<lambda>_. 512)\<rparr>)
    = Some [\<lparr>Type = ''datapoint'', Data = Some (JNum ''1'')\<rparr>, \<lparr>Type = ''datapoint'', Data = Some (JBool True)\<rparr>]"
proof -
  have "wf_json (JNum ''1'')" by code_simp
  then show ?thesis
    using data_points_sent [of "newDataPointServer \<lparr>unread = line_of (JNum ''1'') @ line_of (JBool True), failing = None, buffered = (\<lambda>_. 512)\<rparr>" "[JNum ''1'', JBool True]"]
    by (simp add: newDataPointServer_def carries_def)
qed

section \<open>The requester\<close>

text \<open>
  \<open>PeriodicRequester.run\<close>. A ticker delivers its ticks into a channel that holds one;
  stopping it does not empty the channel. The configuration is a number of seconds.
\<close>

record requester =
  period :: "int option"
  tick_waits :: bool
  prevErr :: bool
  emitted :: nat
  r_out :: "Message list"
  r_stopped :: bool
  r_panicked :: bool

definition NewPeriodicRequester :: requester where
  "NewPeriodicRequester = \<lparr>period = Some 1000000000, tick_waits = False, prevErr = False, emitted = 0, r_out = [],
     r_stopped = False, r_panicked = False\<rparr>"

text \<open>The ticker ticks, or a case of the \<open>select\<close>: \<open>done\<close> is closed, a tick is received (and the
write succeeds, or fails with an error), a configuration arrives.\<close>

datatype req_event = Ticks | OnDone | OnTick "string option" | OnConf int

definition write_fails :: "string \<Rightarrow> requester \<Rightarrow> requester" where
  "write_fails e r =
     (if prevErr r then r\<lparr>r_out := r_out r @ [empty_message\<lparr>Error := e, Topic := Log\<rparr>], r_stopped := True\<rparr>
      else r\<lparr>prevErr := True\<rparr>)"

text \<open>\<open>NewTicker\<close> panics on a duration that is not positive, also on one that has overflowed.\<close>

definition on_conf :: "int \<Rightarrow> requester \<Rightarrow> requester" where
  "on_conf dur r =
     (if dur > 0 then
        (let d = swrap 64 (dur * 1000000000) in
         if d \<le> 0 then r\<lparr>period := None, r_stopped := True, r_panicked := True\<rparr>
         else r\<lparr>period := Some d, tick_waits := False\<rparr>)
      else r\<lparr>period := None\<rparr>)"

fun req_step :: "requester \<Rightarrow> req_event \<Rightarrow> requester option" where
  "req_step r Ticks = (if period r \<noteq> None \<and> \<not> r_stopped r then Some (r\<lparr>tick_waits := True\<rparr>) else None)"
| "req_step r OnDone = (if r_stopped r then None else Some (r\<lparr>r_stopped := True\<rparr>))"
| "req_step r (OnTick res) =
     (if r_stopped r \<or> \<not> tick_waits r then None
      else (let r' = r\<lparr>tick_waits := False\<rparr> in
            case res of None \<Rightarrow> Some (r'\<lparr>emitted := Suc (emitted r')\<rparr>) | Some e \<Rightarrow> Some (write_fails e r')))"
| "req_step r (OnConf dur) = (if r_stopped r then None else Some (on_conf dur r))"

text \<open>The write errors of a run, and its successful writes.\<close>

fun failures :: "req_event list \<Rightarrow> string list" where
  "failures [] = []"
| "failures (OnTick (Some e) # es) = e # failures es"
| "failures (_ # es) = failures es"

fun successes :: "req_event list \<Rightarrow> nat" where
  "successes [] = 0"
| "successes (OnTick None # es) = Suc (successes es)"
| "successes (_ # es) = successes es"

definition lost_connection :: "string \<Rightarrow> Message" where
  "lost_connection e = empty_message\<lparr>Error := e, Topic := Log\<rparr>"

text \<open>How many more errors end the run.\<close>

definition patience :: "requester \<Rightarrow> nat" where
  "patience r = (if r_stopped r then 0 else if prevErr r then 1 else 2)"

definition req_rel :: "requester \<Rightarrow> req_event list \<Rightarrow> requester \<Rightarrow> bool" where
  "req_rel r es r' \<longleftrightarrow>
     length (failures es) \<le> patience r
     \<and> (es \<noteq> [] \<longrightarrow> \<not> r_stopped r)
     \<and> r_out r' = r_out r @ map lost_connection (drop (patience r - 1) (failures es))
     \<and> emitted r' = emitted r + successes es
     \<and> (length (failures es) = patience r \<longrightarrow> r_stopped r')"

lemma req_rel_step:
  assumes "req_step r e = Some r1" and "req_rel r1 es r'"
  shows "req_rel r (e # es) r'"
proof (cases e)
  case (OnTick res)
  show ?thesis
  proof (cases res)
    case None
    with OnTick assms show ?thesis by (auto simp: req_rel_def patience_def Let_def split: if_splits)
  next
    case (Some err)
    with OnTick assms show ?thesis
      by (auto simp: req_rel_def patience_def write_fails_def lost_connection_def Let_def split: if_splits)
  qed
qed (use assms in \<open>auto simp: req_rel_def patience_def on_conf_def Let_def split: if_splits\<close>)

interpretation requesting: step_history req_step req_rel
proof unfold_locales
  show "req_rel s [] s" for s by (simp add: req_rel_def patience_def)
qed (rule req_rel_step)

text \<open>C34: A requester survives one write error. The second one ends it, however many requests
were written in between, and it alone is reported, in one message on the \<open>logs\<close> topic; the
requests written are as many as the ticks that succeeded.\<close>

theorem requester_second_error:
  assumes "run req_step NewPeriodicRequester es = Some r"
  shows "length (failures es) \<le> 2
    \<and> r_out r = map lost_connection (drop 1 (failures es))
    \<and> (length (failures es) = 2 \<longrightarrow> r_stopped r)
    \<and> emitted r = successes es"
  using requesting.run_rel [OF assms]
  by (simp add: req_rel_def patience_def NewPeriodicRequester_def)

definition errors_not_in_a_row :: "req_event list" where
  "errors_not_in_a_row =
     [Ticks, OnTick (Some ''EPIPE''), Ticks, OnTick None, Ticks, OnTick None, Ticks, OnTick (Some ''EAGAIN'')]"

theorem requester_second_error_witness:
  "\<exists>r. run req_step NewPeriodicRequester errors_not_in_a_row = Some r
     \<and> r_out r = [lost_connection ''EAGAIN''] \<and> r_stopped r \<and> emitted r = 2"
proof -
  have "run req_step NewPeriodicRequester errors_not_in_a_row \<noteq> None" by code_simp
  then obtain r where r: "run req_step NewPeriodicRequester errors_not_in_a_row = Some r" by blast
  from requester_second_error [OF r] r show ?thesis by (simp add: errors_not_in_a_row_def)
qed

fun no_conf :: "req_event list \<Rightarrow> bool" where
  "no_conf [] = True"
| "no_conf (OnConf _ # _) = False"
| "no_conf (_ # es) = no_conf es"

definition mute_rel :: "requester \<Rightarrow> req_event list \<Rightarrow> requester \<Rightarrow> bool" where
  "mute_rel r es r' \<longleftrightarrow> (no_conf es \<longrightarrow> period r = None \<longrightarrow>
     period r' = None \<and> emitted r' \<le> emitted r + (if tick_waits r then 1 else 0))"

lemma mute_step: "req_step r e = Some r1 \<Longrightarrow> mute_rel r1 es r' \<Longrightarrow> mute_rel r (e # es) r'"
  by (cases e) (auto simp: mute_rel_def write_fails_def Let_def split: if_splits option.splits)

interpretation muting: step_history req_step mute_rel
proof unfold_locales
  show "mute_rel s [] s" for s by (simp add: mute_rel_def)
qed (rule mute_step)

text \<open>What a configuration does: a number of seconds from 1 to 9223372036 becomes the period; zero or a negative one
stops the requests, but for a tick that is already waiting, until another configuration arrives.\<close>

theorem requester_configured:
  assumes "\<not> r_stopped r"
  shows "(0 < dur \<and> dur \<le> 9223372036 \<longrightarrow>
      req_step r (OnConf dur) = Some (r\<lparr>period := Some (dur * 1000000000), tick_waits := False\<rparr>))
    \<and> (dur \<le> 0 \<longrightarrow> no_conf es \<longrightarrow> run req_step r (OnConf dur # es) = Some r' \<longrightarrow>
      emitted r' \<le> emitted r + 1)"
proof (intro conjI impI)
  assume "0 < dur \<and> dur \<le> 9223372036"
  then have "fits 64 (dur * 1000000000)" by (simp add: fits_def)
  with assms \<open>0 < dur \<and> _\<close> show "req_step r (OnConf dur) =
      Some (r\<lparr>period := Some (dur * 1000000000), tick_waits := False\<rparr>)"
    by (simp add: on_conf_def)
next
  assume "dur \<le> 0" "no_conf es" "run req_step r (OnConf dur # es) = Some r'"
  then have "run req_step (r\<lparr>period := None\<rparr>) es = Some r'" using assms by (simp add: on_conf_def)
  from muting.run_rel [OF this] \<open>no_conf es\<close> show "emitted r' \<le> emitted r + 1"
    by (simp add: mute_rel_def split: if_splits)
qed

theorem requester_configured_witness:
  "req_step NewPeriodicRequester (OnConf 60) =
     Some (NewPeriodicRequester\<lparr>period := Some 60000000000, tick_waits := False\<rparr>)"
  using requester_configured [of NewPeriodicRequester 60] by (simp add: NewPeriodicRequester_def)

end
