(* ===== verification/App.thy ===== *)
theory App
  imports Agent
begin

text \<open>
  Package \<open>app\<close>: the application that the client runs (\<open>app/exec.go\<close>) and the sockets
  it talks through (\<open>app/socketpair.go\<close>). The operating system is the argument \<open>os\<close>; the
  hash function is \<open>sha\<close>. A result \<open>None\<close> of the operations that can panic is a panic.
\<close>

section \<open>State\<close>

record os_file =
  fd :: int
  file_name :: string

record cmd =
  cmd_Path :: string
  cmd_Args :: "string list"
  ExtraFiles :: "os_file list"

record Exec =
  hash :: string
  exec_cmd :: cmd
  datapoints :: "os_file option"
  agentData :: "os_file option"
  agentVersion :: string
  decoder :: "stream option"

datatype wait_status = Exited int | Signaled string

text \<open>
  The calls of the operating system: a pair of connected sockets, starting a process, closing a file, what
  a decoder on a file will read, reading a whole file, and the state of the process after \<open>Wait\<close>
  (none if it was never started).
\<close>

record 'w Os =
  Socketpair :: "'w \<Rightarrow> (string + int \<times> int) \<times> 'w"
  StartProcess :: "cmd \<Rightarrow> 'w \<Rightarrow> string option \<times> 'w"
  CloseFile :: "os_file \<Rightarrow> 'w \<Rightarrow> 'w"
  ReadFrom :: "os_file \<Rightarrow> 'w \<Rightarrow> stream"
  ReadFile :: "string \<Rightarrow> 'w \<Rightarrow> string + bytes"
  WaitProcess :: "'w \<Rightarrow> wait_status option \<times> 'w"

text \<open>
  \<open>exec.Command\<close> resolves a name without a slash by \<open>look\<close>, the search in \<open>PATH\<close>; if that fails the name stays,
  and the start will fail.
\<close>

definition NewExec :: "(string \<Rightarrow> string option) \<Rightarrow> string \<Rightarrow> string list \<Rightarrow> Exec" where
  "NewExec look name args =
     \<lparr>hash = [],
      exec_cmd = \<lparr>cmd_Path = (if name = [] \<or> CHR ''/'' \<in> set name then name
        else case look name of None \<Rightarrow> name | Some p \<Rightarrow> p), cmd_Args = name # args, ExtraFiles = []\<rparr>, datapoints = None,
      agentData = None, agentVersion = [], decoder = None\<rparr>"

section \<open>Sockets\<close>

datatype app_error = ErrOs string | ErrInvalidFD | ErrEncoding | ErrEOF | ErrNoVersion

text \<open>\<open>os.NewFile\<close> yields nil for a negative descriptor.\<close>

definition NewFile :: "int \<Rightarrow> string \<Rightarrow> os_file option" where
  "NewFile n name = (if n < 0 then None else Some \<lparr>fd = n, file_name = name\<rparr>)"

definition socketpair :: "'w Os \<Rightarrow> string \<Rightarrow> 'w \<Rightarrow> (app_error + os_file \<times> os_file) \<times> 'w" where
  "socketpair os pre w =
     (case Socketpair os w of
        (Inl err, w') \<Rightarrow> (Inl (ErrOs err), w')
      | (Inr (a, b), w') \<Rightarrow>
          (case (NewFile a (pre @ ''-local''), NewFile b (pre @ ''-remote'')) of
             (Some l, Some r) \<Rightarrow> (Inr (l, r), w')
           | _ \<Rightarrow> (Inl ErrInvalidFD, w')))"

definition addSockets :: "'w Os \<Rightarrow> Exec \<Rightarrow> 'w \<Rightarrow> app_error option \<times> Exec \<times> 'w" where
  "addSockets os e w =
     (case socketpair os ''datapoints'' w of
        (Inl err, w1) \<Rightarrow> (Some err, e, w1)
      | (Inr (dl, dr), w1) \<Rightarrow>
          (case socketpair os ''agentData'' w1 of
             (Inl err, w2) \<Rightarrow> (Some err, e, w2)
           | (Inr (al, ar), w2) \<Rightarrow>
               (None, e\<lparr>exec_cmd := (exec_cmd e)\<lparr>ExtraFiles := ExtraFiles (exec_cmd e) @ [dr, ar]\<rparr>,
                  datapoints := Some dl, agentData := Some al\<rparr>, w2)))"

section \<open>Starting\<close>

text \<open>The deferred calls close the files last to first, whether the start succeeds or not.\<close>

definition Start :: "'w Os \<Rightarrow> Exec \<Rightarrow> 'w \<Rightarrow> app_error option \<times> Exec \<times> 'w" where
  "Start os e w =
     (case StartProcess os (exec_cmd e) w of
        (err, w') \<Rightarrow> (map_option ErrOs err, e, foldr (CloseFile os) (ExtraFiles (exec_cmd e)) w'))"

definition version_field :: "string \<Rightarrow> json \<Rightarrow> string \<Rightarrow> string \<times> bool" where
  "version_field k v s = (if same_key k ''version'' then assign_string (\<lambda>t _. t) v s else (s, False))"

definition getAgentVersion :: "'w Os \<Rightarrow> Exec \<Rightarrow> 'w \<Rightarrow> (app_error option \<times> Exec \<times> 'w) go" where
  "getAgentVersion os e w =
     (case agentData e of
        None \<Rightarrow> Panics
      | Some f \<Rightarrow> Returns
          (case Decode (ReadFrom os f w) of
             (EndOfStream, _) \<Rightarrow> (Some ErrEOF, e, w)
           | (Bad _, _) \<Rightarrow> (Some ErrEncoding, e, w)
           | (Value v, dec) \<Rightarrow>
               (case decode_struct version_field v [] of
                  (_, Some _) \<Rightarrow> (Some ErrEncoding, e, w)
                | (version, None) \<Rightarrow>
                    if version = [] then (Some ErrNoVersion, e, w)
                    else (None, e\<lparr>agentVersion := version, decoder := Some dec\<rparr>, w))))"

fun run_until_error ::
  "(Exec \<Rightarrow> 'w \<Rightarrow> (app_error option \<times> Exec \<times> 'w) go) list \<Rightarrow> Exec \<Rightarrow> 'w \<Rightarrow> (app_error option \<times> Exec \<times> 'w) go"
where
  "run_until_error [] e w = Returns (None, e, w)"
| "run_until_error (fn # fns) e w =
     (case fn e w of
        Panics \<Rightarrow> Panics
      | Returns (Some err, e', w') \<Rightarrow> Returns (Some err, e', w')
      | Returns (None, e', w') \<Rightarrow> run_until_error fns e' w')"

definition Connect :: "'w Os \<Rightarrow> Exec \<Rightarrow> 'w \<Rightarrow> (app_error option \<times> Exec \<times> 'w) go" where
  "Connect os =
     run_until_error [\<lambda>e w. Returns (addSockets os e w), \<lambda>e w. Returns (Start os e w), getAgentVersion os]"

definition Wait :: "'w Os \<Rightarrow> 'w \<Rightarrow> 'w" where
  "Wait os w = snd (WaitProcess os w)"

definition Run :: "'w Os \<Rightarrow> Exec \<Rightarrow> 'w \<Rightarrow> app_error option \<times> Exec \<times> 'w" where
  "Run os e w =
     (case Start os e w of
        (Some err, e', w') \<Rightarrow> (Some err, e', w')
      | (None, e', w') \<Rightarrow> (None, e', Wait os w'))"

section \<open>What is known of the application\<close>

definition CheckSum_of :: "'w Os \<Rightarrow> (bytes \<Rightarrow> string) \<Rightarrow> Exec \<Rightarrow> 'w \<Rightarrow> string \<times> Exec" where
  "CheckSum_of os sha e w =
     (if hash e = [] then
        (case ReadFile os (cmd_Path (exec_cmd e)) w of
           Inl _ \<Rightarrow> ([], e)
         | Inr b \<Rightarrow> (sha b, e\<lparr>hash := sha b\<rparr>))
      else (hash e, e))"

definition ExitStatus :: "'w Os \<Rightarrow> 'w \<Rightarrow> (int \<times> 'w) option" where
  "ExitStatus os w =
     (case WaitProcess os w of
        (None, _) \<Rightarrow> None
      | (Some (Exited n), w') \<Rightarrow> Some (n, w')
      | (Some (Signaled _), w') \<Rightarrow> Some (- 1, w'))"

definition exec_Signal :: "'w Os \<Rightarrow> 'w \<Rightarrow> (string \<times> 'w) option" where
  "exec_Signal os w =
     (case WaitProcess os w of
        (None, _) \<Rightarrow> None
      | (Some (Exited _), w') \<Rightarrow> Some ([], w')
      | (Some (Signaled s), w') \<Rightarrow> Some (s, w'))"

definition String_of :: "Exec \<Rightarrow> string" where
  "String_of e = cmd_Path (exec_cmd e) @ '' '' @ agentVersion e"

text \<open>The descriptor that entry \<open>i\<close> of \<open>ExtraFiles\<close> gets in the child process.\<close>

definition child_fd :: "nat \<Rightarrow> nat" where
  "child_fd i = 3 + i"

section \<open>Facts\<close>

lemma addSockets_None:
  assumes "addSockets os e w = (None, e', w')"
  obtains dl dr al ar where "e' = e\<lparr>exec_cmd := (exec_cmd e)\<lparr>ExtraFiles := ExtraFiles (exec_cmd e) @ [dr, ar]\<rparr>,
    datapoints := Some dl, agentData := Some al\<rparr>"
    "file_name dr = ''datapoints-remote''" "file_name ar = ''agentData-remote''"
    "file_name dl = ''datapoints-local''" "file_name al = ''agentData-local''"
  using assms
  by (auto simp: addSockets_def socketpair_def NewFile_def split: prod.splits sum.splits option.splits if_splits)

lemma Start_exec: "Start os e w = (err, e', w') \<Longrightarrow> e' = e"
  by (auto simp: Start_def split: prod.splits)

lemma getAgentVersion_None:
  assumes "getAgentVersion os e w = Returns (None, e', w')"
  obtains v dec where "v \<noteq> []" "e' = e\<lparr>agentVersion := v, decoder := Some dec\<rparr>" "w' = w"
  using assms
  by (auto simp: getAgentVersion_def split: option.splits prod.splits decoded.splits if_splits)

text \<open>The three steps of a connection that succeeds.\<close>

lemma Connect_steps:
  assumes "Connect os e w = Returns (None, e', w')"
  obtains e1 w1 w2 where "addSockets os e w = (None, e1, w1)" "Start os e1 w1 = (None, e1, w2)"
    "getAgentVersion os e1 w2 = Returns (None, e', w')"
proof -
  obtain err1 e1 w1 where s1: "addSockets os e w = (err1, e1, w1)" by (cases "addSockets os e w") auto
  obtain err2 e2 w2 where s2: "Start os e1 w1 = (err2, e2, w2)" by (cases "Start os e1 w1") auto
  from s2 have e2: "e2 = e1" by (rule Start_exec)
  from assms s1 s2 have "err1 = None" "err2 = None" "getAgentVersion os e1 w2 = Returns (None, e', w')"
    by (auto simp: Connect_def e2 split: option.splits go.splits prod.splits)
  with s1 s2 e2 that show ?thesis by blast
qed

section \<open>Properties\<close>

text \<open>C22: When \<open>Connect\<close> succeeds on a fresh executable, the process was started with exactly two
extra files, the remote ends of the data point and the agent sockets, which are descriptors 3 and 4
in the child; the client's copies of them were closed after the start; and the agent's version is
known.\<close>

theorem Connect_established:
  assumes "Connect os (NewExec look name args) w = Returns (None, e, w')"
  shows "\<exists>w1 w2 dr ar. ExtraFiles (exec_cmd e) = [dr, ar]
    \<and> [child_fd 0, child_fd 1] = [3, 4] \<and> map file_name [dr, ar] = [''datapoints-remote'', ''agentData-remote'']
    \<and> StartProcess os (exec_cmd e) w1 = (None, w2) \<and> w' = CloseFile os dr (CloseFile os ar w2)
    \<and> agentVersion e \<noteq> [] \<and> decoder e \<noteq> None \<and> datapoints e \<noteq> None \<and> agentData e \<noteq> None"
proof -
  let ?n = "NewExec look name args"
  obtain e1 w1 w2 where s: "addSockets os ?n w = (None, e1, w1)" "Start os e1 w1 = (None, e1, w2)"
    "getAgentVersion os e1 w2 = Returns (None, e, w')"
    using assms by (rule Connect_steps)
  from s(1) obtain dl dr al ar where e1: "e1 = ?n\<lparr>exec_cmd := (exec_cmd ?n)\<lparr>ExtraFiles := [dr, ar]\<rparr>,
    datapoints := Some dl, agentData := Some al\<rparr>"
    "file_name dr = ''datapoints-remote''" "file_name ar = ''agentData-remote''"
    by (rule addSockets_None) (auto simp: NewExec_def)
  from s(3) obtain v dec where e: "v \<noteq> []" "e = e1\<lparr>agentVersion := v, decoder := Some dec\<rparr>" "w' = w2"
    by (rule getAgentVersion_None) auto
  obtain u where u: "StartProcess os (exec_cmd e1) w1 = (None, u)" "w2 = CloseFile os dr (CloseFile os ar u)"
    using s(2) e1(1) by (auto simp: Start_def NewExec_def split: prod.splits)
  show ?thesis
    by (rule exI [of _ w1], rule exI [of _ u], rule exI [of _ dr], rule exI [of _ ar])
      (use e u e1 in \<open>auto simp: child_fd_def\<close>)
qed

text \<open>An operating system for the witnesses: it counts descriptors, starts anything and has one stream to read.\<close>

definition sample_os :: "stream \<Rightarrow> int Os" where
  "sample_os s =
     \<lparr>Socketpair = (\<lambda>n. (Inr (n, n + 1), n + 2)), StartProcess = (\<lambda>_ n. (None, n)), CloseFile = (\<lambda>_ n. n),
      ReadFrom = (\<lambda>_ _. s), ReadFile = (\<lambda>_ _. Inr ''ELF''), WaitProcess = (\<lambda>n. (Some (Exited 0), n))\<rparr>"

definition version_json :: "string \<Rightarrow> json" where
  "version_json v = JObj [(''version'', JStr v)]"

definition agent_stream :: "string \<Rightarrow> agent_Message list \<Rightarrow> (string \<Rightarrow> nat) \<Rightarrow> stream" where
  "agent_stream v ms k =
     \<lparr>unread = line_of (version_json v) @ concat (map (\<lambda>m. line_of (agent_json m)) ms), failing = None, buffered = k\<rparr>"

lemma carries_agent_stream:
  "\<forall>m \<in> set ms. wf_agent m \<Longrightarrow> carries (agent_stream v ms k) (version_json v # map agent_json ms)"
  by (simp add: carries_def agent_stream_def version_json_def comp_def)

text \<open>The decoder that has read the version carries the rest of the stream to the server.\<close>

lemma handshake:
  assumes "agentData e = Some f" and "ReadFrom os f w = agent_stream v ms k"
    and "v \<noteq> []" and "\<forall>m \<in> set ms. wf_agent m"
  shows "\<exists>dec. getAgentVersion os e w = Returns (None, e\<lparr>agentVersion := v, decoder := Some dec\<rparr>, w)
    \<and> serve (newServer dec) = Some (ms @ (if \<exists>m \<in> set ms. Type m = ''event'' then [] else [cleanExit]))"
proof -
  from Decode_carries_Cons [OF carries_agent_stream [OF assms(4)]] obtain dec where
    dec: "Decode (agent_stream v ms k) = (Value (version_json v), dec)" "carries dec (map agent_json ms)" by blast
  have "decode_struct version_field (version_json v) [] = (v, None)"
    by (simp add: version_json_def decode_struct_def assign_struct_def version_field_def assign_string_def)
  with assms(1-3) dec(1) have "getAgentVersion os e w = Returns (None, e\<lparr>agentVersion := v, decoder := Some dec\<rparr>, w)"
    by (simp add: getAgentVersion_def)
  moreover have "carries (s_dec (newServer dec)) (map agent_json ms)" using dec(2) by (simp add: newServer_def)
  from scan_all_carries [OF this] have
    "serve (newServer dec) = Some (ms @ (if \<exists>m \<in> set ms. Type m = ''event'' then [] else [cleanExit]))"
    by (auto simp: serve_def newServer_def)
  ultimately show ?thesis by blast
qed

text \<open>C32: Nothing is lost between the handshake and the server: from an agent that first states its version and then
sends messages, the handshake reads the version, and the server that takes over its decoder sends all of
the messages.\<close>

theorem handshake_loses_nothing:
  assumes "agentData e = Some f" and "ReadFrom os f w = agent_stream v ms k"
    and "v \<noteq> []" and "\<forall>m \<in> set ms. wf_agent m"
  shows "\<exists>dec. getAgentVersion os e w = Returns (None, e\<lparr>agentVersion := v, decoder := Some dec\<rparr>, w)
    \<and> serve (newServer dec) = Some (ms @ (if \<exists>m \<in> set ms. Type m = ''event'' then [] else [cleanExit]))"
  using assms by (rule handshake)

lemma wf_wire_sample: "\<forall>m \<in> set wire_sample. wf_agent m"
  by (simp add: wire_sample_def wf_agent_def)

theorem handshake_loses_nothing_witness:
  "\<exists>dec. getAgentVersion (sample_os (agent_stream ''1.0'' wire_sample (\<lambda>_. 512)))
       ((NewExec (\<lambda>_. None) ''app'' [])\<lparr>agentData := Some \<lparr>fd = 5, file_name = ''agentData-local''\<rparr>\<rparr>) 7 =
     Returns (None, (NewExec (\<lambda>_. None) ''app'' [])\<lparr>agentData := Some \<lparr>fd = 5, file_name = ''agentData-local''\<rparr>,
       agentVersion := ''1.0'', decoder := Some dec\<rparr>, 7)
     \<and> serve (newServer dec) = Some wire_sample"
  using handshake_loses_nothing [of "(NewExec (\<lambda>_. None) ''app'' [])\<lparr>agentData := Some \<lparr>fd = 5, file_name = ''agentData-local''\<rparr>\<rparr>"
      "\<lparr>fd = 5, file_name = ''agentData-local''\<rparr>" "sample_os (agent_stream ''1.0'' wire_sample (\<lambda>_. 512))" 7 "''1.0''" wire_sample "\<lambda>_. 512"]
    wf_wire_sample
  by (simp add: sample_os_def) (simp add: wire_sample_def)

theorem Connect_established_witness:
  "\<exists>e w'. Connect (sample_os (agent_stream ''1.0'' wire_sample (\<lambda>_. 512))) (NewExec (\<lambda>_. None) ''app'' []) 5 = Returns (None, e, w')
     \<and> map file_name (ExtraFiles (exec_cmd e)) = [''datapoints-remote'', ''agentData-remote'']"
proof -
  let ?os = "sample_os (agent_stream ''1.0'' wire_sample (\<lambda>_. 512))"
  from Decode_carries_Cons [OF carries_agent_stream [OF wf_wire_sample]] obtain dec where
    "Decode (agent_stream ''1.0'' wire_sample (\<lambda>_. 512)) = (Value (version_json ''1.0''), dec)" by blast
  then have "\<exists>e w'. Connect ?os (NewExec (\<lambda>_. None) ''app'' []) 5 = Returns (None, e, w')"
    by (simp add: Connect_def addSockets_def socketpair_def sample_os_def NewFile_def NewExec_def Start_def
        getAgentVersion_def decode_struct_def version_json_def assign_struct_def version_field_def assign_string_def)
  then obtain e w' where c: "Connect ?os (NewExec (\<lambda>_. None) ''app'' []) 5 = Returns (None, e, w')" by blast
  from Connect_established [OF c] c show ?thesis by auto
qed

text \<open>The checksum is that of the file as it was when it was first read; a file that cannot be read
gives the empty string, and is tried again.\<close>

theorem checksum_cached:
  "CheckSum_of os sha e w = (c, e') \<Longrightarrow> c \<noteq> [] \<Longrightarrow>
   CheckSum_of os' sha e' w2 = (c, e') \<and> (hash e = [] \<longrightarrow> (\<exists>b. ReadFile os (cmd_Path (exec_cmd e)) w = Inr b \<and> c = sha b))"
  by (auto simp: CheckSum_of_def split: if_splits sum.splits)

end
