(* ===== verification/Device.thy ===== *)
theory Device
  imports Prelude "HOL-Library.Word"
begin

text \<open>
  Package \<open>device\<close> (\<open>device/device.go\<close>): the hash of the hardware addresses and the
  monitor of network rates. What the system reports (interfaces, counters, percentages) is input;
  \<open>None\<close> as a result is a panic.
\<close>

section \<open>The public address\<close>

text \<open>The service's answer comes with an error or not; the address is used either way.\<close>

definition CurrentIP :: "string \<times> string option \<Rightarrow> string" where
  "CurrentIP answer = (case answer of (ip, err) \<Rightarrow> ip)"

section \<open>The hash of the interfaces\<close>

text \<open>\<open>sum[h] += k\<close> for the bytes of one address; six bytes are allocated.\<close>

fun add_addr :: "nat \<Rightarrow> 8 word list \<Rightarrow> 8 word list \<Rightarrow> 8 word list option" where
  "add_addr h [] tot = Some tot"
| "add_addr h (k # ks) tot = (if h < length tot then add_addr (Suc h) ks (tot[h := tot ! h + k]) else None)"

fun add_addrs :: "8 word list list \<Rightarrow> 8 word list \<Rightarrow> 8 word list option" where
  "add_addrs [] tot = Some tot"
| "add_addrs (a # as) tot =
     (if a = [] then add_addrs as tot
      else case add_addr 0 a tot of None \<Rightarrow> None | Some tot' \<Rightarrow> add_addrs as tot')"

definition nibble :: "nat \<Rightarrow> char" where
  "nibble n = char_of (if n < 10 then 48 + n else 87 + n)"

definition hex_byte :: "8 word \<Rightarrow> string" where
  "hex_byte b = [nibble (unat b div 16), nibble (unat b mod 16)]"

definition IfaceHash :: "8 word list list \<Rightarrow> string option" where
  "IfaceHash interfaces = map_option (\<lambda>tot. concat (map hex_byte tot)) (add_addrs interfaces (replicate 6 0))"

section \<open>Network rates\<close>

record rates =
  In :: "64 word"
  Out :: "64 word"

definition diff :: "rates \<Rightarrow> rates \<Rightarrow> rates" where
  "diff cur prev = \<lparr>In = In cur - In prev, Out = Out cur - Out prev\<rparr>"

definition no_rates :: rates where
  "no_rates = \<lparr>In = 0, Out = 0\<rparr>"

record Monitor =
  prev_rates :: rates
  cur_rates :: rates
  mon_done :: bool

text \<open>The answer of \<open>net.IOCounters\<close>: an error, or the received and sent bytes per interface.\<close>

type_synonym io_counters = "string + (64 word \<times> 64 word) list"

definition update :: "io_counters \<Rightarrow> Monitor \<Rightarrow> Monitor" where
  "update stats m =
     (case stats of
        Inl _ \<Rightarrow> m
      | Inr xs \<Rightarrow>
          (if length xs = 1 then
             m\<lparr>prev_rates := cur_rates m, cur_rates := \<lparr>In = fst (xs ! 0), Out = snd (xs ! 0)\<rparr>\<rparr>
           else m))"

definition NewMonitor :: "io_counters \<Rightarrow> Monitor" where
  "NewMonitor stats = update stats \<lparr>prev_rates = no_rates, cur_rates = no_rates, mon_done = False\<rparr>"

text \<open>The cases of the \<open>select\<close>. \<open>AskRates\<close> is a receive from \<open>ioRates\<close>; once the channel is
closed it yields the zero value.\<close>

datatype mon_event = CloseDone | Tick io_counters | AskRates

definition mon_step :: "Monitor \<Rightarrow> mon_event \<Rightarrow> Monitor \<times> rates option" where
  "mon_step m ev =
     (case ev of
        CloseDone \<Rightarrow> (m\<lparr>mon_done := True\<rparr>, None)
      | Tick stats \<Rightarrow> (if mon_done m then m else update stats m, None)
      | AskRates \<Rightarrow> (m, Some (if mon_done m then no_rates else diff (cur_rates m) (prev_rates m))))"

fun mon_run :: "Monitor \<Rightarrow> mon_event list \<Rightarrow> rates list" where
  "mon_run m [] = []"
| "mon_run m (ev # evs) =
     (case mon_step m ev of (m', r) \<Rightarrow> (case r of None \<Rightarrow> [] | Some x \<Rightarrow> [x]) @ mon_run m' evs)"

text \<open>A float is its literal, or a value that JSON cannot express.\<close>

datatype float64 = Finite string | NotFinite

record Metrics =
  CPUPercent :: float64
  MemPercent :: float64
  net_rates :: rates

text \<open>\<open>GetMetrics\<close> indexes the percentages and dereferences the memory statistics without looking at
the errors of the two calls: a call that failed yields an empty slice, or nil.\<close>

definition GetMetrics :: "float64 list \<Rightarrow> float64 option \<Rightarrow> rates \<Rightarrow> Metrics option" where
  "GetMetrics cpu mem r =
     (case (cpu, mem) of
        (c # _, Some p) \<Rightarrow> Some \<lparr>CPUPercent = c, MemPercent = p, net_rates = r\<rparr>
      | _ \<Rightarrow> None)"

section \<open>Facts\<close>

text \<open>One address is added column by column.\<close>

definition column :: "nat \<Rightarrow> 8 word list \<Rightarrow> 8 word" where
  "column i a = (if i < length a then a ! i else 0)"

lemma add_addr_Some:
  "add_addr h a tot = Some s \<longleftrightarrow>
   (a = [] \<or> h + length a \<le> length tot) \<and>
   s = map (\<lambda>i. tot ! i + (if h \<le> i then column (i - h) a else 0)) [0..<length tot]"
proof (induction a arbitrary: h tot)
  case Nil
  have "map (\<lambda>i. tot ! i + (if h \<le> i then column (i - h) [] else 0)) [0..<length tot] = tot"
    by (intro nth_equalityI) (auto simp: column_def)
  then show ?case by (simp only: add_addr.simps option.inject) blast
next
  case (Cons k ks)
  show ?case
  proof (cases "h < length tot")
    case True
    have "map (\<lambda>i. (tot[h := tot ! h + k]) ! i + (if Suc h \<le> i then column (i - Suc h) ks else 0)) [0..<length tot]
        = map (\<lambda>i. tot ! i + (if h \<le> i then column (i - h) (k # ks) else 0)) [0..<length tot]"
    proof (intro map_cong refl)
      fix i assume i: "i \<in> set [0..<length tot]"
      consider "i < h" | "i = h" | j where "i = Suc (h + j)" by (metis less_imp_Suc_add linorder_neqE_nat)
      then show "(tot[h := tot ! h + k]) ! i + (if Suc h \<le> i then column (i - Suc h) ks else 0)
          = tot ! i + (if h \<le> i then column (i - h) (k # ks) else 0)"
        using i by cases (auto simp: column_def nth_list_update)
    qed
    with True Cons.IH [of "Suc h" "tot[h := tot ! h + k]"] show ?thesis by auto
  next
    case False
    then show ?thesis by simp
  qed
qed

lemma add_addrs_Some:
  "add_addrs as tot = Some s \<longleftrightarrow>
   (\<forall>a \<in> set as. length a \<le> length tot) \<and>
   s = map (\<lambda>i. tot ! i + (\<Sum>a\<leftarrow>as. column i a)) [0..<length tot]"
proof (induction as arbitrary: tot)
  case Nil
  have "map (\<lambda>i. tot ! i + (\<Sum>a\<leftarrow>[]. column i a)) [0..<length tot] = tot" by (simp add: map_nth)
  then show ?case by (simp only: add_addrs.simps option.inject) auto
next
  case (Cons a as)
  show ?case
  proof (cases "a = [] \<or> length a \<le> length tot")
    case True
    let ?s = "map (\<lambda>i. tot ! i + column i a) [0..<length tot]"
    have s: "add_addr 0 a tot = Some ?s"
      using True by (auto simp: add_addr_Some)
    have nil: "a = [] \<Longrightarrow> ?s = tot" by (intro nth_equalityI) (simp_all add: column_def)
    have "add_addrs (a # as) tot = add_addrs as ?s" using s nil by auto
    with True Cons.IH [of ?s] show ?thesis by (auto simp: add.assoc)
  next
    case False
    then have "add_addr 0 a tot = None" using add_addr_Some [of 0 a tot] by (cases "add_addr 0 a tot") auto
    with False show ?thesis by auto
  qed
qed

section \<open>Properties\<close>

text \<open>The hash adds up the addresses byte by byte, modulo 256: it does not depend on the order in which the
system lists the interfaces, and has twelve hexadecimal digits. An address of more than six bytes, as
InfiniBand and FireWire interfaces have, is out of the bounds of the sum, and the client panics.\<close>

theorem IfaceHash_sum:
  "IfaceHash interfaces =
     (if \<forall>a \<in> set interfaces. length a \<le> 6
      then Some (concat (map (\<lambda>i. hex_byte (\<Sum>a\<leftarrow>interfaces. column i a)) [0..<6])) else None)
   \<and> (mset interfaces' = mset interfaces \<longrightarrow> IfaceHash interfaces' = IfaceHash interfaces)"
proof -
  have hash: "IfaceHash is =
     (if \<forall>a \<in> set is. length a \<le> 6
      then Some (concat (map (\<lambda>i. hex_byte (\<Sum>a\<leftarrow>is. column i a)) [0..<6])) else None)" for "is"
  proof (cases "\<forall>a \<in> set is. length a \<le> 6")
    case True
    then have "add_addrs is (replicate 6 0) = Some (map (\<lambda>i. \<Sum>a\<leftarrow>is. column i a) [0..<6])"
      by (simp add: add_addrs_Some cong: map_cong)
    with True show ?thesis by (simp add: IfaceHash_def comp_def)
  next
    case False
    then have "add_addrs is (replicate 6 0) = None"
      using add_addrs_Some [of "is" "replicate 6 0"] by (cases "add_addrs is (replicate 6 0)") auto
    with False show ?thesis by (auto simp: IfaceHash_def)
  qed
  moreover have "IfaceHash interfaces' = IfaceHash interfaces" if eq: "mset interfaces' = mset interfaces"
  proof -
    have "(\<Sum>a\<leftarrow>interfaces'. column i a) = (\<Sum>a\<leftarrow>interfaces. column i a)" for i
      using eq by (metis mset_map sum_mset_sum_list)
    with mset_eq_setD [OF eq] show ?thesis unfolding hash by simp
  qed
  ultimately show ?thesis by blast
qed

theorem IfaceHash_sum_witness:
  "IfaceHash [[1, 2, 3, 4, 5, 6], [], [255, 0, 0, 0, 0, 0]] = IfaceHash [[255, 0, 0, 0, 0, 0], [1, 2, 3, 4, 5, 6], []]"
  using IfaceHash_sum [of "[[255, 0, 0, 0, 0, 0], [1, 2, 3, 4, 5, 6], []]" "[[1, 2, 3, 4, 5, 6], [], [255, 0, 0, 0, 0, 0]]"]
  by (simp add: add_mset_commute)

text \<open>The successful readings of the counters.\<close>

fun readings :: "mon_event list \<Rightarrow> rates list" where
  "readings [] = []"
| "readings (Tick (Inr [(i, out)]) # evs) = \<lparr>In = i, Out = out\<rparr> # readings evs"
| "readings (_ # evs) = readings evs"

lemma readings_append: "readings (evs @ evs') = readings evs @ readings evs'"
  by (induction evs rule: readings.induct) auto

definition last_or :: "rates list \<Rightarrow> rates" where
  "last_or rs = (if rs = [] then no_rates else last rs)"

definition mon_after :: "io_counters \<Rightarrow> mon_event list \<Rightarrow> Monitor" where
  "mon_after stats evs = fold (\<lambda>ev m. fst (mon_step m ev)) evs (NewMonitor stats)"

definition has_readings :: "rates list \<Rightarrow> Monitor \<Rightarrow> bool" where
  "has_readings rs m \<longleftrightarrow> cur_rates m = last_or rs \<and> prev_rates m = last_or (butlast rs) \<and> \<not> mon_done m"

lemma update_readings:
  assumes "has_readings rs m"
  shows "has_readings (rs @ readings [Tick stats]) (update stats m)"
proof (cases "\<exists>i out. stats = Inr [(i, out)]")
  case True
  with assms show ?thesis by (auto simp: has_readings_def update_def last_or_def)
next
  case False
  then have "update stats m = m" by (auto simp: update_def length_Suc_conv split: sum.splits)
  moreover from False have "readings [Tick stats] = []"
    by (cases "[Tick stats]" rule: readings.cases) auto
  ultimately have "update stats m = m" "readings [Tick stats] = []" by auto
  with assms show ?thesis by simp
qed

lemma mon_after_readings:
  "CloseDone \<notin> set evs \<Longrightarrow> has_readings (readings (Tick stats # evs)) (mon_after stats evs)"
proof (induction evs rule: rev_induct)
  case Nil
  have "has_readings [] \<lparr>prev_rates = no_rates, cur_rates = no_rates, mon_done = False\<rparr>"
    by (simp add: has_readings_def last_or_def)
  from update_readings [OF this, of stats] show ?case by (simp add: mon_after_def NewMonitor_def)
next
  case (snoc ev evs)
  then have IH: "has_readings (readings (Tick stats # evs)) (mon_after stats evs)" by simp
  have r: "readings (Tick stats # evs @ [ev]) = readings (Tick stats # evs) @ readings [ev]"
    using readings_append [of "Tick stats # evs" "[ev]"] by simp
  have m: "mon_after stats (evs @ [ev]) = fst (mon_step (mon_after stats evs) ev)"
    by (simp add: mon_after_def)
  show ?case
  proof (cases ev)
    case (Tick st)
    with IH update_readings [OF IH, of st] show ?thesis unfolding r m by (simp add: mon_step_def has_readings_def)
  next
    case AskRates
    with IH show ?thesis unfolding r m by (simp add: mon_step_def)
  qed (use snoc.prems in simp)
qed

text \<open>The rates a monitor reports are the difference of its last two successful readings of the
counters, modulo \<open>2^64\<close>, and exactly that difference if the counters have not decreased. Before it has
made two readings it reports the counters themselves: all the traffic since the system started.\<close>

theorem monitor_rates:
  assumes "CloseDone \<notin> set evs" and "readings (Tick stats # evs) = rs"
  shows "\<exists>r. snd (mon_step (mon_after stats evs) AskRates) = Some r
    \<and> (\<forall>x. rs = [x] \<longrightarrow> r = x)
    \<and> (\<forall>xs x y. rs = xs @ [x, y] \<longrightarrow> r = \<lparr>In = In y - In x, Out = Out y - Out x\<rparr>
        \<and> (In x \<le> In y \<longrightarrow> uint (In r) = uint (In y) - uint (In x))
        \<and> (Out x \<le> Out y \<longrightarrow> uint (Out r) = uint (Out y) - uint (Out x)))"
proof -
  from mon_after_readings [OF assms(1), of stats] assms(2) have m: "has_readings rs (mon_after stats evs)" by simp
  then have "snd (mon_step (mon_after stats evs) AskRates) = Some (diff (last_or rs) (last_or (butlast rs)))"
    by (simp add: mon_step_def has_readings_def)
  then show ?thesis
    by (intro exI [of _ "diff (last_or rs) (last_or (butlast rs))"])
      (auto simp: diff_def last_or_def no_rates_def butlast_append uint_minus_simple_alt)
qed

theorem monitor_rates_witness:
  "snd (mon_step (mon_after (Inr [(1000, 500)]) []) AskRates) = Some \<lparr>In = 1000, Out = 500\<rparr>
   \<and> snd (mon_step (mon_after (Inr [(1000, 500)]) [AskRates, Tick (Inr [(1300, 510)])]) AskRates) = Some \<lparr>In = 300, Out = 10\<rparr>"
proof -
  have "[\<lparr>In = 1000, Out = 500\<rparr>, \<lparr>In = 1300, Out = 510\<rparr>] = [] @ [\<lparr>In = 1000, Out = 500\<rparr>, \<lparr>In = 1300, Out = 510\<rparr>]" by simp
  with monitor_rates [of "[]" "Inr [(1000, 500)]" "[\<lparr>In = 1000, Out = 500\<rparr>]"]
    monitor_rates [of "[AskRates, Tick (Inr [(1300, 510)])]" "Inr [(1000, 500)]"
      "[\<lparr>In = 1000, Out = 500\<rparr>, \<lparr>In = 1300, Out = 510\<rparr>]"]
  show ?thesis by force
qed

end
