(* ===== verification/Schema.thy ===== *)
theory Schema
  imports Agent Device "HOL-Library.Char_ord" "HOL-Library.List_Lexorder"
begin

text \<open>
  Package \<open>schema\<close>: the conversion of agent messages into broker messages
  (\<open>schema/convert.go\<close>) and the schema of their payloads (\<open>schema/schema.go\<close>). What the
  converter asks of the device, the application and the clock while it converts one message is the
  record \<open>ambient\<close>; the encoder of MessagePack, a third-party package, is the argument
  \<open>msgpack\<close>. Structs are encoded as JSON values, with the members in the order of the fields.
\<close>

section \<open>Payloads\<close>

record ambient =
  agent_version :: string
  check_sum :: string
  exit_status :: int
  exit_signal :: string
  current_ip :: string
  new_uuid :: string
  now_nano :: int
  metrics_now :: Metrics
  client_version :: string

record Meta =
  Version :: string
  meta_Username :: string
  ClientVersion :: string
  AgentVersion :: string
  meta_AppID :: string
  CheckSum :: string
  meta_MacHash :: string
  IP :: string
  UUID :: string
  Time :: int
  meta_Error :: string

definition no_meta :: Meta where
  "no_meta = \<lparr>Version = [], meta_Username = [], ClientVersion = [], AgentVersion = [], meta_AppID = [],
     CheckSum = [], meta_MacHash = [], IP = [], UUID = [], Time = 0, meta_Error = []\<rparr>"

datatype Encoding = MsgPack | JSON

record Config =
  cfg_Username :: string
  cfg_UserVersion :: string
  cfg_AppID :: string
  cfg_MacHash :: string
  cfg_Encoding :: Encoding

definition nowMilli :: "ambient \<Rightarrow> int" where
  "nowMilli a = now_nano a sdiv 1000000"

definition metadata :: "Config \<Rightarrow> ambient \<Rightarrow> Meta" where
  "metadata c a =
     \<lparr>Version = cfg_UserVersion c, meta_Username = cfg_Username c, ClientVersion = client_version a,
      AgentVersion = agent_version a, meta_AppID = cfg_AppID c, CheckSum = check_sum a,
      meta_MacHash = cfg_MacHash c, IP = current_ip a, UUID = new_uuid a, Time = nowMilli a, meta_Error = []\<rparr>"

definition meta_members :: "Meta \<Rightarrow> (string \<times> json) list" where
  "meta_members m =
     [(''version'', JStr (Version m)), (''device'', JStr (meta_Username m)),
      (''clientVersion'', JStr (ClientVersion m)), (''agentVersion'', JStr (AgentVersion m)),
      (''application'', JStr (meta_AppID m)), (''release'', JStr (CheckSum m)),
      (''macAddressHash'', JStr (meta_MacHash m)), (''publicIP'', JStr (IP m)), (''id'', JStr (UUID m)),
      (''timestamp'', JNum (show_int (Time m)))]
     @ (if meta_Error m = [] then [] else [(''error'', JStr (meta_Error m))])"

subsection \<open>Profiles\<close>

text \<open>A nil slice of callees is \<open>None\<close>; \<open>W\<close> is the width of \<open>int\<close>.\<close>

datatype node = Node (Fn: "int option") (Cs: int) (Ncalls: int) (Nsamples: int) (Callees: "node list option")

definition no_node :: node where
  "no_node = Node None 0 0 0 None"

text \<open>The members but \<open>callees\<close>.\<close>

definition node_scalar :: "nat \<Rightarrow> string \<Rightarrow> json \<Rightarrow> node \<Rightarrow> node \<times> bool" where
  "node_scalar W k v n =
     (case n of Node fn cs nc ns ce \<Rightarrow>
        if same_key k ''functionAddress'' then
          (if v = JNull then (Node None cs nc ns ce, False)
           else assign_int 64 (\<lambda>i _. Node (Some i) cs nc ns ce) v n)
        else if same_key k ''callSiteAddress'' then assign_int 64 (\<lambda>i _. Node fn i nc ns ce) v n
        else if same_key k ''nCalls'' then assign_int W (\<lambda>i _. Node fn cs i ns ce) v n
        else if same_key k ''nSamples'' then assign_int W (\<lambda>i _. Node fn cs nc i ce) v n
        else (n, False))"

text \<open>
  Decoding into a node and into a slice of nodes: an element that exists is decoded into, the others
  start from the zero value; \<open>null\<close> makes the slice nil.
\<close>

fun set_callees :: "node list option \<Rightarrow> node \<Rightarrow> node" where
  "set_callees ce (Node fn cs nc ns _) = Node fn cs nc ns ce"

fun assign_node :: "nat \<Rightarrow> json \<Rightarrow> node \<Rightarrow> node \<times> bool"
  and assign_node_members :: "nat \<Rightarrow> (string \<times> json) list \<Rightarrow> node \<Rightarrow> node \<times> bool"
  and assign_nodes :: "nat \<Rightarrow> json list \<Rightarrow> node list \<Rightarrow> node list \<times> bool"
where
  "assign_node W (JObj ms) n = assign_node_members W ms n"
| "assign_node W JNull n = (n, False)"
| "assign_node W _ n = (n, True)"
| "assign_node_members W [] n = (n, False)"
| "assign_node_members W ((k, v) # ms) n =
     (let (n', bad) =
        (if same_key k ''callees'' then
           (case v of
              JArr vs \<Rightarrow>
                (let (ns, bad) = assign_nodes W vs (case Callees n of None \<Rightarrow> [] | Some ns \<Rightarrow> ns)
                 in (set_callees (Some ns) n, bad))
            | JNull \<Rightarrow> (set_callees None n, False)
            | _ \<Rightarrow> (n, True))
         else node_scalar W k v n);
        (n'', bad') = assign_node_members W ms n'
      in (n'', bad \<or> bad'))"
| "assign_nodes W [] ns = ([], False)"
| "assign_nodes W (v # vs) ns =
     (let (n, bad) = assign_node W v (case ns of [] \<Rightarrow> no_node | n # _ \<Rightarrow> n);
          (ns', bad') = assign_nodes W vs (case ns of [] \<Rightarrow> [] | _ # r \<Rightarrow> r)
      in (n # ns', bad \<or> bad'))"

fun node_json :: "node \<Rightarrow> json" where
  "node_json (Node fn cs nc ns ce) =
     JObj [(''functionAddress'', case fn of None \<Rightarrow> JNull | Some i \<Rightarrow> JNum (show_int i)),
       (''callSiteAddress'', JNum (show_int cs)), (''nCalls'', JNum (show_int nc)),
       (''nSamples'', JNum (show_int ns)),
       (''callees'', case ce of None \<Rightarrow> JNull | Some l \<Rightarrow> JArr (map node_json l))]"

record profile =
  prof_meta :: Meta
  Tree :: node

text \<open>
  The members of the embedded metadata are fields of the payload too, so agents can set them; they are
  all overwritten afterwards. \<open>null\<close> leaves a string or a number as it was.
\<close>

definition meta_field :: "string \<Rightarrow> json \<Rightarrow> Meta \<Rightarrow> Meta \<times> bool" where
  "meta_field k v m =
     (if same_key k ''version'' then assign_string (\<lambda>s m. m\<lparr>Version := s\<rparr>) v m
      else if same_key k ''device'' then assign_string (\<lambda>s m. m\<lparr>meta_Username := s\<rparr>) v m
      else if same_key k ''clientVersion'' then assign_string (\<lambda>s m. m\<lparr>ClientVersion := s\<rparr>) v m
      else if same_key k ''agentVersion'' then assign_string (\<lambda>s m. m\<lparr>AgentVersion := s\<rparr>) v m
      else if same_key k ''application'' then assign_string (\<lambda>s m. m\<lparr>meta_AppID := s\<rparr>) v m
      else if same_key k ''release'' then assign_string (\<lambda>s m. m\<lparr>CheckSum := s\<rparr>) v m
      else if same_key k ''macAddressHash'' then assign_string (\<lambda>s m. m\<lparr>meta_MacHash := s\<rparr>) v m
      else if same_key k ''publicIP'' then assign_string (\<lambda>s m. m\<lparr>IP := s\<rparr>) v m
      else if same_key k ''id'' then assign_string (\<lambda>s m. m\<lparr>UUID := s\<rparr>) v m
      else if same_key k ''timestamp'' then assign_int 64 (\<lambda>i m. m\<lparr>Time := i\<rparr>) v m
      else if same_key k ''error'' then assign_string (\<lambda>s m. m\<lparr>meta_Error := s\<rparr>) v m
      else (m, False))"

definition profile_field :: "nat \<Rightarrow> string \<Rightarrow> json \<Rightarrow> profile \<Rightarrow> profile \<times> bool" where
  "profile_field W k v p =
     (if same_key k ''tree'' then (case assign_node W v (Tree p) of (t, bad) \<Rightarrow> (p\<lparr>Tree := t\<rparr>, bad))
      else case meta_field k v (prof_meta p) of (m, bad) \<Rightarrow> (p\<lparr>prof_meta := m\<rparr>, bad))"

text \<open>\<open>json.Unmarshal\<close> of the raw data of an agent message; the empty text is not valid JSON.\<close>

definition unmarshal_data ::
  "(string \<Rightarrow> json \<Rightarrow> 'r \<Rightarrow> 'r \<times> bool) \<Rightarrow> json option \<Rightarrow> 'r \<Rightarrow> 'r \<times> json_error option"
where
  "unmarshal_data f d r = (case d of None \<Rightarrow> (r, Some Json_syntax) | Some v \<Rightarrow> decode_struct f v r)"

definition to_profile :: "nat \<Rightarrow> Config \<Rightarrow> ambient \<Rightarrow> json option \<Rightarrow> profile" where
  "to_profile W c a data =
     (case unmarshal_data (profile_field W) data \<lparr>prof_meta = no_meta, Tree = no_node\<rparr> of
        (p, err) \<Rightarrow>
          (let p' = (case err of None \<Rightarrow> p
                     | Some e \<Rightarrow> p\<lparr>prof_meta := (prof_meta p)\<lparr>meta_Error := json_error_text e\<rparr>\<rparr>)
           in p'\<lparr>prof_meta := metadata c a\<rparr>))"

definition profile_json :: "profile \<Rightarrow> json" where
  "profile_json p = JObj (meta_members (prof_meta p) @ [(''tree'', node_json (Tree p))])"

subsection \<open>Exits\<close>

record frame =
  frame_Fn :: "int option"
  frame_Cs :: int

definition frame_field :: "string \<Rightarrow> json \<Rightarrow> frame \<Rightarrow> frame \<times> bool" where
  "frame_field k v f =
     (if same_key k ''functionAddress'' then
        (if v = JNull then (f\<lparr>frame_Fn := None\<rparr>, False) else assign_int 64 (\<lambda>i f. f\<lparr>frame_Fn := Some i\<rparr>) v f)
      else if same_key k ''callSiteAddress'' then assign_int 64 (\<lambda>i f. f\<lparr>frame_Cs := i\<rparr>) v f
      else (f, False))"

fun assign_frames :: "json list \<Rightarrow> frame list \<Rightarrow> frame list \<times> bool" where
  "assign_frames [] fs = ([], False)"
| "assign_frames (v # vs) fs =
     (let (f, bad) = assign_struct frame_field v (case fs of [] \<Rightarrow> \<lparr>frame_Fn = None, frame_Cs = 0\<rparr> | f # _ \<Rightarrow> f);
          (fs', bad') = assign_frames vs (case fs of [] \<Rightarrow> [] | _ # r \<Rightarrow> r)
      in (f # fs', bad \<or> bad'))"

record errorSig =
  sig_meta :: Meta
  Status :: int
  Signal :: string
  Trace :: "frame list option"
  sig_metrics :: Metrics

definition no_metrics :: Metrics where
  "no_metrics = \<lparr>CPUPercent = Finite ''0'', MemPercent = Finite ''0'', net_rates = no_rates\<rparr>"

definition assign_float :: "(string \<Rightarrow> 'r \<Rightarrow> 'r) \<Rightarrow> json \<Rightarrow> 'r \<Rightarrow> 'r \<times> bool" where
  "assign_float g v r = (case v of JNum n \<Rightarrow> (g n r, False) | JNull \<Rightarrow> (r, False) | _ \<Rightarrow> (r, True))"

definition assign_uint64 :: "(64 word \<Rightarrow> 'r \<Rightarrow> 'r) \<Rightarrow> json \<Rightarrow> 'r \<Rightarrow> 'r \<times> bool" where
  "assign_uint64 g v r =
     (case v of
        JNum n \<Rightarrow> (case read_int n of
                     Some i \<Rightarrow> if 0 \<le> i \<and> i < 2 ^ 64 \<and> take 1 n \<noteq> ''-'' then (g (word_of_int i) r, False) else (r, True)
                   | None \<Rightarrow> (r, True))
      | JNull \<Rightarrow> (r, False)
      | _ \<Rightarrow> (r, True))"

definition metrics_field :: "string \<Rightarrow> json \<Rightarrow> Metrics \<Rightarrow> Metrics \<times> bool" where
  "metrics_field k v m =
     (if same_key k ''cpuUsage'' then assign_float (\<lambda>n m. m\<lparr>CPUPercent := Finite n\<rparr>) v m
      else if same_key k ''memoryUsage'' then assign_float (\<lambda>n m. m\<lparr>MemPercent := Finite n\<rparr>) v m
      else if same_key k ''inboundNetwork'' then
        assign_uint64 (\<lambda>x m. m\<lparr>net_rates := (net_rates m)\<lparr>In := x\<rparr>\<rparr>) v m
      else if same_key k ''outboundNetwork'' then
        assign_uint64 (\<lambda>x m. m\<lparr>net_rates := (net_rates m)\<lparr>Out := x\<rparr>\<rparr>) v m
      else (m, False))"

definition errorSig_field :: "nat \<Rightarrow> string \<Rightarrow> json \<Rightarrow> errorSig \<Rightarrow> errorSig \<times> bool" where
  "errorSig_field W k v e =
     (if same_key k ''exitStatus'' then assign_int W (\<lambda>i e. e\<lparr>Status := i\<rparr>) v e
      else if same_key k ''signal'' then assign_string (\<lambda>s e. e\<lparr>Signal := s\<rparr>) v e
      else if same_key k ''stackTrace'' then
        (case v of
           JArr vs \<Rightarrow> (case assign_frames vs (case Trace e of None \<Rightarrow> [] | Some fs \<Rightarrow> fs) of
                         (fs, bad) \<Rightarrow> (e\<lparr>Trace := Some fs\<rparr>, bad))
         | JNull \<Rightarrow> (e\<lparr>Trace := None\<rparr>, False)
         | _ \<Rightarrow> (e, True))
      else if same_key k ''systemMetrics'' then
        (case assign_struct metrics_field v (sig_metrics e) of (m, bad) \<Rightarrow> (e\<lparr>sig_metrics := m\<rparr>, bad))
      else case meta_field k v (sig_meta e) of (m, bad) \<Rightarrow> (e\<lparr>sig_meta := m\<rparr>, bad))"

definition to_errorSig :: "nat \<Rightarrow> Config \<Rightarrow> ambient \<Rightarrow> json option \<Rightarrow> errorSig" where
  "to_errorSig W c a data =
     (case unmarshal_data (errorSig_field W) data
             \<lparr>sig_meta = no_meta, Status = 0, Signal = [], Trace = None, sig_metrics = no_metrics\<rparr> of
        (e, err) \<Rightarrow>
          (let e' = (case err of None \<Rightarrow> e
                     | Some x \<Rightarrow> e\<lparr>sig_meta := (sig_meta e)\<lparr>meta_Error := json_error_text x\<rparr>\<rparr>)
           in e'\<lparr>sig_meta := metadata c a, Status := exit_status a, sig_metrics := metrics_now a\<rparr>))"

text \<open>A float that is not finite cannot be encoded as JSON.\<close>

definition float_ok :: "float64 \<Rightarrow> bool" where
  "float_ok x = (case x of Finite _ \<Rightarrow> True | NotFinite \<Rightarrow> False)"

definition float_json :: "float64 \<Rightarrow> json" where
  "float_json x = (case x of Finite n \<Rightarrow> JNum n | NotFinite \<Rightarrow> JNull)"

definition metrics_json :: "Metrics \<Rightarrow> json" where
  "metrics_json m =
     JObj [(''cpuUsage'', float_json (CPUPercent m)), (''memoryUsage'', float_json (MemPercent m)),
       (''inboundNetwork'', JNum (show_int (uint (In (net_rates m))))),
       (''outboundNetwork'', JNum (show_int (uint (Out (net_rates m)))))]"

definition frame_json :: "frame \<Rightarrow> json" where
  "frame_json f =
     JObj [(''functionAddress'', case frame_Fn f of None \<Rightarrow> JNull | Some i \<Rightarrow> JNum (show_int i)),
       (''callSiteAddress'', JNum (show_int (frame_Cs f)))]"

definition errorSig_json :: "errorSig \<Rightarrow> json" where
  "errorSig_json e =
     JObj (meta_members (sig_meta e) @
       [(''exitStatus'', JNum (show_int (Status e))), (''signal'', JStr (Signal e)),
        (''stackTrace'', case Trace e of None \<Rightarrow> JNull | Some fs \<Rightarrow> JArr (map frame_json fs)),
        (''systemMetrics'', metrics_json (sig_metrics e))])"

record exit_payload =
  exit_meta :: Meta
  exit_Status :: int
  exit_Signal :: string
  exit_metrics :: Metrics

definition to_exit :: "Config \<Rightarrow> ambient \<Rightarrow> exit_payload" where
  "to_exit c a = \<lparr>exit_meta = metadata c a, exit_Status = exit_status a, exit_Signal = exit_signal a,
     exit_metrics = metrics_now a\<rparr>"

definition exit_json :: "exit_payload \<Rightarrow> json" where
  "exit_json e =
     JObj (meta_members (exit_meta e) @
       [(''exitStatus'', JNum (show_int (exit_Status e))), (''signal'', JStr (exit_Signal e)),
        (''systemMetrics'', metrics_json (exit_metrics e))])"

subsection \<open>Data points\<close>

text \<open>
  A JSON value decoded into an \<open>interface{}\<close> with \<open>UseNumber\<close> and encoded again: an
  object becomes a map, where the last of several members of one name counts, and a map is encoded in
  the order of its keys; numbers keep their literal.
\<close>

fun insert_key :: "string \<times> json \<Rightarrow> (string \<times> json) list \<Rightarrow> (string \<times> json) list" where
  "insert_key kv [] = [kv]"
| "insert_key (k, v) ((k', v') # ms) =
     (if k = k' then (k, v) # ms else if k < k' then (k, v) # (k', v') # ms else (k', v') # insert_key (k, v) ms)"

fun lossless :: "json \<Rightarrow> json"
  and lossless_elems :: "json list \<Rightarrow> json list"
  and lossless_members :: "(string \<times> json) list \<Rightarrow> (string \<times> json) list \<Rightarrow> (string \<times> json) list"
where
  "lossless (JArr vs) = JArr (lossless_elems vs)"
| "lossless (JObj ms) = JObj (lossless_members ms [])"
| "lossless v = v"
| "lossless_elems [] = []"
| "lossless_elems (v # vs) = lossless v # lossless_elems vs"
| "lossless_members [] acc = acc"
| "lossless_members ((k, v) # ms) acc = lossless_members ms (insert_key (k, lossless v) acc)"

text \<open>\<open>%q\<close>: a quoted string. A byte of 128 or more is taken to be part of a printable character.\<close>

definition go_esc :: "char \<Rightarrow> string" where
  "go_esc c =
     (if c = dquote \<or> c = bslash then [bslash, c]
      else if c = CHR 0x07 then [bslash, CHR ''a''] else if c = CHR 0x08 then [bslash, CHR ''b'']
      else if c = CHR 0x09 then [bslash, CHR ''t''] else if c = CHR 0x0A then [bslash, CHR ''n'']
      else if c = CHR 0x0B then [bslash, CHR ''v''] else if c = CHR 0x0C then [bslash, CHR ''f'']
      else if c = CHR 0x0D then [bslash, CHR ''r'']
      else if byte c < 32 \<or> byte c = 127 then [bslash, CHR ''x'', hex_digit (byte c div 16), hex_digit (byte c mod 16)]
      else [c])"

definition go_quote :: "string \<Rightarrow> string" where
  "go_quote s = dquote # concat (map go_esc s) @ [dquote]"

definition lossless_error :: "string \<Rightarrow> json option \<Rightarrow> string" where
  "lossless_error err data =
     ''unmarshalLossless: '' @ err @ '' in '' @ go_quote (case data of None \<Rightarrow> [] | Some v \<Rightarrow> render v)"

text \<open>\<open>unmarshalLossless\<close> into a struct: a decoder finds no value in the empty text.\<close>

definition unmarshalLossless ::
  "(string \<Rightarrow> json \<Rightarrow> 'r \<Rightarrow> 'r \<times> bool) \<Rightarrow> json option \<Rightarrow> 'r \<Rightarrow> 'r \<times> string option"
where
  "unmarshalLossless f data r =
     (case data of
        None \<Rightarrow> (r, Some (lossless_error (json_error_text Json_EOF) data))
      | Some v \<Rightarrow> (case decode_struct f v r of
                     (r', err) \<Rightarrow> (r', map_option (\<lambda>e. lossless_error (json_error_text e) data) err)))"

record dataPoint =
  dp_meta :: Meta
  dp_Type :: string
  Payload :: json

definition raw_field :: "string \<Rightarrow> json \<Rightarrow> string \<times> json option \<Rightarrow> (string \<times> json option) \<times> bool" where
  "raw_field k v raw =
     (if same_key k ''type'' then assign_string (\<lambda>s (_, p). (s, p)) v raw
      else if same_key k ''payload'' then ((fst raw, Some v), False)
      else (raw, False))"

definition genericDataPoint :: "Config \<Rightarrow> ambient \<Rightarrow> string \<Rightarrow> json option \<Rightarrow> dataPoint" where
  "genericDataPoint c a typ payload =
     (let generic = \<lparr>dp_meta = metadata c a, dp_Type = typ, Payload = JNull\<rparr> in
      case payload of
        None \<Rightarrow> generic\<lparr>dp_meta := (dp_meta generic)\<lparr>meta_Error := lossless_error (json_error_text Json_EOF) None\<rparr>\<rparr>
      | Some v \<Rightarrow> generic\<lparr>Payload := lossless v\<rparr>)"

definition to_dataPoint :: "Config \<Rightarrow> ambient \<Rightarrow> json option \<Rightarrow> dataPoint" where
  "to_dataPoint c a data =
     (case unmarshalLossless raw_field data ([], None) of
        (_, Some err) \<Rightarrow> \<lparr>dp_meta = no_meta\<lparr>meta_Error := err\<rparr>, dp_Type = [], Payload = JNull\<rparr>
      | ((typ, payload), None) \<Rightarrow> genericDataPoint c a typ payload)"

definition dataPoint_json :: "dataPoint \<Rightarrow> json" where
  "dataPoint_json d = JObj (meta_members (dp_meta d) @ [(''type'', JStr (dp_Type d)), (''payload'', Payload d)])"

section \<open>Conversion\<close>

datatype payload = P_profile profile | P_errorSig errorSig | P_exit exit_payload | P_dataPoint dataPoint

definition payload_json :: "payload \<Rightarrow> json" where
  "payload_json v =
     (case v of P_profile p \<Rightarrow> profile_json p | P_errorSig e \<Rightarrow> errorSig_json e | P_exit e \<Rightarrow> exit_json e
      | P_dataPoint d \<Rightarrow> dataPoint_json d)"

definition metrics_ok :: "Metrics \<Rightarrow> bool" where
  "metrics_ok m \<longleftrightarrow> float_ok (CPUPercent m) \<and> float_ok (MemPercent m)"

text \<open>\<open>json.Marshal\<close>: the text, and the error if there is a float that is not finite.\<close>

definition json_marshal :: "payload \<Rightarrow> bytes \<times> string option" where
  "json_marshal v =
     (if (case v of P_errorSig e \<Rightarrow> metrics_ok (sig_metrics e) | P_exit e \<Rightarrow> metrics_ok (exit_metrics e) | _ \<Rightarrow> True)
      then (render (payload_json v), None) else ([], Some ''json: unsupported value''))"

text \<open>The encoder of MessagePack is a library; its argument says whether it takes the names of the fields from the JSON tags.\<close>

definition msgpackMarshal :: "(bool \<Rightarrow> payload \<Rightarrow> bytes \<times> string option) \<Rightarrow> payload \<Rightarrow> bytes \<times> string option" where
  "msgpackMarshal enc v = enc True v"

definition marshal :: "(payload \<Rightarrow> bytes \<times> string option) \<Rightarrow> Config \<Rightarrow> payload \<Rightarrow> string \<Rightarrow> Message" where
  "marshal msgpack c v topic =
     (case (case cfg_Encoding c of MsgPack \<Rightarrow> msgpack v | JSON \<Rightarrow> json_marshal v) of
        (b, err) \<Rightarrow> empty_message\<lparr>Error := (case err of None \<Rightarrow> [] | Some e \<Rightarrow> e), Bytes := b, Topic := topic\<rparr>)"

text \<open>The raw text of \<open>Data\<close> is taken to be compact JSON; it is passed on for \<open>log\<close> only,
a type that \<open>serve\<close> drops.\<close>

definition convert ::
  "nat \<Rightarrow> (payload \<Rightarrow> bytes \<times> string option) \<Rightarrow> Config \<Rightarrow> ambient \<Rightarrow> agent_Message \<Rightarrow> Message"
where
  "convert W msgpack c a m =
     (if Type m = ''profile'' then marshal msgpack c (P_profile (to_profile W c a (Data m))) Profile
      else if Type m = ''event'' then marshal msgpack c (P_errorSig (to_errorSig W c a (Data m))) Event
      else if Type m = ''log'' then
        empty_message\<lparr>Bytes := (case Data m of None \<Rightarrow> [] | Some v \<Rightarrow> render v), Topic := Log\<rparr>
      else if Type m = ''cleanExit'' then marshal msgpack c (P_exit (to_exit c a)) Event
      else if Type m = ''datapoint'' then marshal msgpack c (P_dataPoint (to_dataPoint c a (Data m))) DataPoint
      else empty_message\<lparr>Error := ''message of type '' @ go_quote (Type m) @ '' not handled'', Topic := Log\<rparr>)"

text \<open>
  One iteration of \<open>serve\<close>. The persistor, if there is one, hands out the limit it has at that
  moment, \<open>lim\<close>. The result is what is sent, and the persistor and the world afterwards.
\<close>

definition report :: "create_error \<Rightarrow> Message" where
  "report err = empty_message\<lparr>Error := error_text err, Topic := Log\<rparr>"

definition convert_one ::
  "nat \<Rightarrow> (payload \<Rightarrow> bytes \<times> string option) \<Rightarrow> ('w, 'h) Fs \<Rightarrow> int \<Rightarrow> Config \<Rightarrow>
   Persistor option \<times> 'w \<Rightarrow> agent_Message \<times> ambient \<times> int option \<Rightarrow> Message list \<times> Persistor option \<times> 'w"
where
  "convert_one W msgpack fs pid c s x =
     (case (s, x) of
        ((pers, w), (m, a, lim)) \<Rightarrow>
          if Type m \<in> {''applog'', ''log''} then ([], pers, w)
          else (let b = convert W msgpack c a m in
                case pers of
                  None \<Rightarrow> ([b], None, w)
                | Some p \<Rightarrow>
                    (case CreateMessage fs pid (p\<lparr>limit := lim\<rparr>) b w of
                       (Some err, p', _, w') \<Rightarrow> ([report err], Some p', w')
                     | (None, p', b', w') \<Rightarrow> ([b'], Some p', w'))))"

text \<open>The loop; the rest of the world may act before each message.\<close>

fun convert_all ::
  "nat \<Rightarrow> (payload \<Rightarrow> bytes \<times> string option) \<Rightarrow> ('w, 'h) Fs \<Rightarrow> int \<Rightarrow> Config \<Rightarrow>
   Persistor option \<times> 'w \<Rightarrow> ((agent_Message \<times> ambient \<times> int option) \<times> ('w \<Rightarrow> 'w)) list \<Rightarrow> Message list"
where
  "convert_all W msgpack fs pid c s [] = []"
| "convert_all W msgpack fs pid c s ((x, env) # xs) =
     (case convert_one W msgpack fs pid c (fst s, env (snd s)) x of
        (out, s') \<Rightarrow> out @ convert_all W msgpack fs pid c s' xs)"

text \<open>
  Numbers in MessagePack: an extension of type 0 that holds the literal. The header of an extension is the encoder's: it
  takes the type and the length, and may fail.
\<close>

definition MarshalMsgpack :: "string \<Rightarrow> bytes" where
  "MarshalMsgpack n = n"

definition encodeNumber :: "(int \<Rightarrow> nat \<Rightarrow> string + bytes) \<Rightarrow> string \<Rightarrow> string + bytes" where
  "encodeNumber ext_header n =
     (case ext_header 0 (length n) of
        Inl err \<Rightarrow> Inl err
      | Inr h \<Rightarrow> Inr (h @ MarshalMsgpack n))"

section \<open>Facts\<close>

fun tree_fits :: "nat \<Rightarrow> node \<Rightarrow> bool" where
  "tree_fits W (Node fn cs nc ns ce) =
     ((case fn of None \<Rightarrow> True | Some i \<Rightarrow> fits 64 i) \<and> fits 64 cs \<and> fits W nc \<and> fits W ns
      \<and> (case ce of None \<Rightarrow> True | Some l \<Rightarrow> \<forall>n \<in> set l. tree_fits W n))"

definition payload_keys :: "string list" where
  "payload_keys = [''version'', ''device'', ''clientVersion'', ''agentVersion'', ''application'', ''release'',
     ''macAddressHash'', ''publicIP'', ''id'', ''timestamp'', ''error'', ''tree'', ''functionAddress'',
     ''callSiteAddress'', ''nCalls'', ''nSamples'', ''callees'', ''exitStatus'', ''signal'', ''stackTrace'',
     ''systemMetrics'', ''type'', ''payload'']"

lemma payload_keys_distinct: "distinct (map (map lower) payload_keys)"
  by code_simp

lemma same_key_payload: "k \<in> set payload_keys \<Longrightarrow> k' \<in> set payload_keys \<Longrightarrow> same_key k k' \<longleftrightarrow> k = k'"
  using payload_keys_distinct by (auto simp: same_key_def distinct_map inj_on_def)

lemma assign_nodes_map:
  "(\<And>n. n \<in> set ns \<Longrightarrow> assign_node W (node_json n) no_node = (n, False)) \<Longrightarrow>
   assign_nodes W (map node_json ns) [] = (ns, False)"
  by (induction ns) simp_all

lemma assign_node_json: "tree_fits W n \<Longrightarrow> assign_node W (node_json n) no_node = (n, False)"
proof (induction n)
  case (Node fn cs nc ns ce)
  note keys = same_key_payload [unfolded payload_keys_def]
  have sub: "assign_nodes W (map node_json l) [] = (l, False)" if "ce = Some l" for l
    using Node that by (intro assign_nodes_map) auto
  show ?case
    using Node.prems sub
    by (cases fn; cases ce) (simp_all add: no_node_def node_scalar_def keys)
qed

lemma wf_node_json [simp]: "wf_json (node_json n)"
  by (induction n) (auto split: option.split)

lemma profile_members:
  assumes "fits 64 (Time m)" and "meta_Error m = []" and "tree_fits W t"
  shows "assign_members (profile_field W) (meta_members m @ [(''tree'', node_json t)]) \<lparr>prof_meta = no_meta, Tree = no_node\<rparr>
    = (\<lparr>prof_meta = m, Tree = t\<rparr>, False)"
  using assms
  by (cases m) (simp add: meta_members_def profile_field_def meta_field_def assign_string_def no_meta_def
      assign_node_json same_key_payload [unfolded payload_keys_def])

lemma wf_meta_members [simp]: "\<forall>m \<in> set (meta_members m). wf_json (snd m)"
  by (simp add: meta_members_def)

lemma unmarshal_profile:
  assumes "fits 64 (Time (prof_meta p))" and "meta_Error (prof_meta p) = []" and "tree_fits W (Tree p)"
  shows "unmarshal (profile_field W) (render (profile_json p)) \<lparr>prof_meta = no_meta, Tree = no_node\<rparr> = (p, None)"
proof -
  have "wf_json (profile_json p)" using wf_meta_members [of "prof_meta p"] by (auto simp: profile_json_def)
  then show ?thesis
    using profile_members [OF assms]
    by (cases p) (simp add: unmarshal_render, simp add: profile_json_def decode_struct_def assign_struct_def)
qed

section \<open>Properties\<close>

text \<open>C24: A profile goes through the converter unchanged: from the data an agent sends for a tree, the JSON
payload is made whose decoding gives the metadata of the message and exactly this tree, whatever its
depth, with no error.\<close>

theorem profile_roundtrip:
  assumes "cfg_Encoding c = JSON" and "fits 64 (nowMilli a)" and "tree_fits W t"
  shows "let b = convert W msgpack c a \<lparr>Type = ''profile'', Data = Some (JObj [(''tree'', node_json t)])\<rparr> in
    Topic b = Profile \<and> Error b = []
    \<and> unmarshal (profile_field W) (Bytes b) \<lparr>prof_meta = no_meta, Tree = no_node\<rparr>
      = (\<lparr>prof_meta = metadata c a, Tree = t\<rparr>, None)"
proof -
  have "to_profile W c a (Some (JObj [(''tree'', node_json t)])) = \<lparr>prof_meta = metadata c a, Tree = t\<rparr>"
    using assign_node_json [OF assms(3)]
    by (simp add: to_profile_def unmarshal_data_def decode_struct_def assign_struct_def profile_field_def)
  with assms unmarshal_profile [of "\<lparr>prof_meta = metadata c a, Tree = t\<rparr>" W] show ?thesis
    by (simp add: convert_def marshal_def json_marshal_def payload_json_def empty_message_def Let_def metadata_def)
qed

definition sample_config :: Config where
  "sample_config = \<lparr>cfg_Username = ''dev'', cfg_UserVersion = ''1.0'', cfg_AppID = ''app'', cfg_MacHash = ''00'', cfg_Encoding = JSON\<rparr>"

definition sample_ambient :: ambient where
  "sample_ambient = \<lparr>agent_version = ''0.1'', check_sum = ''ab'', exit_status = 0, exit_signal = [], current_ip = ''::1'',
     new_uuid = ''u'', now_nano = 1500000000000000000, metrics_now = no_metrics, client_version = ''local-build''\<rparr>"

definition sample_tree :: node where
  "sample_tree = Node (Some 1) 2 3 4 (Some [Node None 5 6 7 None, Node (Some 8) 9 10 11 (Some [])])"

theorem profile_roundtrip_witness:
  "fst (unmarshal (profile_field 64) (Bytes (convert 64 (\<lambda>_. ([], None)) sample_config sample_ambient
       \<lparr>Type = ''profile'', Data = Some (JObj [(''tree'', node_json sample_tree)])\<rparr>)) \<lparr>prof_meta = no_meta, Tree = no_node\<rparr>)
     = \<lparr>prof_meta = metadata sample_config sample_ambient, Tree = sample_tree\<rparr>"
proof -
  have "cfg_Encoding sample_config = JSON" by (simp add: sample_config_def)
  moreover have "fits 64 (nowMilli sample_ambient)"
    by (simp add: nowMilli_def sample_ambient_def fits_def signed_divide_int_def)
  moreover have "tree_fits 64 sample_tree" by (simp add: sample_tree_def fits_def)
  ultimately show ?thesis
    using profile_roundtrip [of sample_config sample_ambient 64 sample_tree "\<lambda>_. ([], None)"] by (simp add: Let_def)
qed

text \<open>An error in decoding a profile or an event is lost: \<open>c.metadata()\<close> overwrites the field in which
it was noted. Whatever the agent sent, even nothing at all, the payload has the metadata of a sound
message and the message has no error.\<close>

theorem decode_errors_lost:
  shows "prof_meta (to_profile W c a data) = metadata c a \<and> meta_Error (prof_meta (to_profile W c a data)) = []
    \<and> sig_meta (to_errorSig W c a data) = metadata c a \<and> meta_Error (sig_meta (to_errorSig W c a data)) = []
    \<and> to_profile W c a None = \<lparr>prof_meta = metadata c a, Tree = no_node\<rparr>
    \<and> Error (convert W msgpack (c\<lparr>cfg_Encoding := JSON\<rparr>) a \<lparr>Type = ''profile'', Data = data\<rparr>) = []"
  by (simp add: to_profile_def to_errorSig_def unmarshal_data_def metadata_def Let_def convert_def marshal_def
      json_marshal_def empty_message_def split: prod.split)

text \<open>A position in a JSON value: of several members of one name the last one counts.\<close>

datatype place = Key string | Idx nat

fun at :: "place list \<Rightarrow> json \<Rightarrow> json option" where
  "at [] v = Some v"
| "at (Key k # ps) (JObj ms) = Option.bind (map_of (rev ms) k) (at ps)"
| "at (Idx i # ps) (JArr vs) = (if i < length vs then at ps (vs ! i) else None)"
| "at _ _ = None"

definition keys_ascend :: "(string \<times> json) list \<Rightarrow> bool" where
  "keys_ascend ms \<longleftrightarrow> sorted_wrt (<) (map fst ms)"

lemma map_of_insert_key: "map_of (insert_key (k, v) ms) = (map_of ms)(k \<mapsto> v)"
  by (induction "(k, v)" ms rule: insert_key.induct) auto

lemma insert_key_keys: "fst ` set (insert_key kv ms) = insert (fst kv) (fst ` set ms)"
  by (induction kv ms rule: insert_key.induct) auto

lemma keys_ascend_insert: "keys_ascend ms \<Longrightarrow> keys_ascend (insert_key kv ms)"
proof (induction kv ms rule: insert_key.induct)
  case (2 k v k' v' ms)
  then show ?case
    using insert_key_keys [of "(k, v)" ms] by (auto simp: keys_ascend_def)
qed (simp add: keys_ascend_def)

lemma map_of_rev_ascend:
  assumes "keys_ascend ms"
  shows "map_of (rev ms) = map_of ms"
proof -
  have "distinct (map fst ms)"
    using assms by (simp add: keys_ascend_def strict_sorted_iff)
  then show ?thesis by (intro map_of_inject_set [THEN iffD2]) (simp_all add: rev_map [symmetric])
qed

lemma lossless_members_eq:
  "keys_ascend acc \<Longrightarrow> keys_ascend (lossless_members ms acc) \<and>
   map_of (lossless_members ms acc) = map_of acc ++ (\<lambda>k. map_option lossless (map_of (rev ms) k))"
proof (induction ms arbitrary: acc)
  case Nil
  then show ?case by (simp add: map_add_def)
next
  case (Cons kv ms)
  obtain k v where kv: "kv = (k, v)" by (cases kv)
  from Cons.IH [OF keys_ascend_insert [OF Cons.prems, of "(k, lossless v)"]] show ?case
    by (auto simp: kv map_of_insert_key map_add_def fun_eq_iff split: option.splits)
qed

lemma lossless_elems_map: "lossless_elems vs = map lossless vs"
  by (induction vs) simp_all

lemma at_lossless: "at ps (lossless v) = map_option lossless (at ps v)"
proof (induction ps v rule: at.induct)
  case (2 k ps ms)
  have "keys_ascend []" by (simp add: keys_ascend_def)
  from lossless_members_eq [OF this, of ms] 2 show ?case
    by (cases "map_of (rev ms) k") (auto simp: map_of_rev_ascend)
qed (auto simp: lossless_elems_map)

text \<open>C25: Data points are lossless: whatever JSON value an agent sends as payload, the payload of the message has at
every position the value that was there, and every number there with the digits it was written with.\<close>

theorem data_point_lossless:
  "to_dataPoint c a (Some (JObj [(''type'', JStr t), (''payload'', v)]))
     = \<lparr>dp_meta = metadata c a, dp_Type = t, Payload = lossless v\<rparr>
   \<and> at ps (lossless v) = map_option lossless (at ps v) \<and> lossless (JNum n) = JNum n"
  using at_lossless
  by (simp add: to_dataPoint_def unmarshalLossless_def decode_struct_def assign_struct_def raw_field_def
      assign_string_def genericDataPoint_def same_key_payload [unfolded payload_keys_def])

text \<open>A data point that is not an object is sent without any metadata: no application, device, identifier
or time, only the text of the error.\<close>

theorem malformed_data_point_unattributed:
  "\<exists>err. to_dataPoint c a data' = \<lparr>dp_meta = no_meta\<lparr>meta_Error := err\<rparr>, dp_Type = [], Payload = JNull\<rparr> \<and> err \<noteq> []"
  if "data' \<in> {None, Some (JBool b), Some (JNum n), Some (JStr s), Some (JArr vs)}"
  using that
  by (auto simp: to_dataPoint_def unmarshalLossless_def decode_struct_def assign_struct_def lossless_error_def)

theorem malformed_data_point_unattributed_witness:
  "\<exists>err. to_dataPoint sample_config sample_ambient None
     = \<lparr>dp_meta = no_meta\<lparr>meta_Error := err\<rparr>, dp_Type = [], Payload = JNull\<rparr> \<and> err \<noteq> []"
  by (rule malformed_data_point_unattributed) simp

text \<open>What the converter sends for a message: without a persistor the converted message; with one, the message as
\<open>CreateMessage\<close> left it, or the report of the error that \<open>CreateMessage\<close> had with it.\<close>

definition answers ::
  "nat \<Rightarrow> (payload \<Rightarrow> bytes \<times> string option) \<Rightarrow> ('w, 'h) Fs \<Rightarrow> int \<Rightarrow> Config \<Rightarrow> bool \<Rightarrow> agent_Message \<times> ambient \<Rightarrow> Message \<Rightarrow> bool"
where
  "answers W msgpack fs pid c storing x b \<longleftrightarrow>
     (let b0 = convert W msgpack c (snd x) (fst x) in
      if storing then
        (\<exists>p w err p' b1 w'. CreateMessage fs pid p b0 w = (err, p', b1, w')
           \<and> b = (case err of None \<Rightarrow> b1 | Some e \<Rightarrow> report e))
      else b = b0)"

definition dropped :: "agent_Message \<Rightarrow> bool" where
  "dropped m \<longleftrightarrow> Type m \<in> {''applog'', ''log''}"

lemma convert_one_cases:
  assumes "convert_one W msgpack fs pid c (pers, w) (m, a, lim) = (out, pers', w')"
  obtains (drop) "dropped m" "out = []" "pers' = pers" "w' = w"
  | (plain) "\<not> dropped m" "pers = None" "out = [convert W msgpack c a m]" "pers' = None" "w' = w"
  | (failed) p p' b' err where "\<not> dropped m" "pers = Some p" "out = [report err]" "pers' = Some p'"
      "CreateMessage fs pid (p\<lparr>limit := lim\<rparr>) (convert W msgpack c a m) w = (Some err, p', b', w')"
  | (stored) p p' b' where "\<not> dropped m" "pers = Some p" "out = [b']" "pers' = Some p'"
      "CreateMessage fs pid (p\<lparr>limit := lim\<rparr>) (convert W msgpack c a m) w = (None, p', b', w')"
proof (cases "dropped m")
  case True
  with assms drop show ?thesis by (simp add: convert_one_def dropped_def)
next
  case False
  show ?thesis
  proof (cases pers)
    case None
    with False assms plain show ?thesis by (simp add: convert_one_def dropped_def)
  next
    case (Some p)
    obtain err p' b' u where c: "CreateMessage fs pid (p\<lparr>limit := lim\<rparr>) (convert W msgpack c a m) w = (err, p', b', u)"
      by (cases "CreateMessage fs pid (p\<lparr>limit := lim\<rparr>) (convert W msgpack c a m) w") auto
    with False Some assms failed stored show ?thesis
      by (cases err) (auto simp: convert_one_def dropped_def)
  qed
qed

text \<open>The converter answers every message but the dropped logs with exactly one, in order: the converted one or the
report of the error with which it could not be stored.\<close>

theorem converter_answers:
  "list_all2 (answers W msgpack fs pid c (fst s \<noteq> None))
     (filter (\<lambda>x. \<not> dropped (fst x)) (map (\<lambda>((m, a, lim), env). (m, a)) xs)) (convert_all W msgpack fs pid c s xs)"
proof (induction xs arbitrary: s)
  case Nil
  then show ?case by simp
next
  case (Cons y xs)
  obtain m a lim env where y: "y = ((m, a, lim), env)" by (metis prod.exhaust)
  obtain out pers' w' where o: "convert_one W msgpack fs pid c (fst s, env (snd s)) (m, a, lim) = (out, pers', w')"
    by (cases "convert_one W msgpack fs pid c (fst s, env (snd s)) (m, a, lim)") auto
  note IH = Cons.IH [of "(pers', w')"]
  from o show ?case
  proof (cases rule: convert_one_cases)
    case (failed p p' b' err)
    then have "answers W msgpack fs pid c True (m, a) (report err)" by (auto simp: answers_def Let_def intro!: exI)
    with IH o y failed show ?thesis by simp
  next
    case (stored p p' b')
    then have "answers W msgpack fs pid c True (m, a) b'" by (auto simp: answers_def Let_def intro!: exI)
    with IH o y stored show ?thesis by simp
  qed (use IH o y in \<open>auto simp: answers_def Let_def\<close>)
qed

section \<open>Numbers in MessagePack\<close>

text \<open>A reader of extensions that can tell the type, the length and what follows from what the encoder writes as a header.\<close>

definition read_number :: "(bytes \<Rightarrow> (int \<times> nat \<times> bytes) option) \<Rightarrow> bytes \<Rightarrow> (string \<times> bytes) option" where
  "read_number ext_read b =
     (case ext_read b of
        None \<Rightarrow> None
      | Some (t, n, rest) \<Rightarrow> if t = 0 \<and> n \<le> length rest then Some (take n rest, drop n rest) else None)"

text \<open>No digit of a number is lost in MessagePack: whoever can read the headers of extensions gets the literal that the agent wrote,
and the rest of the bytes.\<close>

theorem number_roundtrip:
  assumes "\<And>t n h rest. ext_header t n = Inr h \<Longrightarrow> ext_read (h @ rest) = Some (t, n, rest)"
    and "encodeNumber ext_header n = Inr b"
  shows "read_number ext_read (b @ rest) = Some (n, rest)"
  using assms(2) assms(1)
  by (auto simp: encodeNumber_def MarshalMsgpack_def read_number_def split: sum.splits)

text \<open>The format with one byte of length, of the specification of MessagePack.\<close>

definition ext8_header :: "int \<Rightarrow> nat \<Rightarrow> string + bytes" where
  "ext8_header t n = (if 0 \<le> t \<and> t < 128 \<and> n < 256 then Inr [CHR 0xC7, char_of n, char_of (nat t)] else Inl ''ext'')"

definition ext8_read :: "bytes \<Rightarrow> (int \<times> nat \<times> bytes) option" where
  "ext8_read b = (case b of _ # n # t # rest \<Rightarrow> Some (int (of_char t :: nat), of_char n, rest) | _ \<Rightarrow> None)"

theorem number_roundtrip_witness:
  "\<exists>b. encodeNumber ext8_header ''1.50'' = Inr b \<and> read_number ext8_read (b @ ''x'') = Some (''1.50'', ''x'')"
proof -
  have header: "ext8_header t n = Inr h \<Longrightarrow> ext8_read (h @ rest) = Some (t, n, rest)" for t n h rest
    by (auto simp: ext8_header_def ext8_read_def split: if_splits)
  obtain b where b: "encodeNumber ext8_header ''1.50'' = Inr b" by (simp add: encodeNumber_def ext8_header_def)
  from number_roundtrip [of ext8_header ext8_read, OF header b, of "''x''"] b show ?thesis by blast
qed

end
