(* ===== verification/Api.thy ===== *)
theory Api
  imports FileSys Json
begin

text \<open>
  Package \<open>api\<close> (\<open>api/api.go\<close>): the calls of the backend and the cache of the
  credentials. The transport and the URL parser are the argument \<open>http\<close>, the parser of
  certificates the argument \<open>pem_ok\<close>; \<open>W\<close> is the width of \<open>int\<close>. Where the code
  ignores the error of \<open>http.NewRequest\<close>, a URL that does not parse leaves a nil request, and
  using it panics.
\<close>

section \<open>Requests and errors\<close>

definition ReleasesEP :: string where "ReleasesEP = ''/private/releases/''"
definition CertificatesEP :: string where "CertificatesEP = ''/private/devices/certificates/''"
definition DevicesEP :: string where "DevicesEP = ''/private/devices/''"
definition ConfigEP :: string where "ConfigEP = ''/private/devices/config/''"
definition DataLimitEP :: string where "DataLimitEP = ''/private/devices/%s/app_config/''"

record API =
  BaseURL :: string
  Key :: string
  AppID :: string
  MacHash :: string
  CredsPath :: string
  EP_Releases :: string
  EP_Certificates :: string
  EP_Devices :: string
  EP_Config :: string
  EP_DataLimit :: string

record http_request =
  Method :: string
  URL :: string
  Header :: "(string \<times> string) list"
  Body :: bytes

record http_response =
  StatusCode :: int
  Status :: string
  response :: bytes

record 'w Http =
  NewRequest :: "string \<Rightarrow> string option"
  Do :: "http_request \<Rightarrow> 'w \<Rightarrow> (string + http_response) \<times> 'w"

datatype api_error =
    ErrCall string string
  | ErrNotReleased string
  | ErrStatus string string
  | ErrParseCA
  | ErrEncoding json_error string string
  | ErrOther string

definition api_error_text :: "api_error \<Rightarrow> string" where
  "api_error_text e =
     (case e of
        ErrCall what err \<Rightarrow> what @ '': '' @ err
      | ErrNotReleased checksum \<Rightarrow> ''not released: '' @ checksum
      | ErrStatus status url \<Rightarrow> ''unexpected status: '' @ status @ '' from '' @ url
      | ErrParseCA \<Rightarrow> ''failed to parse CA''
      | ErrEncoding err what op \<Rightarrow>
          ''encoding error during '' @ op @ '': '' @ json_error_text err @ '' in '' @ what
      | ErrOther t \<Rightarrow> t)"

definition http_send :: "'w Http \<Rightarrow> http_request \<Rightarrow> 'w \<Rightarrow> ((string + http_response) \<times> 'w) go" where
  "http_send http req w = (case NewRequest http (URL req) of Some _ \<Rightarrow> Panics | None \<Rightarrow> Returns (Do http req w))"

definition auth :: "API \<Rightarrow> string \<times> string" where
  "auth a = (''Authorization'', ''JWT '' @ Key a)"

definition json_type :: "string \<times> string" where
  "json_type = (''content-type'', ''application/json'')"

section \<open>Releases and certificates\<close>

definition Release :: "'w Http \<Rightarrow> API \<Rightarrow> string \<Rightarrow> 'w \<Rightarrow> (api_error option \<times> 'w) go" where
  "Release http a checksum w =
     (let url = BaseURL a @ EP_Releases a @ ''?checksum='' @ checksum in
      case http_send http \<lparr>Method = ''GET'', URL = url, Header = [auth a], Body = []\<rparr> w of
        Panics \<Rightarrow> Panics
      | Returns (Inl err, w') \<Rightarrow> Returns (Some (ErrCall (''checking release '' @ checksum) err), w')
      | Returns (Inr resp, w') \<Rightarrow>
          Returns (if StatusCode resp \<noteq> 200 then Some (ErrNotReleased checksum) else None, w'))"

definition tlsConfig :: "(bytes \<Rightarrow> bool) \<Rightarrow> bytes \<Rightarrow> api_error + bytes" where
  "tlsConfig pem_ok ca = (if \<not> pem_ok ca then Inl ErrParseCA else Inr ca)"

definition Certificates :: "(bytes \<Rightarrow> bool) \<Rightarrow> 'w Http \<Rightarrow> API \<Rightarrow> 'w \<Rightarrow> ((api_error + bytes) \<times> 'w) go" where
  "Certificates pem_ok http a w =
     (let url = BaseURL a @ EP_Certificates a in
      case http_send http \<lparr>Method = ''GET'', URL = url, Header = [auth a], Body = []\<rparr> w of
        Panics \<Rightarrow> Panics
      | Returns (Inl err, w') \<Rightarrow> Returns (Inl (ErrCall ''getting certificates'' err), w')
      | Returns (Inr resp, w') \<Rightarrow>
          Returns (if StatusCode resp \<noteq> 200 then Inl (ErrStatus (Status resp) url)
            else tlsConfig pem_ok (response resp), w'))"

section \<open>Credentials\<close>

record Credentials =
  Username :: string
  Password :: string
  Org :: string
  ClientID :: string

definition no_creds :: Credentials where
  "no_creds = \<lparr>Username = [], Password = [], Org = [], ClientID = []\<rparr>"

definition creds_json :: "Credentials \<Rightarrow> json" where
  "creds_json c = JObj [(''id'', JStr (Username c)), (''client_password'', JStr (Password c)),
     (''organization'', JStr (Org c)), (''client_id'', JStr (ClientID c))]"

definition creds_field :: "string \<Rightarrow> json \<Rightarrow> Credentials \<Rightarrow> Credentials \<times> bool" where
  "creds_field k v c =
     (if same_key k ''id'' then assign_string (\<lambda>s c. c\<lparr>Username := s\<rparr>) v c
      else if same_key k ''client_password'' then assign_string (\<lambda>s c. c\<lparr>Password := s\<rparr>) v c
      else if same_key k ''organization'' then assign_string (\<lambda>s c. c\<lparr>Org := s\<rparr>) v c
      else if same_key k ''client_id'' then assign_string (\<lambda>s c. c\<lparr>ClientID := s\<rparr>) v c
      else (c, False))"

definition decodeCredentials :: "bytes \<Rightarrow> api_error + Credentials" where
  "decodeCredentials data =
     (case unmarshal creds_field data no_creds of
        (_, Some err) \<Rightarrow> Inl (ErrEncoding err data ''decodeCredentials'')
      | (c, None) \<Rightarrow> if Password c = [] then Inl (ErrOther ''empty password'') else Inr c)"

definition credentials :: "'w Http \<Rightarrow> API \<Rightarrow> 'w \<Rightarrow> ((api_error + Credentials) \<times> 'w) go" where
  "credentials http a w =
     (let b = render (JObj [(''mac_address_hash'', JStr (MacHash a)), (''application'', JStr (AppID a))]);
          url = BaseURL a @ EP_Devices a in
      case http_send http \<lparr>Method = ''POST'', URL = url, Header = [json_type, auth a], Body = b\<rparr> w of
        Panics \<Rightarrow> Panics
      | Returns (Inl err, w') \<Rightarrow> Returns (Inl (ErrCall ''getting broker credentials'' err), w')
      | Returns (Inr resp, w') \<Rightarrow>
          Returns (if StatusCode resp \<noteq> 201 then Inl (ErrStatus (Status resp) url)
            else decodeCredentials (response resp), w'))"

definition readFile_api :: "('w, 'h) Fs \<Rightarrow> string \<Rightarrow> 'w \<Rightarrow> string + bytes" where
  "readFile_api fs p w = (case Open fs p w of Inl err \<Rightarrow> Inl err | Inr f \<Rightarrow> ReadAll fs f w)"

definition credsFromFile :: "('w, 'h) Fs \<Rightarrow> string \<Rightarrow> 'w \<Rightarrow> api_error + Credentials" where
  "credsFromFile fs p w =
     (case readFile_api fs p w of
        Inl err \<Rightarrow> Inl (ErrCall ''could not read credentials file'' err)
      | Inr b \<Rightarrow>
          (case unmarshal creds_field b no_creds of
             (_, Some err) \<Rightarrow> Inl (ErrEncoding err b ''credsFromFile'')
           | (c, None) \<Rightarrow> Inr c))"

definition getAndSaveCredentials ::
  "'w Http \<Rightarrow> ('w, 'h) Fs \<Rightarrow> API \<Rightarrow> 'w \<Rightarrow> ((api_error + Credentials) \<times> 'w) go"
where
  "getAndSaveCredentials http fs a w =
     (case credentials http a w of
        Panics \<Rightarrow> Panics
      | Returns (Inl err, w') \<Rightarrow> Returns (Inl err, w')
      | Returns (Inr c, w') \<Rightarrow>
          (case WriteFile fs (CredsPath a) (render (creds_json c)) w' of
             (Some err, w'') \<Rightarrow> Returns (Inl (ErrCall ''could not write credentials'' err), w'')
           | (None, w'') \<Rightarrow> Returns (Inr c, w'')))"

definition Credentials_of :: "'w Http \<Rightarrow> ('w, 'h) Fs \<Rightarrow> API \<Rightarrow> 'w \<Rightarrow> ((api_error + Credentials) \<times> 'w) go" where
  "Credentials_of http fs a w =
     (case credsFromFile fs (CredsPath a) w of
        Inl _ \<Rightarrow> getAndSaveCredentials http fs a w
      | Inr c \<Rightarrow> Returns (Inr c, w))"

section \<open>Configuration from the backend\<close>

definition broker_field :: "string \<Rightarrow> json \<Rightarrow> string \<times> string \<Rightarrow> (string \<times> string) \<times> bool" where
  "broker_field k v bp =
     (if same_key k ''brokers'' then assign_string (\<lambda>s (b, p). (s, p)) v bp
      else if same_key k ''port'' then assign_string (\<lambda>s (b, p). (b, s)) v bp
      else (bp, False))"

definition BrokerAddress :: "'w Http \<Rightarrow> API \<Rightarrow> 'w \<Rightarrow> ((api_error + string) \<times> 'w) go" where
  "BrokerAddress http a w =
     (let url = BaseURL a @ EP_Config a in
      case http_send http \<lparr>Method = ''GET'', URL = url, Header = [json_type, auth a], Body = []\<rparr> w of
        Panics \<Rightarrow> Panics
      | Returns (Inl err, w') \<Rightarrow> Returns (Inl (ErrCall ''getting broker address'' err), w')
      | Returns (Inr resp, w') \<Rightarrow>
          Returns (if StatusCode resp \<noteq> 200 then Inl (ErrStatus (Status resp) url)
            else case unmarshal broker_field (response resp) ([], []) of
                   (_, Some err) \<Rightarrow> Inl (ErrEncoding err (response resp) ''BrokerAddress'')
                 | ((broker, port), None) \<Rightarrow> Inr (''ssl://'' @ broker @ '':'' @ port), w'))"

record CellularConfig =
  CDate :: int
  Defined :: bool
  Limit :: int

record DataLimit =
  Storage :: "int option"
  EmissionPeriod :: int
  Cellular :: CellularConfig

text \<open>The struct that the body of the response is decoded into, with its nested structs laid flat.\<close>

record limits =
  emission_period :: int
  storage_limit :: "int option"
  cellular_data_limit :: "int option"
  normalized_cell_plan_date :: int

definition assign_ref :: "nat \<Rightarrow> (int option \<Rightarrow> 'r \<Rightarrow> 'r) \<Rightarrow> json \<Rightarrow> 'r \<Rightarrow> 'r \<times> bool" where
  "assign_ref w g v r = (case v of JNull \<Rightarrow> (g None r, False) | _ \<Rightarrow> assign_int w (\<lambda>i. g (Some i)) v r)"

definition storage_field :: "string \<Rightarrow> json \<Rightarrow> limits \<Rightarrow> limits \<times> bool" where
  "storage_field k v l =
     (if same_key k ''storage_limit'' then assign_ref 64 (\<lambda>i l. l\<lparr>storage_limit := i\<rparr>) v l else (l, False))"

definition data_field :: "nat \<Rightarrow> string \<Rightarrow> json \<Rightarrow> limits \<Rightarrow> limits \<times> bool" where
  "data_field W k v l =
     (if same_key k ''cellular_data_limit'' then assign_ref W (\<lambda>i l. l\<lparr>cellular_data_limit := i\<rparr>) v l
      else if same_key k ''normalized_cell_plan_date'' then
        assign_int W (\<lambda>i l. l\<lparr>normalized_cell_plan_date := i\<rparr>) v l
      else (l, False))"

definition config_field :: "nat \<Rightarrow> string \<Rightarrow> json \<Rightarrow> limits \<Rightarrow> limits \<times> bool" where
  "config_field W k v l =
     (if same_key k ''emission_period'' then assign_int W (\<lambda>i l. l\<lparr>emission_period := i\<rparr>) v l
      else if same_key k ''storage'' then assign_struct storage_field v l
      else if same_key k ''data'' then assign_struct (data_field W) v l
      else (l, False))"

definition limits_field :: "nat \<Rightarrow> string \<Rightarrow> json \<Rightarrow> limits \<Rightarrow> limits \<times> bool" where
  "limits_field W k v l =
     (if same_key k ''config'' then assign_struct (config_field W) v l else (l, False))"

definition no_limits :: limits where
  "no_limits = \<lparr>emission_period = 0, storage_limit = None, cellular_data_limit = None, normalized_cell_plan_date = 0\<rparr>"

definition dataLimit_of :: "limits \<Rightarrow> DataLimit" where
  "dataLimit_of l =
     \<lparr>Storage = storage_limit l, EmissionPeriod = emission_period l,
      Cellular = \<lparr>CDate = normalized_cell_plan_date l, Defined = (cellular_data_limit l \<noteq> None),
        Limit = (case cellular_data_limit l of Some n \<Rightarrow> n | None \<Rightarrow> 0)\<rparr>\<rparr>"

text \<open>\<open>fmt.Sprintf\<close> with one \<open>%s\<close> in its format.\<close>

fun sprintf_s :: "string \<Rightarrow> string \<Rightarrow> string" where
  "sprintf_s (a # b # f) arg =
     (if a = CHR ''%'' \<and> b = CHR ''s'' then arg @ f else a # sprintf_s (b # f) arg)"
| "sprintf_s f arg = f"

definition DataLimit_of :: "nat \<Rightarrow> 'w Http \<Rightarrow> API \<Rightarrow> 'w \<Rightarrow> (api_error + DataLimit) \<times> 'w" where
  "DataLimit_of W http a w =
     (let url = BaseURL a @ sprintf_s (EP_DataLimit a) (AppID a) in
      case NewRequest http url of
        Some err \<Rightarrow> (Inl (ErrOther err), w)
      | None \<Rightarrow>
          (case Do http \<lparr>Method = ''GET'', URL = url, Header = [json_type, auth a], Body = []\<rparr> w of
             (Inl err, w') \<Rightarrow> (Inl (ErrCall ''getting data limit configuration'' err), w')
           | (Inr resp, w') \<Rightarrow>
               (if StatusCode resp \<noteq> 200 then Inl (ErrStatus (Status resp) url)
                else case unmarshal (limits_field W) (response resp) no_limits of
                       (_, Some err) \<Rightarrow> Inl (ErrEncoding err (response resp) ''DataLimit'')
                     | (l, None) \<Rightarrow> Inr (dataLimit_of l), w')))"

section \<open>Properties\<close>

lemma keys_differ [simp]:
  "\<not> same_key ''client_password'' ''id''" "\<not> same_key ''organization'' ''id''"
  "\<not> same_key ''client_id'' ''id''" "\<not> same_key ''organization'' ''client_password''"
  "\<not> same_key ''client_id'' ''client_password''" "\<not> same_key ''client_id'' ''organization''"
  "\<not> same_key ''storage'' ''emission_period''" "\<not> same_key ''data'' ''emission_period''"
  "\<not> same_key ''data'' ''storage''" "\<not> same_key ''normalized_cell_plan_date'' ''cellular_data_limit''"
  by (simp_all add: same_key_def lower_def)

lemma unmarshal_creds: "unmarshal creds_field (render (creds_json c)) r = (c, None)"
proof -
  have "wf_json (creds_json c)" by (simp add: creds_json_def)
  then show ?thesis
    by (cases c; cases r) (simp add: unmarshal_render, simp add: creds_json_def decode_struct_def assign_struct_def
        creds_field_def assign_string_def)
qed

lemma getAndSave_saved:
  assumes "getAndSaveCredentials http fs a w = Returns (Inr c, w')"
  shows "\<exists>u. credentials http a w = Returns (Inr c, u) \<and> WriteFile fs (CredsPath a) (render (creds_json c)) u = (None, w')"
  using assms
  by (auto simp: getAndSaveCredentials_def split: go.splits prod.splits sum.splits option.splits)

lemma credentials_password: "credentials http a w = Returns (Inr c, u) \<Longrightarrow> Password c \<noteq> []"
  by (auto simp: credentials_def decodeCredentials_def Let_def split: go.splits prod.splits sum.splits option.splits if_splits)

text \<open>C29: The backend is asked for the credentials once: those it gave, with a password that is not
empty, are in the file, and every later call, in any world where the file is as it was written and can be
read, returns the same credentials without a request.\<close>

theorem credentials_cached:
  assumes "file_system fs content" and "getAndSaveCredentials http fs a w = Returns (Inr c, w')"
    and "content w2 (CredsPath a) = content w' (CredsPath a)" and "readFile_api fs (CredsPath a) w2 = Inr b"
  shows "Password c \<noteq> [] \<and> content w' (CredsPath a) = Some (render (creds_json c))
    \<and> Credentials_of http' fs a w2 = Returns (Inr c, w2)"
proof -
  from getAndSave_saved [OF assms(2)] obtain u where u: "credentials http a w = Returns (Inr c, u)"
    "WriteFile fs (CredsPath a) (render (creds_json c)) u = (None, w')" by blast
  have c': "content w' (CredsPath a) = Some (render (creds_json c))"
    using file_system.WriteFile_writes [OF assms(1) u(2)] by simp
  obtain f where f: "Open fs (CredsPath a) w2 = Inr f" "ReadAll fs f w2 = Inr b"
    using assms(4) by (auto simp: readFile_api_def split: sum.splits)
  then have "content w2 (CredsPath a) = Some b"
    using file_system.ReadAll_content [OF assms(1) f(2)] file_system.Open_Name [OF assms(1) f(1)] by simp
  with c' assms(3) have "b = render (creds_json c)" by simp
  with assms(4) have "credsFromFile fs (CredsPath a) w2 = Inr c"
    by (simp add: credsFromFile_def unmarshal_creds)
  with c' credentials_password [OF u(1)] show ?thesis by (simp add: Credentials_of_def)
qed

text \<open>A backend that gives every request the same answer.\<close>

definition fixed_http :: "int \<Rightarrow> bytes \<Rightarrow> 'w Http" where
  "fixed_http code body =
     \<lparr>NewRequest = (\<lambda>_. None), Do = (\<lambda>_ w. (Inr \<lparr>StatusCode = code, Status = [], response = body\<rparr>, w))\<rparr>"

definition sample_api :: API where
  "sample_api = \<lparr>BaseURL = ''https://api.auklet.io'', Key = ''k'', AppID = ''app'', MacHash = ''00'',
     CredsPath = ''./.auklet/identification'', EP_Releases = ReleasesEP, EP_Certificates = CertificatesEP,
     EP_Devices = DevicesEP, EP_Config = ConfigEP, EP_DataLimit = DataLimitEP\<rparr>"

definition sample_creds :: Credentials where
  "sample_creds = \<lparr>Username = ''u'', Password = ''p'', Org = ''o'', ClientID = ''c''\<rparr>"

theorem credentials_cached_witness:
  "\<exists>w'. getAndSaveCredentials (fixed_http 201 (render (creds_json sample_creds))) disk_fs sample_api empty_disk
       = Returns (Inr sample_creds, w')
     \<and> Credentials_of (fixed_http 404 []) disk_fs sample_api w' = Returns (Inr sample_creds, w')"
proof -
  let ?http = "fixed_http 201 (render (creds_json sample_creds)) :: disk Http"
  have cr: "credentials ?http sample_api empty_disk = Returns (Inr sample_creds, empty_disk)"
    by (simp add: credentials_def http_send_def fixed_http_def Let_def decodeCredentials_def unmarshal_creds)
      (simp add: sample_creds_def)
  obtain e w' where w': "WriteFile disk_fs (CredsPath sample_api) (render (creds_json sample_creds)) empty_disk = (e, w')"
    by (cases "WriteFile disk_fs (CredsPath sample_api) (render (creds_json sample_creds)) empty_disk")
  then have e: "e = None" and r: "\<exists>b. readFile_api disk_fs (CredsPath sample_api) w' = Inr b"
    by (auto simp: WriteFile_def disk_fs_def empty_disk_def contents_of_def readFile_api_def)
  from r obtain b where b: "readFile_api disk_fs (CredsPath sample_api) w' = Inr b" by blast
  from cr w' e have g: "getAndSaveCredentials ?http disk_fs sample_api empty_disk = Returns (Inr sample_creds, w')"
    by (simp add: getAndSaveCredentials_def)
  from credentials_cached [OF disk.file_system_axioms g refl b] g show ?thesis by blast
qed

text \<open>A release is confirmed exactly if the backend answered the one request of the call, which
names the checksum and carries the key, with status 200.\<close>

theorem release_confirmed:
  assumes "NewRequest http (BaseURL a @ EP_Releases a @ ''?checksum='' @ checksum) = None"
    and "Do http \<lparr>Method = ''GET'', URL = BaseURL a @ EP_Releases a @ ''?checksum='' @ checksum,
      Header = [(''Authorization'', ''JWT '' @ Key a)], Body = []\<rparr> w = (answer, w')"
  shows "\<exists>err. Release http a checksum w = Returns (err, w') \<and>
    (err = None \<longleftrightarrow> (\<exists>resp. answer = Inr resp \<and> StatusCode resp = 200))"
  using assms by (auto simp: Release_def http_send_def auth_def Let_def split: sum.split)

theorem release_confirmed_witness:
  "\<exists>w'. Release (fixed_http 200 []) sample_api ''abc'' empty_disk = Returns (None, w')"
  using release_confirmed [of "fixed_http 200 []" sample_api "''abc''" empty_disk] by (auto simp: fixed_http_def)

text \<open>The limits of the application arrive as the backend states them: a storage or cellular
limit of \<open>null\<close> is no limit, and every number that fits its field comes through unchanged.\<close>

definition ref_json :: "int option \<Rightarrow> json" where
  "ref_json i = (case i of None \<Rightarrow> JNull | Some n \<Rightarrow> JNum (show_int n))"

definition limits_json :: "limits \<Rightarrow> json" where
  "limits_json l =
     JObj [(''config'', JObj [
       (''emission_period'', JNum (show_int (emission_period l))),
       (''storage'', JObj [(''storage_limit'', ref_json (storage_limit l))]),
       (''data'', JObj [(''cellular_data_limit'', ref_json (cellular_data_limit l)),
          (''normalized_cell_plan_date'', JNum (show_int (normalized_cell_plan_date l)))])])]"

definition limits_fit :: "nat \<Rightarrow> limits \<Rightarrow> bool" where
  "limits_fit W l \<longleftrightarrow> fits W (emission_period l) \<and> fits W (normalized_cell_plan_date l)
     \<and> (case storage_limit l of None \<Rightarrow> True | Some n \<Rightarrow> fits 64 n)
     \<and> (case cellular_data_limit l of None \<Rightarrow> True | Some n \<Rightarrow> fits W n)"

lemma assign_ref_json [simp]:
  "(case i of None \<Rightarrow> True | Some n \<Rightarrow> fits w n) \<Longrightarrow> assign_ref w g (ref_json i) r = (g i r, False)"
  by (cases i) (simp_all add: assign_ref_def ref_json_def)

theorem limits_decoded:
  assumes "limits_fit W l" and "NewRequest http (BaseURL a @ sprintf_s (EP_DataLimit a) (AppID a)) = None"
    and "Do http \<lparr>Method = ''GET'', URL = BaseURL a @ sprintf_s (EP_DataLimit a) (AppID a),
      Header = [json_type, auth a], Body = []\<rparr> w = (Inr \<lparr>StatusCode = 200, Status = t, response = render (limits_json l)\<rparr>, w')"
  shows "DataLimit_of W http a w = (Inr \<lparr>Storage = storage_limit l, EmissionPeriod = emission_period l,
    Cellular = \<lparr>CDate = normalized_cell_plan_date l, Defined = (cellular_data_limit l \<noteq> None),
      Limit = (case cellular_data_limit l of Some n \<Rightarrow> n | None \<Rightarrow> 0)\<rparr>\<rparr>, w')"
proof -
  have "wf_json (limits_json l)" by (simp add: limits_json_def ref_json_def split: option.split)
  then have "unmarshal (limits_field W) (render (limits_json l)) no_limits = (l, None)"
    using assms(1)
    by (cases l) (simp add: unmarshal_render, simp add: limits_json_def limits_fit_def decode_struct_def assign_struct_def
        limits_field_def config_field_def storage_field_def data_field_def no_limits_def)
  with assms(2,3) show ?thesis by (simp add: DataLimit_of_def Let_def dataLimit_of_def)
qed

theorem limits_decoded_witness:
  "DataLimit_of 32 (fixed_http 200 (render (limits_json (no_limits\<lparr>storage_limit := Some 5, emission_period := 60\<rparr>)))) sample_api empty_disk =
     (Inr \<lparr>Storage = Some 5, EmissionPeriod = 60, Cellular = \<lparr>CDate = 0, Defined = False, Limit = 0\<rparr>\<rparr>, empty_disk)"
  using limits_decoded [of 32 "no_limits\<lparr>storage_limit := Some 5, emission_period := 60\<rparr>"
      "fixed_http 200 (render (limits_json (no_limits\<lparr>storage_limit := Some 5, emission_period := 60\<rparr>)))" sample_api empty_disk "[]" empty_disk]
  by (simp add: fixed_http_def limits_fit_def no_limits_def fits_def)

end
