(* ===== verification/Mqtt.thy ===== *)
theory Mqtt
  imports Broker Api
begin

text \<open>
  Package \<open>broker\<close>, file \<open>mqtt.go\<close>: the configuration and the connection of the MQTT
  client and the loop that publishes broker messages. The client library is the argument
  \<open>c\<close>: its calls yield a token, and \<open>wait\<close> turns that into the error the token ends with.
\<close>

section \<open>Configuration\<close>

text \<open>The interface \<open>Client\<close>. A published message has a topic, a quality of service, a retain flag and a payload.\<close>

record 'w Client =
  Connect_mqtt :: "'w \<Rightarrow> string option \<times> 'w"
  Publish :: "string \<Rightarrow> nat \<Rightarrow> bool \<Rightarrow> bytes \<Rightarrow> 'w \<Rightarrow> string option \<times> 'w"
  Disconnect :: "nat \<Rightarrow> 'w \<Rightarrow> 'w"

text \<open>The interface \<open>API\<close>, and the options of the client library that the code sets.\<close>

record 'w Backend =
  get_Credentials :: "'w \<Rightarrow> ((api_error + Credentials) \<times> 'w) go"
  get_BrokerAddress :: "'w \<Rightarrow> ((api_error + string) \<times> 'w) go"
  get_Certificates :: "'w \<Rightarrow> ((api_error + bytes) \<times> 'w) go"

record ClientOptions =
  broker_addr :: string
  tls_config :: bytes
  client_id :: string
  provider :: "string \<times> string"

record 'w Config =
  Creds :: Credentials
  Client_of :: "'w Client"

definition NewConfig ::
  "(ClientOptions \<Rightarrow> 'w Client) \<Rightarrow> 'w Backend \<Rightarrow> 'w \<Rightarrow> ((api_error + 'w Config) \<times> 'w) go"
where
  "NewConfig NewClient api w =
     (case get_Credentials api w of
        Panics \<Rightarrow> Panics
      | Returns (Inl err, w1) \<Rightarrow> Returns (Inl err, w1)
      | Returns (Inr creds, w1) \<Rightarrow>
          (case get_BrokerAddress api w1 of
             Panics \<Rightarrow> Panics
           | Returns (Inl err, w2) \<Rightarrow> Returns (Inl err, w2)
           | Returns (Inr addr, w2) \<Rightarrow>
               (case get_Certificates api w2 of
                  Panics \<Rightarrow> Panics
                | Returns (Inl err, w3) \<Rightarrow> Returns (Inl err, w3)
                | Returns (Inr certs, w3) \<Rightarrow>
                    Returns (Inr \<lparr>Creds = creds, Client_of = NewClient \<lparr>broker_addr = addr, tls_config = certs,
                       client_id = ClientID creds, provider = (Username creds, Password creds)\<rparr>\<rparr>, w3))))"

record 'w MQTTProducer =
  client :: "'w Client"
  org :: string
  dev_id :: string

definition NewMQTTProducer :: "'w Config \<Rightarrow> 'w \<Rightarrow> (string + 'w MQTTProducer) \<times> 'w" where
  "NewMQTTProducer cfg w =
     (case Connect_mqtt (Client_of cfg) w of
        (Some err, w') \<Rightarrow> (Inl (''connecting to broker: '' @ err), w')
      | (None, w') \<Rightarrow> (Inr \<lparr>client = Client_of cfg, org = Org (Creds cfg), dev_id = Username (Creds cfg)\<rparr>, w'))"

section \<open>Publishing\<close>

definition topic_of :: "'w MQTTProducer \<Rightarrow> Message \<Rightarrow> string" where
  "topic_of p m = ''c/'' @ Topic m @ ''/'' @ org p @ ''/'' @ dev_id p"

text \<open>One iteration of the loop, and the loop over what the input yields until it is closed. Before each
message the rest of the world may do something, \<open>env\<close>.\<close>

definition publish_one :: "('w, 'h) Fs \<Rightarrow> 'w MQTTProducer \<Rightarrow> Message \<Rightarrow> 'w \<Rightarrow> 'w" where
  "publish_one fs p m w =
     (case Publish (client p) (topic_of p m) 1 False (Bytes m) w of
        (Some err, w') \<Rightarrow> w'
      | (None, w') \<Rightarrow> Remove_message fs m w')"

fun publish_all :: "('w, 'h) Fs \<Rightarrow> 'w MQTTProducer \<Rightarrow> (Message \<times> ('w \<Rightarrow> 'w)) list \<Rightarrow> 'w \<Rightarrow> 'w" where
  "publish_all fs p [] w = w"
| "publish_all fs p ((m, env) # ms) w = publish_all fs p ms (publish_one fs p m (env w))"

definition Serve :: "('w, 'h) Fs \<Rightarrow> 'w MQTTProducer \<Rightarrow> (Message \<times> ('w \<Rightarrow> 'w)) list \<Rightarrow> 'w \<Rightarrow> 'w" where
  "Serve fs p ms w = Disconnect (client p) 0 (publish_all fs p ms w)"

section \<open>What the producer relies on\<close>

text \<open>Steps of the rest of the world that leave the accepted publications and the file \<open>q\<close> alone.\<close>

definition harmless ::
  "('w \<Rightarrow> string \<Rightarrow> bytes option) \<Rightarrow> ('w \<Rightarrow> (string \<times> bytes) list) \<Rightarrow> string \<Rightarrow> ('w \<Rightarrow> 'w) \<Rightarrow> bool"
where
  "harmless content accepted q env \<longleftrightarrow> (\<forall>w. accepted (env w) = accepted w \<and> content (env w) q = content w q)"

text \<open>
  A broker: what it has accepted, \<open>accepted w\<close>, as topics and payloads. Publishing without error is
  accepting; a publication that fails may have been accepted as well. The network does not touch the
  file system, and the file system not the network.
\<close>

locale mqtt_broker = file_system fs content
  for fs :: "('w, 'h) Fs" and content :: "'w \<Rightarrow> string \<Rightarrow> bytes option" +
  fixes c :: "'w Client"
    and accepted :: "'w \<Rightarrow> (string \<times> bytes) list"
  assumes Publish_ok: "Publish c t q r b w = (None, w') \<Longrightarrow> accepted w' = accepted w @ [(t, b)]"
    and Publish_fails: "Publish c t q r b w = (Some e, w') \<Longrightarrow> accepted w' \<in> {accepted w, accepted w @ [(t, b)]}"
    and Publish_content: "content (snd (Publish c t q r b w)) = content w"
    and Disconnect_frame: "accepted (Disconnect c n w) = accepted w \<and> content (Disconnect c n w) = content w"
    and Remove_accepted: "accepted (snd (Remove fs p w)) = accepted w"
begin

lemma Remove_message_accepted: "accepted (Remove_message fs m w) = accepted w"
  by (simp add: Remove_message_def Remove_accepted)

text \<open>One message: its file goes only after its payload has been accepted.\<close>

lemma publish_one_effect:
  assumes "client p = c"
  shows "(accepted (publish_one fs p m w) = accepted w \<or>
      accepted (publish_one fs p m w) = accepted w @ [(topic_of p m, Bytes m)])
    \<and> (content (publish_one fs p m w) q = content w q \<or>
      q = path m \<and> has_fs m \<and> accepted (publish_one fs p m w) = accepted w @ [(topic_of p m, Bytes m)])"
proof -
  obtain e w' where w': "Publish c (topic_of p m) 1 False (Bytes m) w = (e, w')"
    by (cases "Publish c (topic_of p m) 1 False (Bytes m) w")
  have same: "content w' = content w" using Publish_content [of "topic_of p m" 1 False "Bytes m" w] w' by simp
  show ?thesis
  proof (cases e)
    case None
    with w' Publish_ok have acc: "accepted w' = accepted w @ [(topic_of p m, Bytes m)]" by blast
    from Remove_message_content [of m w'] have "content (Remove_message fs m w') q = content w' q
        \<or> q = path m \<and> has_fs m" by (cases "q = path m") auto
    with None w' assms acc same show ?thesis by (auto simp: publish_one_def Remove_message_accepted)
  next
    case (Some err)
    with w' Publish_fails have "accepted w' \<in> {accepted w, accepted w @ [(topic_of p m, Bytes m)]}" by blast
    with Some w' assms same show ?thesis by (auto simp: publish_one_def)
  qed
qed

lemma publish_all_keeps_accepted:
  "client p = c \<Longrightarrow> \<forall>env \<in> snd ` set ms. harmless content accepted q env \<Longrightarrow> x \<in> set (accepted w) \<Longrightarrow>
   x \<in> set (accepted (publish_all fs p ms w))"
proof (induction ms arbitrary: w)
  case Nil
  then show ?case by simp
next
  case (Cons me ms)
  obtain m env where me: "me = (m, env)" by (cases me)
  with Cons.prems have "x \<in> set (accepted (env w))" by (simp add: harmless_def)
  with conjunct1 [OF publish_one_effect [OF Cons.prems(1), of m "env w"]]
  have "x \<in> set (accepted (publish_one fs p m (env w)))" by auto
  with Cons me show ?case by simp
qed

lemma publish_all_file:
  assumes "client p = c" and "\<forall>env \<in> snd ` set ms. harmless content accepted q env"
  shows "content (publish_all fs p ms w) q = content w q \<or>
    (\<exists>m \<in> fst ` set ms. q = path m \<and> has_fs m \<and> (topic_of p m, Bytes m) \<in> set (accepted (publish_all fs p ms w)))"
  using assms(2)
proof (induction ms arbitrary: w)
  case Nil
  then show ?case by simp
next
  case (Cons me ms)
  obtain m env where me: "me = (m, env)" by (cases me)
  let ?w = "publish_one fs p m (env w)"
  from Cons.prems me have env: "content (env w) q = content w q" and rest: "\<forall>env \<in> snd ` set ms. harmless content accepted q env"
    by (auto simp: harmless_def)
  from Cons.IH [OF rest, of ?w] publish_one_effect [OF assms(1), of m "env w" q] env
    publish_all_keeps_accepted [OF assms(1) rest, of "(topic_of p m, Bytes m)" ?w] me
  show ?case by auto
qed

end

text \<open>
  A broker that fails for the topics that \<open>plan\<close> names and keeps a log of what it accepted, beside a disk.
\<close>

definition logging_client :: "(string \<Rightarrow> string option) \<Rightarrow> (disk \<times> (string \<times> bytes) list) Client" where
  "logging_client plan =
     \<lparr>Connect_mqtt = (\<lambda>w. (None, w)),
      Publish = (\<lambda>t q r b w. case plan t of Some e \<Rightarrow> (Some e, w) | None \<Rightarrow> (None, fst w, snd w @ [(t, b)])),
      Disconnect = (\<lambda>n w. w)\<rparr>"

interpretation logger: mqtt_broker "on_fst disk_fs" "\<lambda>w. disk_content (fst w)" "logging_client plan" snd
  by unfold_locales (auto simp: logging_client_def on_fst_def split: option.splits prod.splits)

section \<open>Properties\<close>

text \<open>C21: No stored message is lost in publishing: when the producer has served any sequence of
messages, whatever the rest of the world did to other files in between, a file is as it was, or a
message that lives in it has been accepted by the broker, with its whole payload, under its topic.\<close>

theorem removed_only_when_published:
  assumes "mqtt_broker fs content c accepted" and "client p = c"
    and "\<forall>env \<in> snd ` set ms. harmless content accepted q env"
  shows "content (Serve fs p ms w) q = content w q \<or>
    (\<exists>m \<in> fst ` set ms. q = path m \<and> has_fs m \<and> (topic_of p m, Bytes m) \<in> set (accepted (Serve fs p ms w)))"
  using mqtt_broker.publish_all_file [OF assms, of w] mqtt_broker.Disconnect_frame [OF assms(1)] assms(2)
  by (simp add: Serve_def)

definition sample_producer :: "(disk \<times> (string \<times> bytes) list) MQTTProducer" where
  "sample_producer = \<lparr>client = logging_client (\<lambda>_. None), org = ''org'', dev_id = ''dev''\<rparr>"

lemma client_sample_producer: "client sample_producer = logging_client (\<lambda>_. None)"
  by (simp add: sample_producer_def)

definition stored_sample :: Message where
  "stored_sample = sample\<lparr>path := ''d/7-0'', has_fs := True\<rparr>"

definition stored_disk :: disk where
  "stored_disk = empty_disk\<lparr>files := [(''d/7-0'', marshal_message sample)]\<rparr>"

theorem removed_only_when_published_witness:
  "disk_content (fst (Serve (on_fst disk_fs) sample_producer [(stored_sample, id)] (stored_disk, []))) ''d/7-0'' = None
   \<and> (''c/events/org/dev'', ''abc'') \<in> set (snd (Serve (on_fst disk_fs) sample_producer [(stored_sample, id)] (stored_disk, [])))"
proof -
  let ?w = "Serve (on_fst disk_fs) sample_producer [(stored_sample, id)] (stored_disk, [])"
  have gone: "disk_content (fst ?w) ''d/7-0'' = None" "disk_content stored_disk ''d/7-0'' \<noteq> None"
    and t: "topic_of sample_producer stored_sample = ''c/events/org/dev''" "Bytes stored_sample = ''abc''"
    by code_simp+
  have "harmless (\<lambda>w. disk_content (fst w)) snd ''d/7-0'' id" by (simp add: harmless_def)
  with removed_only_when_published [OF logger.mqtt_broker_axioms client_sample_producer, of "[(stored_sample, id)]"
      "''d/7-0''" "(stored_disk, [])"]
  have "disk_content (fst ?w) ''d/7-0'' = disk_content stored_disk ''d/7-0'' \<or> (''c/events/org/dev'', ''abc'') \<in> set (snd ?w)"
    by (auto simp: t)
  with gone show ?thesis by auto
qed

text \<open>C40: A stored message whose file cannot be read at one moment, or is read when it has been created but not yet written, is lost:
the loader turns the failure into a message with the path of the file, an empty payload and an empty topic; the producer
publishes that, and when the broker accepts it the file, which by then may be sound, is removed.\<close>

theorem unreadable_message_lost:
  assumes "mqtt_broker fs content c accepted" and "client p = c" and "readFile fs q w0 = Inl err \<or> readFile fs q w0 = Inr []"
    and "Publish c (''c//'' @ org p @ ''/'' @ dev_id p) 1 False [] w = (None, w1)"
    and "Remove fs q w1 = (None, w2)"
  shows "publish_one fs p (loadMessage fs q w0) w = w2 \<and> content w2 q = None
    \<and> accepted w2 = accepted w @ [(''c//'' @ org p @ ''/'' @ dev_id p, [])]"
proof -
  have fs: "file_system fs content" using assms(1) by (simp add: mqtt_broker_def)
  have "parse [] = None" by code_simp
  then have "unmarshal message_field [] m = (m, Some Json_syntax)" for m by (simp add: unmarshal_def)
  then have "\<exists>err. loadMessage fs q w0 = empty_message\<lparr>path := q, has_fs := True, Error := err\<rparr>"
    using assms(3) by (auto simp: loadMessage_def file_message_def Let_def)
  then obtain e where m: "loadMessage fs q w0 = empty_message\<lparr>path := q, has_fs := True, Error := e\<rparr>" by blast
  have "content w2 q = None" using file_system.Remove_removes [OF fs assms(5)] by simp
  moreover have "accepted w2 = accepted w @ [(''c//'' @ org p @ ''/'' @ dev_id p, [])]"
    using mqtt_broker.Remove_accepted [OF assms(1), of q w1] mqtt_broker.Publish_ok [OF assms(1,4)] assms(5) by simp
  ultimately show ?thesis
    using assms(2,4,5) by (simp add: publish_one_def m topic_of_def empty_message_def Remove_message_def)
qed

definition faulty_world :: "disk \<times> (string \<times> bytes) list" where
  "faulty_world = (stored_disk\<lparr>fault := (\<lambda>k _. if k = C_Open then Some ''EMFILE'' else None)\<rparr>, [])"

theorem unreadable_message_lost_witness:
  "disk_content (fst faulty_world) ''d/7-0'' = Some (marshal_message sample)
   \<and> disk_content (fst (publish_one (on_fst disk_fs) sample_producer (loadMessage (on_fst disk_fs) ''d/7-0'' faulty_world)
       faulty_world)) ''d/7-0'' = None"
proof -
  let ?t = "''c//'' @ org sample_producer @ ''/'' @ dev_id sample_producer"
  have r: "readFile (on_fst disk_fs) ''d/7-0'' faulty_world = Inl ''EMFILE''"
    by (simp add: readFile_def on_fst_def disk_fs_def faulty_world_def)
  have p: "Publish (logging_client (\<lambda>_. None)) ?t 1 False [] faulty_world = (None, fst faulty_world, [(?t, [])])"
    by (simp add: logging_client_def faulty_world_def)
  have "Remove (on_fst disk_fs) ''d/7-0'' (fst faulty_world, [(?t, [])]) = (None, (fst faulty_world)\<lparr>files := []\<rparr>, [(?t, [])])"
    by (simp add: on_fst_def disk_fs_def stored_disk_def faulty_world_def)
  from unreadable_message_lost [OF logger.mqtt_broker_axioms client_sample_producer disjI1 [OF r] p this] show ?thesis
    by (simp add: faulty_world_def stored_disk_def disk_content_def)
qed

end
