(* ===== verification/GoTime.thy ===== *)
theory GoTime
  imports Prelude
begin

text \<open>
  What the client uses of Go's \<open>time\<close> package: instants with a nanosecond part and a
  location, \<open>time.Date\<close>, \<open>Time.AddDate\<close>, \<open>Time.Before\<close>,
  \<open>time.Until\<close> and the civil calendar they rest on. Days are counted from 1 January of
  year 1, as in Go. A location is the zone table the system provides: \<open>lookup\<close> gives, for
  an instant, the offset in use and the interval in which it is in use. The package is Go's
  library and not part of the client, so nothing here is mapped; the theorems about the data
  limiter's period boundaries rest on it.
\<close>

section \<open>The civil calendar\<close>

definition leap :: "int \<Rightarrow> bool" where
  "leap y \<longleftrightarrow> y mod 4 = 0 \<and> (y mod 100 \<noteq> 0 \<or> y mod 400 = 0)"

definition days_before_year :: "int \<Rightarrow> int" where
  "days_before_year y = (let p = y - 1 in 365 * p + p div 4 - p div 100 + p div 400)"

text \<open>Months are numbered from 0 here (\<open>m\<close> is Go's \<open>int(month) - 1\<close>).\<close>

definition days_before_month :: "bool \<Rightarrow> int \<Rightarrow> int" where
  "days_before_month lp m =
     (if m \<le> 0 then 0 else if m = 1 then 31
      else [0, 31, 59, 90, 120, 151, 181, 212, 243, 273, 304, 334] ! nat (min 11 m)
        + (if lp then 1 else 0))"

definition month_len :: "bool \<Rightarrow> int \<Rightarrow> int" where
  "month_len lp m = (if m = 1 then (if lp then 29 else 28)
                     else if m \<in> {3, 5, 8, 10} then 30 else 31)"

text \<open>The day number of a date; month and day may be out of range, as in \<open>time.Date\<close>.\<close>

definition day_number :: "int \<Rightarrow> int \<Rightarrow> int \<Rightarrow> int" where
  "day_number year month day =
     (let y = year + (month - 1) div 12; m = (month - 1) mod 12
      in days_before_year y + days_before_month (leap y) m + (day - 1))"

definition year_of :: "int \<Rightarrow> int" where
  "year_of n =
     (let n400 = n div 146097; d = n mod 146097;
          n100 = min 3 (d div 36524); d = d - 36524 * n100;
          n4 = d div 1461; d = d - 1461 * n4;
          n1 = min 3 (d div 365)
      in 400 * n400 + 100 * n100 + 4 * n4 + n1 + 1)"

definition month_of :: "bool \<Rightarrow> int \<Rightarrow> int" where
  "month_of lp yday =
     (if yday < days_before_month lp 1 then 0 else
      if yday < days_before_month lp 2 then 1 else
      if yday < days_before_month lp 3 then 2 else
      if yday < days_before_month lp 4 then 3 else
      if yday < days_before_month lp 5 then 4 else
      if yday < days_before_month lp 6 then 5 else
      if yday < days_before_month lp 7 then 6 else
      if yday < days_before_month lp 8 then 7 else
      if yday < days_before_month lp 9 then 8 else
      if yday < days_before_month lp 10 then 9 else
      if yday < days_before_month lp 11 then 10 else 11)"

text \<open>Year, month (1 to 12) and day (from 1) of a day number.\<close>

definition civil :: "int \<Rightarrow> int \<times> int \<times> int" where
  "civil n =
     (let y = year_of n; yday = n - days_before_year y; m = month_of (leap y) yday
      in (y, m + 1, yday - days_before_month (leap y) m + 1))"

lemma div_pred:
  assumes "0 < (k::int)"
  shows "(y - 1) div k = y div k - (if y mod k = 0 then 1 else 0)"
proof (cases "y mod k = 0")
  case True
  then have "y - 1 = k * (y div k - 1) + (k - 1)"
    using mult_div_mod_eq [of k y] by (simp add: algebra_simps)
  then have "(y - 1) div k = y div k - 1"
    by (rule int_div_pos_eq) (use assms in auto)
  with True show ?thesis by simp
next
  case False
  have "y - 1 = k * (y div k) + (y mod k - 1)" by (simp add: algebra_simps)
  moreover have "0 \<le> y mod k - 1" "y mod k - 1 < k"
    using assms False pos_mod_sign [of k y] pos_mod_bound [of k y] by linarith+
  ultimately have "(y - 1) div k = y div k" by (rule int_div_pos_eq)
  with False show ?thesis by simp
qed

lemma leap_count:
  fixes x :: int
  assumes "x = 365 + (if A then 1 else 0) - (if B then 1 else 0) + (if C then 1 else 0)"
    and "C \<Longrightarrow> B" and "B \<Longrightarrow> A"
  shows "x = (if A \<and> (\<not> B \<or> C) then 366 else 365)"
  using assms by (cases A; cases B; cases C) simp_all

lemma year_len: "days_before_year (y + 1) - days_before_year y = (if leap y then 366 else 365)"
proof -
  have m400: "y mod 400 = 0 \<Longrightarrow> y mod 100 = 0" and m100: "y mod 100 = 0 \<Longrightarrow> y mod 4 = 0"
    using dvd_trans [of 100 400 y] dvd_trans [of 4 100 y] by (simp_all add: mod_eq_0_iff_dvd)
  have "days_before_year (y + 1) - days_before_year y =
      365 + (y div 4 - (y - 1) div 4) - (y div 100 - (y - 1) div 100) + (y div 400 - (y - 1) div 400)"
    by (simp only: days_before_year_def Let_def) simp
  also have "\<dots> = 365 + (if y mod 4 = 0 then 1 else 0) - (if y mod 100 = 0 then 1 else 0)
      + (if y mod 400 = 0 then 1 else 0)"
    by (simp only: div_pred zero_less_numeral)
  finally show ?thesis
    unfolding leap_def by (rule leap_count [OF _ m400 m100])
qed

lemma year_of_bounds:
  "days_before_year (year_of n) \<le> n" "n < days_before_year (year_of n + 1)"
proof -
  define a where "a = n div 146097"
  define d where "d = n mod 146097"
  define b where "b = min 3 (d div 36524)"
  define e where "e = d - 36524 * b"
  define c where "c = e div 1461"
  define f where "f = e - 1461 * c"
  define g where "g = min 3 (f div 365)"
  have n: "n = 146097 * a + 36524 * b + 1461 * c + f"
    by (simp add: a_def d_def e_def f_def)
  have d: "0 \<le> d" "d < 146097" by (simp_all add: d_def)
  have b: "0 \<le> b" "b \<le> 3" using d by (simp_all add: b_def pos_imp_zdiv_nonneg_iff)
  have e: "0 \<le> e" "e < 36524 + (if b = 3 then 1 else 0)"
    using d unfolding e_def b_def by (simp_all add: min_def) linarith+
  have c: "0 \<le> c" "c \<le> 24" using e unfolding c_def
    by (simp add: pos_imp_zdiv_nonneg_iff) (use e in \<open>auto split: if_splits\<close>)
  have f: "0 \<le> f" "f < 1461" by (simp_all add: f_def c_def minus_mult_div_eq_mod)
  have f24: "c = 24 \<Longrightarrow> b \<noteq> 3 \<Longrightarrow> f < 1460"
    using e by (simp add: f_def)
  have g: "0 \<le> g" "g \<le> 3" using f by (simp_all add: g_def pos_imp_zdiv_nonneg_iff)
  have q: "365 * (f div 365) \<le> f" "f < 365 * (f div 365) + 365" by linarith+
  have fg1: "365 * g \<le> f" using q(1) unfolding g_def by linarith
  have fg2: "f < 365 * g + 365" if "g < 3"
  proof -
    from that have "g = f div 365" by (simp add: g_def min_def split: if_splits)
    with q(2) show ?thesis by simp
  qed
  define p where "p = 400 * a + 100 * b + 4 * c + g"
  have p4: "p div 4 = 100 * a + 25 * b + c" using g unfolding p_def by linarith
  have p100: "p div 100 = 4 * a + b" using c g unfolding p_def by linarith
  have p400: "p div 400 = a" using b c g unfolding p_def by linarith
  have y: "year_of n = p + 1"
    unfolding year_of_def Let_def p_def g_def f_def c_def e_def b_def d_def a_def by (rule refl)
  have start: "days_before_year (p + 1) = 146097 * a + 36524 * b + 1461 * c + 365 * g"
    by (simp add: days_before_year_def Let_def p4 p100 p400) (simp add: p_def)
  show "days_before_year (year_of n) \<le> n"
    using fg1 start unfolding y by (simp add: n)
  have "leap (p + 1)" if "g = 3" "f = 1460"
  proof -
    from that c f24 b have cb: "c < 24 \<or> b = 3" by (cases "c = 24") auto
    have "p + 1 = 4 * (100 * a + 25 * b + c + 1)"
      using that by (simp add: p_def)
    moreover have "(p + 1) mod 100 = 0 \<longrightarrow> (p + 1) mod 400 = 0"
    proof
      assume "(p + 1) mod 100 = 0"
      moreover have "p + 1 = 4 * (c + 1) + 100 * (4 * a + b)"
        using that by (simp add: p_def)
      ultimately have "(4 * (c + 1)) mod 100 = 0" by (simp only: mod_mult_self2)
      moreover have "(4 * (c + 1)) mod 100 = 4 * (c + 1)" if "c < 24"
        using that c by (intro mod_pos_pos_trivial) auto
      ultimately have "c = 24" using c by fastforce
      with cb have "b = 3" by simp
      with that \<open>c = 24\<close> have "p + 1 = 0 + 400 * (a + 1)" by (simp add: p_def)
      then show "(p + 1) mod 400 = 0" by (simp only: mod_mult_self2) simp
    qed
    ultimately show ?thesis by (auto simp: leap_def)
  qed
  then have "f < 365 * g + (if leap (p + 1) then 366 else 365)"
    using f fg1 fg2 g by (cases "g = 3"; cases "f = 1460") auto
  then show "n < days_before_year (year_of n + 1)"
    using year_len [of "p + 1"] start unfolding y by (simp add: n split: if_splits)
qed

text \<open>Months within a year, by evaluation over the twelve of them.\<close>

lemma days_before_month_Suc:
  "0 \<le> m \<Longrightarrow> m < 11 \<Longrightarrow> days_before_month lp (m + 1) = days_before_month lp m + month_len lp m"
proof -
  assume "0 \<le> m" and "m < 11"
  then have "m \<in> {0, 1, 2, 3, 4, 5, 6, 7, 8, 9, 10}" by simp presburger
  then show ?thesis by (auto simp: days_before_month_def month_len_def)
qed

lemma month_len_bounds: "28 \<le> month_len lp m" "month_len lp m \<le> 31"
  by (auto simp: month_len_def)

lemma days_before_month_0 [simp]: "days_before_month lp 0 = 0"
  by (simp add: days_before_month_def)

lemma year_len_months:
  "days_before_year (y + 1) = days_before_year y + days_before_month (leap y) 11 + month_len (leap y) 11"
  using year_len [of y] by (simp add: days_before_month_def month_len_def split: if_splits)

text \<open>Going one month forward, day and clock kept, adds the length of the month left.\<close>

lemma day_number_next_month:
  "1 \<le> m \<Longrightarrow> m \<le> 12 \<Longrightarrow>
   day_number y (m + 1) d = day_number y m d + month_len (leap y) (m - 1)"
proof (cases "m = 12")
  case True
  then show ?thesis by (simp add: day_number_def Let_def year_len_months)
next
  case False
  assume "1 \<le> m" "m \<le> 12"
  with False have "m div 12 = 0" "m mod 12 = m" "(m - 1) div 12 = 0" "(m - 1) mod 12 = m - 1"
    by auto
  with \<open>1 \<le> m\<close> \<open>m \<le> 12\<close> False show ?thesis
    using days_before_month_Suc [of "m - 1" "leap y"] by (simp add: day_number_def Let_def)
qed

lemma month_of_range: "0 \<le> month_of lp yd" "month_of lp yd \<le> 11"
  by (auto simp: month_of_def)

lemma month_of_bounds:
  assumes "0 \<le> yd"
  shows "days_before_month lp (month_of lp yd) \<le> yd"
    and "month_of lp yd < 11 \<Longrightarrow> yd < days_before_month lp (month_of lp yd + 1)"
  using assms by (auto simp: month_of_def split: if_splits)

text \<open>A date out of \<open>civil\<close> names the day it came from, and its month is in range.\<close>

lemma civil_month: "civil n = (y, m, d) \<Longrightarrow> 1 \<le> m \<and> m \<le> 12"
  using month_of_range by (auto simp: civil_def Let_def)

lemma day_number_civil:
  assumes "civil n = (y, m, d)"
  shows "day_number y m d = n"
proof -
  have m: "1 \<le> m" "m \<le> 12" using civil_month [OF assms] by auto
  then have "(m - 1) div 12 = 0" "(m - 1) mod 12 = m - 1" by auto
  with assms show ?thesis
    by (auto simp: civil_def day_number_def Let_def)
qed

lemma days_before_year_less: "y < z \<Longrightarrow> days_before_year y < days_before_year z"
proof (induction z rule: int_gr_induct)
  case base
  then show ?case using year_len [of y] by (simp split: if_splits)
next
  case (step z)
  then show ?case using year_len [of z] by (simp split: if_splits)
qed

lemma year_of_unique:
  assumes "days_before_year y \<le> n" and "n < days_before_year (y + 1)"
  shows "year_of n = y"
proof (rule ccontr)
  assume "year_of n \<noteq> y"
  then consider "year_of n + 1 \<le> y" | "y + 1 \<le> year_of n" by linarith
  then show False
  proof cases
    case 1
    then have "days_before_year (year_of n + 1) \<le> days_before_year y"
      using days_before_year_less by (cases "year_of n + 1 = y") (auto simp: less_imp_le)
    with assms year_of_bounds [of n] show False by linarith
  next
    case 2
    then have "days_before_year (y + 1) \<le> days_before_year (year_of n)"
      using days_before_year_less by (cases "y + 1 = year_of n") (auto simp: less_imp_le)
    with assms year_of_bounds [of n] show False by linarith
  qed
qed

lemma month_of_unique:
  assumes "0 \<le> m" "m \<le> 11" "days_before_month lp m \<le> yd" "yd < days_before_month lp m + month_len lp m"
  shows "month_of lp yd = m"
proof -
  from assms(1,2) have "m \<in> {0, 1, 2, 3, 4, 5, 6, 7, 8, 9, 10, 11}" by simp presburger
  with assms(3,4) show ?thesis
    by (cases lp) (auto simp: month_of_def days_before_month_def month_len_def)
qed

lemma days_before_month_range:
  assumes "0 \<le> m" "m \<le> 11"
  shows "0 \<le> days_before_month lp m"
    and "days_before_month lp m + month_len lp m \<le> days_before_month lp 11 + month_len lp 11"
proof -
  from assms have "m \<in> {0, 1, 2, 3, 4, 5, 6, 7, 8, 9, 10, 11}" by simp presburger
  then show "0 \<le> days_before_month lp m"
    and "days_before_month lp m + month_len lp m \<le> days_before_month lp 11 + month_len lp 11"
    by (auto simp: days_before_month_def month_len_def)
qed

text \<open>A well formed date is what \<open>civil\<close> reads back from its day number.\<close>

lemma civil_day_number:
  assumes "1 \<le> m" "m \<le> 12" "1 \<le> d" "d \<le> month_len (leap y) (m - 1)"
  shows "civil (day_number y m d) = (y, m, d)"
proof -
  from assms have "(m - 1) div 12 = 0" "(m - 1) mod 12 = m - 1" by auto
  then have n: "day_number y m d = days_before_year y + days_before_month (leap y) (m - 1) + (d - 1)"
    by (simp add: day_number_def Let_def)
  from assms have r: "0 \<le> m - 1" "m - 1 \<le> 11" by auto
  have y: "year_of (day_number y m d) = y"
    using days_before_month_range [OF r, of "leap y"] assms year_len_months [of y]
    by (intro year_of_unique) (simp_all add: n)
  have "month_of (leap y) (days_before_month (leap y) (m - 1) + (d - 1)) = m - 1"
    using r assms by (intro month_of_unique) auto
  then show ?thesis by (simp add: civil_def Let_def n y [unfolded n])
qed

section \<open>Instants and locations\<close>

text \<open>
  A location gives for every instant (in seconds since the start of year 1, UTC) the offset in
  use, and the first and the last but one second of the interval it is in use. An instant is a
  number of nanoseconds since the start of year 1: Go's zero \<open>Time\<close> is \<open>0\<close>.
\<close>

type_synonym location = "int \<Rightarrow> int \<times> int \<times> int"

record gotime =
  ns :: int
  loc :: location

abbreviation second :: int where
  "second \<equiv> 1000000000"

abbreviation day_secs :: int where
  "day_secs \<equiv> 86400"

definition UTC :: location where
  "UTC = (\<lambda>_. (0, 0, 0))"

definition offset_at :: "location \<Rightarrow> int \<Rightarrow> int" where
  "offset_at l s = fst (l s)"

definition zero_time :: gotime where
  "zero_time = \<lparr>ns = 0, loc = UTC\<rparr>"

definition local_secs :: "gotime \<Rightarrow> int" where
  "local_secs t = ns t div second + offset_at (loc t) (ns t div second)"

definition date_of :: "gotime \<Rightarrow> int \<times> int \<times> int" where
  "date_of t = civil (local_secs t div day_secs)"

text \<open>\<open>time.Date\<close>; the clock is given in seconds from midnight.\<close>

definition Date :: "int \<Rightarrow> int \<Rightarrow> int \<Rightarrow> int \<Rightarrow> int \<Rightarrow> location \<Rightarrow> gotime" where
  "Date year month day clock nsec l =
     (let s = day_number year month day * day_secs + clock;
          (off, start, stop) = l s;
          utc = s - off;
          off' = (if off = 0 then 0 else if utc < start then offset_at l (start - 1)
                  else if stop \<le> utc then offset_at l stop else off)
      in \<lparr>ns = (s - off') * second + nsec, loc = l\<rparr>)"

definition AddDate :: "gotime \<Rightarrow> int \<Rightarrow> int \<Rightarrow> int \<Rightarrow> gotime" where
  "AddDate t years months days =
     (case date_of t of (year, month, day) \<Rightarrow>
        Date (year + years) (month + months) (day + days) (local_secs t mod day_secs)
          (ns t mod second) (loc t))"

definition Before :: "gotime \<Rightarrow> gotime \<Rightarrow> bool" where
  "Before t u \<longleftrightarrow> ns t < ns u"

text \<open>\<open>t.Sub(u)\<close> saturates at the bounds of an \<open>int64\<close>; \<open>Until t = t.Sub(now)\<close>.\<close>

definition Until :: "gotime \<Rightarrow> gotime \<Rightarrow> int" where
  "Until t now = max (- (2 ^ 63)) (min (2 ^ 63 - 1) (ns t - ns now))"

text \<open>What is asked of a zone table: offsets of at most a day. Real ones stay within 15 hours.\<close>

definition zone_ok :: "location \<Rightarrow> bool" where
  "zone_ok l \<longleftrightarrow> (\<forall>s. - day_secs \<le> offset_at l s \<and> offset_at l s \<le> day_secs)"

definition fixed_zone :: "location \<Rightarrow> int \<Rightarrow> bool" where
  "fixed_zone l off \<longleftrightarrow> (\<forall>s. offset_at l s = off)"

lemma zone_ok_UTC [simp]: "zone_ok UTC"
  by (simp add: zone_ok_def UTC_def offset_at_def)

lemma fixed_zone_UTC [simp]: "fixed_zone UTC 0"
  by (simp add: fixed_zone_def UTC_def offset_at_def)

lemma loc_Date [simp]: "loc (Date y m d c n l) = l"
  by (simp add: Date_def Let_def split: prod.split)

lemma loc_AddDate [simp]: "loc (AddDate t y m d) = loc t"
  by (simp add: AddDate_def split: prod.split)

text \<open>
  The instant of a date differs from its reading as UTC by an offset of the zone: the one fact
  about \<open>time.Date\<close> that holds whatever the zone does around the instant.
\<close>

lemma ns_Date:
  assumes "zone_ok l"
  obtains off where "ns (Date y m d c n l) = (day_number y m d * day_secs + c - off) * second + n"
    and "- day_secs \<le> off" and "off \<le> day_secs"
proof -
  define s where "s = day_number y m d * day_secs + c"
  obtain o1 a b where l: "l s = (o1, a, b)" by (cases "l s")
  then have o1: "o1 = offset_at l s" by (simp add: offset_at_def)
  define off where "off = (if o1 = 0 then 0 else if s - o1 < a then offset_at l (a - 1)
    else if b \<le> s - o1 then offset_at l b else o1)"
  have "ns (Date y m d c n l) = (s - off) * second + n"
    unfolding Date_def Let_def s_def [symmetric] l by (simp add: off_def)
  moreover have "- day_secs \<le> off \<and> off \<le> day_secs"
    using assms by (simp add: off_def zone_ok_def o1)
  ultimately show ?thesis using that s_def by blast
qed

lemma ns_Date_fixed:
  assumes "fixed_zone l off"
  shows "ns (Date y m d c n l) = (day_number y m d * day_secs + c - off) * second + n"
proof -
  define s where "s = day_number y m d * day_secs + c"
  obtain o1 a b where l: "l s = (o1, a, b)" by (cases "l s")
  with assms have "o1 = off" by (metis fixed_zone_def fst_conv offset_at_def)
  with assms l show ?thesis
    unfolding Date_def Let_def s_def [symmetric] l by (auto simp: fixed_zone_def)
qed

section \<open>One month forward\<close>

lemma local_secs_ns:
  "ns t = (local_secs t - offset_at (loc t) (ns t div second)) * second + ns t mod second"
  by (simp add: local_secs_def)

lemma AddDate_month:
  assumes "date_of t = (y, m, d)"
  shows "AddDate t 0 1 0 =
    Date y (m + 1) d (local_secs t mod day_secs) (ns t mod second) (loc t)"
    and "day_number y (m + 1) d * day_secs + local_secs t mod day_secs =
      local_secs t + month_len (leap y) (m - 1) * day_secs"
proof -
  show "AddDate t 0 1 0 =
      Date y (m + 1) d (local_secs t mod day_secs) (ns t mod second) (loc t)"
    using assms by (simp add: AddDate_def)
  have c: "civil (local_secs t div day_secs) = (y, m, d)"
    using assms by (simp add: date_of_def)
  show "day_number y (m + 1) d * day_secs + local_secs t mod day_secs =
      local_secs t + month_len (leap y) (m - 1) * day_secs"
    using civil_month [OF c] day_number_civil [OF c]
    by (simp add: day_number_next_month distrib_right)
qed

lemma month_arith:
  fixes L :: int
  assumes "t = (L - o1) * second + r" and "t' = (L + ml * day_secs - o2) * second + r"
    and "- day_secs \<le> o1" "o1 \<le> day_secs" "- day_secs \<le> o2" "o2 \<le> day_secs" "28 \<le> ml" "ml \<le> 31"
  shows "t + 26 * day_secs * second \<le> t'" and "t' \<le> t + 33 * day_secs * second"
  using assms by (simp_all add: algebra_simps)

theorem AddDate_month_bounds:
  assumes "zone_ok (loc t)"
  shows "ns t + 26 * day_secs * second \<le> ns (AddDate t 0 1 0)"
    and "ns (AddDate t 0 1 0) \<le> ns t + 33 * day_secs * second"
proof -
  obtain y m d where date: "date_of t = (y, m, d)" by (cases "date_of t")
  note month = AddDate_month [OF date]
  let ?c = "local_secs t mod day_secs" and ?n = "ns t mod second"
  obtain off where "ns (Date y (m + 1) d ?c ?n (loc t)) =
      (day_number y (m + 1) d * day_secs + ?c - off) * second + ?n"
    and off: "- day_secs \<le> off" "off \<le> day_secs"
    by (rule ns_Date [OF assms])
  then have new: "ns (AddDate t 0 1 0) =
      (local_secs t + month_len (leap y) (m - 1) * day_secs - off) * second + ?n"
    by (simp only: month)
  have old: "- day_secs \<le> offset_at (loc t) (ns t div second)"
      "offset_at (loc t) (ns t div second) \<le> day_secs"
    using assms by (simp_all add: zone_ok_def)
  note len = month_len_bounds [of "leap y" "m - 1"]
  note arith = month_arith [OF local_secs_ns [of t] new old off len]
  show "ns t + 26 * day_secs * second \<le> ns (AddDate t 0 1 0)" by (rule arith(1))
  show "ns (AddDate t 0 1 0) \<le> ns t + 33 * day_secs * second" by (rule arith(2))
qed

text \<open>
  In a zone without transitions, a date within the first 28 days of a month keeps its day and
  its clock.
\<close>

lemma date_of_Date_fixed:
  assumes "fixed_zone l off" "1 \<le> m" "m \<le> 12" "1 \<le> d" "d \<le> month_len (leap y) (m - 1)"
    and "0 \<le> c" "c < day_secs" "0 \<le> n" "n < second"
  shows "date_of (Date y m d c n l) = (y, m, d)" and "local_secs (Date y m d c n l) mod day_secs = c"
proof -
  have n: "ns (Date y m d c n l) div second = day_number y m d * day_secs + c - off"
    unfolding ns_Date_fixed [OF assms(1)] by (rule div_mult_add) (use assms in auto)
  have "local_secs (Date y m d c n l) = day_number y m d * day_secs + c"
    using assms(1) by (simp add: local_secs_def n fixed_zone_def)
  moreover have "(day_number y m d * day_secs + c) div day_secs = day_number y m d"
      "(day_number y m d * day_secs + c) mod day_secs = c"
    by (rule div_mult_add; use assms(6,7) in simp)+
  ultimately show "date_of (Date y m d c n l) = (y, m, d)"
      and "local_secs (Date y m d c n l) mod day_secs = c"
    using civil_day_number [OF assms(2-5)] by (simp_all add: date_of_def)
qed

definition next_month :: "int \<Rightarrow> int \<Rightarrow> int \<times> int" where
  "next_month y m = (if m = 12 then (y + 1, 1) else (y, m + 1))"

lemma day_number_month_13: "day_number y 13 d = day_number (y + 1) 1 d"
  by (simp add: day_number_def Let_def)

lemma Date_next_month:
  "next_month y m = (y', m') \<Longrightarrow> Date y (m + 1) d c n l = Date y' m' d c n l"
  by (auto simp: next_month_def Date_def day_number_month_13 split: if_splits)

lemma AddDate_month_day:
  assumes "fixed_zone (loc t) off" "date_of t = (y, m, d)" "1 \<le> d" "d \<le> 28"
    and "next_month y m = (y', m')"
  shows "date_of (AddDate t 0 1 0) = (y', m', d)"
    and "local_secs (AddDate t 0 1 0) mod day_secs = local_secs t mod day_secs"
proof -
  have c: "civil (local_secs t div day_secs) = (y, m, d)"
    using assms(2) by (simp add: date_of_def)
  have m': "1 \<le> m'" "m' \<le> 12"
    using assms(5) civil_month [OF c] by (auto simp: next_month_def split: if_splits)
  have len: "d \<le> month_len (leap y') (m' - 1)"
    using assms(4) month_len_bounds [of "leap y'" "m' - 1"] by linarith
  have eq: "AddDate t 0 1 0 = Date y' m' d (local_secs t mod day_secs) (ns t mod second) (loc t)"
    using AddDate_month(1) [OF assms(2)] Date_next_month [OF assms(5)] by simp
  show "date_of (AddDate t 0 1 0) = (y', m', d)"
    unfolding eq using assms(1,3) m' len by (intro date_of_Date_fixed) simp_all
  show "local_secs (AddDate t 0 1 0) mod day_secs = local_secs t mod day_secs"
    unfolding eq using assms(1,3) m' len by (intro date_of_Date_fixed) simp_all
qed

lemma civil_day:
  assumes "civil n = (y, m, d)"
  shows "1 \<le> d" and "d \<le> month_len (leap y) (m - 1)"
proof -
  define yd where "yd = n - days_before_year (year_of n)"
  define lp where "lp = leap (year_of n)"
  define mo where "mo = month_of lp yd"
  have yd: "0 \<le> yd" "yd < days_before_month lp 11 + month_len lp 11"
    using year_of_bounds [of n] year_len_months [of "year_of n"] by (simp_all add: yd_def lp_def)
  have eq: "y = year_of n" "m = mo + 1" "d = yd - days_before_month lp mo + 1"
    using assms by (auto simp: civil_def Let_def mo_def yd_def lp_def)
  have mo: "0 \<le> mo" "mo \<le> 11" by (simp_all add: mo_def month_of_range)
  show "1 \<le> d" using month_of_bounds(1) [OF yd(1), of lp] by (simp add: eq mo_def)
  have "yd < days_before_month lp mo + month_len lp mo"
  proof (cases "mo < 11")
    case True
    with month_of_bounds(2) [OF yd(1), of lp] have "yd < days_before_month lp (mo + 1)"
      by (simp add: mo_def)
    with days_before_month_Suc [OF mo(1) True, of lp] show ?thesis by simp
  next
    case False
    with mo(2) have "mo = 11" by simp
    with yd(2) show ?thesis by simp
  qed
  then show "d \<le> month_len (leap y) (m - 1)"
    by (simp add: eq lp_def [symmetric])
qed

text \<open>In a zone without transitions, the first midnight of next month is after any time of this one.\<close>

lemma local_secs_less_next_month:
  assumes "date_of t = (y, m, d)"
  shows "local_secs t < day_number y (m + 1) 1 * day_secs"
proof -
  have c: "civil (local_secs t div day_secs) = (y, m, d)"
    using assms by (simp add: date_of_def)
  have "day_number y m d = day_number y m 1 + (d - 1)" by (simp add: day_number_def Let_def)
  with day_number_civil [OF c] civil_day [OF c] civil_month [OF c]
  have "local_secs t div day_secs + 1 \<le> day_number y (m + 1) 1"
    by (simp add: day_number_next_month)
  then show ?thesis by linarith
qed

end
