(* ===== verification/Limiter.thy ===== *)
theory Limiter
  imports Broker Api GoTime
begin

text \<open>
  Package \<open>message\<close>, file \<open>limiter.go\<close>: the data limiter, a state machine that passes
  broker messages through while the period's budget lasts. One iteration of \<open>serve\<close> is
  \<open>lim_step\<close>; its input is the time and, in the two states that wait, the case that
  \<open>select\<close> took. \<open>None\<close> means that the state cannot take that input, or that the
  iteration does not return. \<open>W\<close> is the width of Go's \<open>int\<close> (32 or 64).
\<close>

section \<open>Data\<close>

text \<open>
  The fields that are saved and the timer: \<open>periodTimer\<close> is the instant from which its
  channel delivers, until it has delivered.
\<close>

record DataLimiter =
  Budget :: int
  HasBudget :: bool
  Count :: int
  PeriodEnd :: gotime
  periodTimer :: "int option"

text \<open>The interface \<open>Persistor\<close>: saving and loading an object in a world \<open>'w\<close>.\<close>

record ('o, 'w) Store =
  Save :: "'o \<Rightarrow> 'w \<Rightarrow> string option \<times> 'w"
  Load :: "'o \<Rightarrow> 'w \<Rightarrow> 'o \<times> string option \<times> 'w"

datatype lstate = Terminal | Initial | UnderBudget | OverBudget | Cleanup

section \<open>Periods\<close>

partial_function (option) ensureFuture :: "gotime \<Rightarrow> gotime \<Rightarrow> gotime option" where
  "ensureFuture periodEnd now =
     (if Before periodEnd now then ensureFuture (AddDate periodEnd 0 1 0) now else Some periodEnd)"

definition dayThisMonth :: "int \<Rightarrow> gotime \<Rightarrow> gotime" where
  "dayThisMonth dayOfMonth now =
     (case date_of now of (year, month, _) \<Rightarrow> Date year month dayOfMonth 0 0 (loc now))"

declare ensureFuture.simps [code]

section \<open>Operations\<close>

definition setBudget :: "nat \<Rightarrow> int \<Rightarrow> bool \<Rightarrow> DataLimiter \<Rightarrow> DataLimiter" where
  "setBudget W megabytes hasBudget l =
     l\<lparr>Budget := swrap W (1000000 * megabytes), HasBudget := hasBudget\<rparr>"

definition reset :: "(DataLimiter, 'w) Store \<Rightarrow> DataLimiter \<Rightarrow> 'w \<Rightarrow> string option \<times> DataLimiter \<times> 'w" where
  "reset store l w =
     (let l' = l\<lparr>Count := 0\<rparr> in case Save store l' w of (err, w') \<Rightarrow> (err, l', w'))"

definition increment ::
  "nat \<Rightarrow> (DataLimiter, 'w) Store \<Rightarrow> int \<Rightarrow> DataLimiter \<Rightarrow> 'w \<Rightarrow> string option \<times> DataLimiter \<times> 'w"
where
  "increment W store n l w =
     (let l' = l\<lparr>Count := swrap W (Count l + n)\<rparr>
      in case Save store l' w of (err, w') \<Rightarrow> (err, l', w'))"

definition startThisPeriod ::
  "(DataLimiter, 'w) Store \<Rightarrow> gotime \<Rightarrow> DataLimiter \<Rightarrow> 'w \<Rightarrow> (DataLimiter \<times> 'w) option"
where
  "startThisPeriod store now l w =
     map_option (\<lambda>t. snd (reset store (l\<lparr>PeriodEnd := t\<rparr>) w)) (ensureFuture (PeriodEnd l) now)"

text \<open>90 percent of the budget, in \<open>W\<close> bit arithmetic.\<close>

definition ninetyPercent :: "nat \<Rightarrow> DataLimiter \<Rightarrow> int" where
  "ninetyPercent W l = swrap W (9 * Budget l) sdiv 10"

text \<open>
  The state functions. \<open>'w lconf\<close> is the state of \<open>serve\<close>: the next state function, the
  limiter, the world its store lives in, and what has happened on the output channel.
\<close>

record 'w lconf =
  st :: lstate
  lim :: DataLimiter
  world :: 'w
  sent :: "Message list"
  out_closed :: bool

definition initial :: "nat \<Rightarrow> gotime \<Rightarrow> 'w lconf \<Rightarrow> 'w lconf" where
  "initial W now c =
     (let l = (lim c)\<lparr>periodTimer := Some (ns now + Until (PeriodEnd (lim c)) now)\<rparr>
      in c\<lparr>lim := l,
           st := (if HasBudget l \<and> Count l > ninetyPercent W l then OverBudget else UnderBudget)\<rparr>)"

definition handleMessage :: "nat \<Rightarrow> (DataLimiter, 'w) Store \<Rightarrow> Message \<Rightarrow> 'w lconf \<Rightarrow> 'w lconf" where
  "handleMessage W store m c =
     (let l = lim c; n = int (length (Bytes m)); total = swrap W (n + Count l);
          send = (\<lambda>next. case increment W store n l (world c) of (err, l', w') \<Rightarrow>
            c\<lparr>lim := l', world := w', sent := sent c @ [m], st := next err l'\<rparr>)
      in if HasBudget l \<and> total > Budget l then c\<lparr>st := OverBudget\<rparr>
         else if HasBudget l \<and> total > ninetyPercent W l then send (\<lambda>_ _. OverBudget)
         else send (\<lambda>err l'. if err \<noteq> None \<and> HasBudget l' then OverBudget else UnderBudget))"

definition apply_conf ::
  "nat \<Rightarrow> (DataLimiter, 'w) Store \<Rightarrow> gotime \<Rightarrow> CellularConfig \<Rightarrow> 'w lconf \<Rightarrow> 'w lconf option"
where
  "apply_conf W store now conf c =
     map_option
       (\<lambda>t. case reset store (setBudget W (Limit conf) (Defined conf) ((lim c)\<lparr>PeriodEnd := t\<rparr>)) (world c) of
          (_, l, w) \<Rightarrow> c\<lparr>lim := l, world := w, st := Initial\<rparr>)
       (ensureFuture (dayThisMonth (CDate conf) now) now)"

definition cleanup :: "'w lconf \<Rightarrow> 'w lconf" where
  "cleanup c = c\<lparr>out_closed := True, st := Terminal\<rparr>"

text \<open>The cases of the two \<open>select\<close> statements; \<open>Go\<close> is an iteration that waits for none.\<close>

datatype lim_input = Go | TimerFires | Receive Message | InClosed | Configure CellularConfig

definition timer_fires ::
  "(DataLimiter, 'w) Store \<Rightarrow> gotime \<Rightarrow> 'w lconf \<Rightarrow> 'w lconf option"
where
  "timer_fires store now c =
     (case periodTimer (lim c) of
        None \<Rightarrow> None
      | Some d \<Rightarrow>
          if d \<le> ns now then
            map_option (\<lambda>(l, w). c\<lparr>lim := l\<lparr>periodTimer := None\<rparr>, world := w, st := Initial\<rparr>)
              (startThisPeriod store now (lim c) (world c))
          else None)"

definition underBudget ::
  "nat \<Rightarrow> (DataLimiter, 'w) Store \<Rightarrow> gotime \<Rightarrow> lim_input \<Rightarrow> 'w lconf \<Rightarrow> 'w lconf option"
where
  "underBudget W store now inp c =
     (case inp of
        Go \<Rightarrow> None
      | TimerFires \<Rightarrow> timer_fires store now c
      | Receive m \<Rightarrow> Some (handleMessage W store m c)
      | InClosed \<Rightarrow> Some (c\<lparr>st := Cleanup\<rparr>)
      | Configure conf \<Rightarrow> apply_conf W store now conf c)"

definition overBudget ::
  "nat \<Rightarrow> (DataLimiter, 'w) Store \<Rightarrow> gotime \<Rightarrow> lim_input \<Rightarrow> 'w lconf \<Rightarrow> 'w lconf option"
where
  "overBudget W store now inp c =
     (case inp of
        Go \<Rightarrow> None
      | TimerFires \<Rightarrow> timer_fires store now c
      | Receive m \<Rightarrow> Some (c\<lparr>st := OverBudget\<rparr>)
      | InClosed \<Rightarrow> Some (c\<lparr>st := Cleanup\<rparr>)
      | Configure conf \<Rightarrow> apply_conf W store now conf c)"

fun lim_step ::
  "nat \<Rightarrow> (DataLimiter, 'w) Store \<Rightarrow> 'w lconf \<Rightarrow> gotime \<times> lim_input \<Rightarrow> 'w lconf option"
where
  "lim_step W store c (now, inp) =
     (case st c of
        Terminal \<Rightarrow> None
      | Initial \<Rightarrow> if inp = Go then Some (initial W now c) else None
      | UnderBudget \<Rightarrow> underBudget W store now inp c
      | OverBudget \<Rightarrow> overBudget W store now inp c
      | Cleanup \<Rightarrow> if inp = Go then Some (cleanup c) else None)"

text \<open>\<open>NewDataLimiter\<close>: a failing \<open>Load\<close> leaves what it has decoded so far.\<close>

definition NewDataLimiter :: "(DataLimiter, 'w) Store \<Rightarrow> 'w \<Rightarrow> 'w lconf" where
  "NewDataLimiter store w =
     (case Load store \<lparr>Budget = 0, HasBudget = False, Count = 0, PeriodEnd = zero_time, periodTimer = None\<rparr> w of
        (l, _, w') \<Rightarrow> \<lparr>st = Initial, lim = l, world = w', sent = [], out_closed = False\<rparr>)"

abbreviation lim_run where
  "lim_run W store \<equiv> run (lim_step W store)"

section \<open>Period boundaries\<close>

lemma ensureFuture_stop: "\<not> Before pe now \<Longrightarrow> ensureFuture pe now = Some pe"
  by (simp add: ensureFuture.simps)

lemma ensureFuture_step: "Before pe now \<Longrightarrow> ensureFuture pe now = ensureFuture (AddDate pe 0 1 0) now"
  by (subst ensureFuture.simps) simp

lemma ensureFuture_total:
  assumes "zone_ok (loc pe)"
  shows "\<exists>t. ensureFuture pe now = Some t \<and> ns now \<le> ns t \<and> loc t = loc pe \<and>
    (if ns now \<le> ns pe then t = pe else ns t < ns now + 33 * day_secs * second)"
  using assms
proof (induction "nat (ns now - ns pe)" arbitrary: pe rule: less_induct)
  case less
  show ?case
  proof (cases "Before pe now")
    case False
    then show ?thesis by (simp add: ensureFuture_stop Before_def)
  next
    case True
    note bounds = AddDate_month_bounds [OF less.prems]
    from True bounds(1) have "nat (ns now - ns (AddDate pe 0 1 0)) < nat (ns now - ns pe)"
      by (simp add: Before_def)
    from less.hyps [OF this] less.prems obtain t where
      t: "ensureFuture (AddDate pe 0 1 0) now = Some t" "ns now \<le> ns t" "loc t = loc pe"
        "if ns now \<le> ns (AddDate pe 0 1 0) then t = AddDate pe 0 1 0
         else ns t < ns now + 33 * day_secs * second"
      by auto
    with True bounds(2) show ?thesis
      by (auto simp: ensureFuture_step Before_def split: if_splits)
  qed
qed

text \<open>
  C30: The loop that advances the period end returns in every zone whose offsets stay within a
  day; the end it returns is not in the past, is the old one if that was not in the past, and is
  otherwise less than 33 days ahead.
\<close>

theorem ensureFuture_returns:
  assumes "zone_ok (loc periodEnd)"
  shows "\<exists>t. ensureFuture periodEnd now = Some t \<and> \<not> Before t now \<and>
    (if Before periodEnd now then ns t < ns now + 33 * day_secs * second else t = periodEnd)"
  using ensureFuture_total [OF assms, of now] by (auto simp: Before_def split: if_splits)

theorem ensureFuture_returns_witness:
  "\<exists>t. ensureFuture zero_time \<lparr>ns = 63113904000000000001, loc = UTC\<rparr> = Some t"
  using ensureFuture_returns [of zero_time "\<lparr>ns = 63113904000000000001, loc = UTC\<rparr>"]
  by (auto simp: zero_time_def)

text \<open>
  For a plan date in its documented range, 1 to 28, and a zone without transitions, the
  period end chosen for a new configuration is the midnight that starts that day of this month
  if it is still ahead, and of next month otherwise.
\<close>

theorem configured_period_end:
  assumes "fixed_zone (loc now) off" and "date_of now = (y, m, d)" and "1 \<le> day" "day \<le> 28"
    and "next_month y m = (y', m')"
  shows "let pe = dayThisMonth day now; pe' = AddDate pe 0 1 0 in
    ensureFuture pe now = Some (if Before pe now then pe' else pe)
    \<and> date_of pe = (y, m, day) \<and> local_secs pe mod day_secs = 0
    \<and> date_of pe' = (y', m', day) \<and> local_secs pe' mod day_secs = 0"
proof -
  define pe where "pe = dayThisMonth day now"
  have pe: "pe = Date y m day 0 0 (loc now)"
    using assms(2) by (simp add: pe_def dayThisMonth_def)
  have c: "civil (local_secs now div day_secs) = (y, m, d)"
    using assms(2) by (simp add: date_of_def)
  note mr = civil_month [OF c]
  have len: "day \<le> month_len (leap y) (m - 1)"
    using assms(4) month_len_bounds(1) [of "leap y" "m - 1"] by linarith
  have date: "date_of pe = (y, m, day)" "local_secs pe mod day_secs = 0"
    unfolding pe using assms(1,3) mr len by (auto intro!: date_of_Date_fixed)
  have fixed: "fixed_zone (loc pe) off" using assms(1) by (simp add: pe)
  note next_date = AddDate_month_day [OF fixed date(1) assms(3,4,5)]
  have "ns pe mod second = 0"
    by (simp add: pe ns_Date_fixed [OF assms(1)])
  then have "AddDate pe 0 1 0 = Date y (m + 1) day 0 0 (loc now)"
    using AddDate_month(1) [OF date(1)] date(2) by (simp add: pe)
  then have "ns (AddDate pe 0 1 0) = (day_number y (m + 1) day * day_secs - off) * second"
    by (simp add: ns_Date_fixed [OF assms(1)])
  moreover have "day_number y (m + 1) 1 \<le> day_number y (m + 1) day"
    using assms(3) by (simp add: day_number_def Let_def)
  with local_secs_less_next_month [OF assms(2)]
  have "local_secs now + 1 \<le> day_number y (m + 1) day * day_secs" by linarith
  moreover have "local_secs now = ns now div second + off"
    using assms(1) by (simp add: local_secs_def fixed_zone_def)
  ultimately have "ns now div second + 1 \<le> day_number y (m + 1) day * day_secs - off"
    and ns': "ns (AddDate pe 0 1 0) = (day_number y (m + 1) day * day_secs - off) * second"
    by linarith+
  then have "\<not> Before (AddDate pe 0 1 0) now"
    using div_less_mult [of "ns now" second] by (simp add: Before_def ns' not_less less_imp_le)
  then have "ensureFuture pe now = Some (if Before pe now then AddDate pe 0 1 0 else pe)"
    by (simp add: ensureFuture_step ensureFuture_stop)
  with date next_date show ?thesis
    by (simp add: Let_def pe_def [symmetric])
qed

theorem configured_period_end_witness:
  "\<exists>t. ensureFuture (dayThisMonth 15 \<lparr>ns = 5, loc = UTC\<rparr>) \<lparr>ns = 5, loc = UTC\<rparr> = Some t \<and> date_of (dayThisMonth 15 \<lparr>ns = 5, loc = UTC\<rparr>) = (1, 1, 15)"
proof -
  have "date_of \<lparr>ns = 5, loc = UTC\<rparr> = (1, 1, 1)" by code_simp
  from configured_period_end [of "\<lparr>ns = 5, loc = UTC\<rparr>", OF _ this, of 0 15 1 2] show ?thesis
    by (simp add: next_month_def Let_def)
qed

section \<open>One message\<close>

definition msg_len :: "Message \<Rightarrow> int" where
  "msg_len m = int (length (Bytes m))"

definition bytes_of :: "Message list \<Rightarrow> int" where
  "bytes_of ms = sum_list (map msg_len ms)"

lemma bytes_of_simps [simp]:
  "bytes_of [] = 0" "bytes_of (m # ms) = msg_len m + bytes_of ms"
  "bytes_of (ms @ ms') = bytes_of ms + bytes_of ms'"
  by (simp_all add: bytes_of_def)

lemma msg_len_nonneg [simp]: "0 \<le> msg_len m"
  by (simp add: msg_len_def)

lemma bytes_of_nonneg [simp]: "0 \<le> bytes_of ms"
  by (induction ms) simp_all

text \<open>What arithmetic needs: an \<open>int\<close> holds nine times the budget, and the sum of budget and message.\<close>

definition no_overflow :: "nat \<Rightarrow> DataLimiter \<Rightarrow> Message \<Rightarrow> bool" where
  "no_overflow W l m \<longleftrightarrow> 0 < W \<and> fits W (9 * Budget l) \<and> fits W (Budget l + msg_len m)"

lemma total_exact:
  assumes "no_overflow W l m" "0 \<le> Count l" "Count l \<le> Budget l"
  shows "swrap W (msg_len m + Count l) = Count l + msg_len m"
    and "swrap W (Count l + msg_len m) = Count l + msg_len m"
proof -
  have "- (2 ^ (W - 1)) \<le> (0::int)" by simp
  with assms have "fits W (Count l + msg_len m)"
    using msg_len_nonneg [of m] unfolding no_overflow_def fits_def by linarith
  with assms(1) show "swrap W (msg_len m + Count l) = Count l + msg_len m"
    and "swrap W (Count l + msg_len m) = Count l + msg_len m"
    by (simp_all add: no_overflow_def add.commute)
qed

lemma over_ninety_iff:
  assumes "0 < W" "fits W (9 * Budget l)" "0 \<le> Budget l"
  shows "n > ninetyPercent W l \<longleftrightarrow> 9 * Budget l < 10 * n"
  using assms by (simp add: ninetyPercent_def sdiv_nonneg) linarith

definition save_fails :: "(DataLimiter, 'w) Store \<Rightarrow> DataLimiter \<Rightarrow> 'w \<Rightarrow> bool" where
  "save_fails store l w \<longleftrightarrow> fst (Save store l w) \<noteq> None"

lemma handleMessage_exact:
  assumes "HasBudget (lim c)" and "no_overflow W (lim c) m"
    and "0 \<le> Count (lim c)" and "Count (lim c) \<le> Budget (lim c)"
  shows "let n = Count (lim c) + msg_len m; l' = (lim c)\<lparr>Count := n\<rparr>; c' = handleMessage W store m c in
    if n > Budget (lim c) then c' = c\<lparr>st := OverBudget\<rparr>
    else c' = c\<lparr>lim := l', world := snd (Save store l' (world c)), sent := sent c @ [m],
      st := (if 10 * n > 9 * Budget (lim c) \<or> save_fails store l' (world c) then OverBudget else UnderBudget)\<rparr>"
proof -
  note exact = total_exact [OF assms(2-4)]
  obtain err w' where save: "Save store ((lim c)\<lparr>Count := Count (lim c) + msg_len m\<rparr>) (world c) = (err, w')"
    by (cases "Save store ((lim c)\<lparr>Count := Count (lim c) + msg_len m\<rparr>) (world c)")
  have "0 \<le> Budget (lim c)" using assms(3,4) by simp
  with assms(2) have "\<And>n. n > ninetyPercent W (lim c) \<longleftrightarrow> 9 * Budget (lim c) < 10 * n"
    by (intro over_ninety_iff) (auto simp: no_overflow_def)
  with assms(1) show ?thesis
    by (simp add: handleMessage_def increment_def Let_def exact msg_len_def [symmetric]
        save_fails_def save)
qed

text \<open>With a budget, a message is passed on exactly if the period's count including it stays
within the budget, and it is then counted; the limiter goes on passing messages exactly if the
count is still within nine tenths of the budget and could be saved. A message that is not passed
on changes nothing but the state.\<close>

theorem handleMessage_budget:
  assumes "HasBudget (lim c)" and "no_overflow W (lim c) m"
    and "0 \<le> Count (lim c)" and "Count (lim c) \<le> Budget (lim c)"
  shows "let n = Count (lim c) + msg_len m; l' = (lim c)\<lparr>Count := n\<rparr>; c' = handleMessage W store m c in
    if n > Budget (lim c) then c' = c\<lparr>st := OverBudget\<rparr>
    else c' = c\<lparr>lim := l', world := snd (Save store l' (world c)), sent := sent c @ [m],
      st := (if 10 * n > 9 * Budget (lim c) \<or> save_fails store l' (world c) then OverBudget else UnderBudget)\<rparr>"
  by (rule handleMessage_exact [OF assms])

text \<open>The same three outcomes without assumptions on the arithmetic.\<close>

lemma handleMessage_cases:
  obtains (drop) "HasBudget (lim c)" "swrap W (msg_len m + Count (lim c)) > Budget (lim c)"
      "handleMessage W store m c = c\<lparr>st := OverBudget\<rparr>"
  | (send) w' s where
      "HasBudget (lim c) \<longrightarrow> swrap W (msg_len m + Count (lim c)) \<le> Budget (lim c)"
      "handleMessage W store m c = c\<lparr>lim := (lim c)\<lparr>Count := swrap W (Count (lim c) + msg_len m)\<rparr>,
         world := w', sent := sent c @ [m], st := s\<rparr>"
      "s = UnderBudget \<or> HasBudget (lim c) \<and> s = OverBudget"
proof (cases "HasBudget (lim c) \<and> swrap W (msg_len m + Count (lim c)) > Budget (lim c)")
  case True
  then show ?thesis by (intro drop) (simp_all add: handleMessage_def Let_def msg_len_def)
next
  case False
  obtain err w' where "Save store ((lim c)\<lparr>Count := swrap W (Count (lim c) + msg_len m)\<rparr>) (world c) = (err, w')"
    by (cases "Save store ((lim c)\<lparr>Count := swrap W (Count (lim c) + msg_len m)\<rparr>) (world c)")
  then have "handleMessage W store m c = c\<lparr>lim := (lim c)\<lparr>Count := swrap W (Count (lim c) + msg_len m)\<rparr>,
         world := w', sent := sent c @ [m],
         st := (if HasBudget (lim c) \<and>
             (swrap W (msg_len m + Count (lim c)) > ninetyPercent W (lim c) \<or> err \<noteq> None)
           then OverBudget else UnderBudget)\<rparr>"
    using False
    by (cases "HasBudget (lim c)") (simp_all add: handleMessage_def increment_def Let_def msg_len_def [symmetric])
  then show ?thesis using False by (intro send) (auto simp: not_less split: if_splits)
qed

definition witness_conf :: "'w \<Rightarrow> int \<Rightarrow> int \<Rightarrow> 'w lconf" where
  "witness_conf w budget n =
     \<lparr>st = UnderBudget, lim = \<lparr>Budget = budget, HasBudget = True, Count = n, PeriodEnd = zero_time, periodTimer = None\<rparr>,
      world = w, sent = [], out_closed = False\<rparr>"

text \<open>A store that keeps the last saved limiter: the simplest one that can save and load.\<close>

definition cell_store :: "('o, 'o option) Store" where
  "cell_store = \<lparr>Save = (\<lambda>x _. (None, Some x)),
     Load = (\<lambda>x w. (case w of None \<Rightarrow> (x, Some ''empty'', w) | Some y \<Rightarrow> (y, None, w)))\<rparr>"

theorem handleMessage_budget_witness:
  "sent (handleMessage 64 cell_store sample (witness_conf None 100 95)) = [sample]
   \<and> st (handleMessage 64 cell_store sample (witness_conf None 100 95)) = OverBudget
   \<and> handleMessage 64 cell_store sample (witness_conf None 100 98) = (witness_conf None 100 98)\<lparr>st := OverBudget\<rparr>"
  using handleMessage_budget [of "witness_conf None 100 95" 64 sample cell_store]
    handleMessage_budget [of "witness_conf None 100 98" 64 sample cell_store]
  by (simp add: witness_conf_def no_overflow_def fits_def sample_def msg_len_def save_fails_def cell_store_def Let_def)

section \<open>Runs\<close>

text \<open>The messages among the inputs, and inputs that neither end nor reconfigure the period.\<close>

fun received :: "(gotime \<times> lim_input) list \<Rightarrow> Message list" where
  "received [] = []"
| "received ((_, Receive m) # es) = m # received es"
| "received (_ # es) = received es"

fun quiet :: "(gotime \<times> lim_input) list \<Rightarrow> bool" where
  "quiet [] = True"
| "quiet ((_, TimerFires) # _) = False"
| "quiet ((_, Configure _) # _) = False"
| "quiet (_ # es) = quiet es"

lemma reset_eq:
  "reset store l w = (fst (Save store (l\<lparr>Count := 0\<rparr>) w), l\<lparr>Count := 0\<rparr>, snd (Save store (l\<lparr>Count := 0\<rparr>) w))"
  by (simp add: reset_def Let_def split: prod.split)

lemma timer_fires_Some:
  assumes "timer_fires store now c = Some c'"
  shows "\<exists>w' d t. c' = c\<lparr>lim := (lim c)\<lparr>PeriodEnd := t, Count := 0, periodTimer := None\<rparr>, world := w', st := Initial\<rparr>
    \<and> periodTimer (lim c) = Some d \<and> d \<le> ns now \<and> ensureFuture (PeriodEnd (lim c)) now = Some t"
  using assms
  by (auto simp: timer_fires_def startThisPeriod_def reset_eq split: option.splits if_splits)

lemma apply_conf_Some:
  assumes "apply_conf W store now conf c = Some c'"
  shows "\<exists>w' t. c' = c\<lparr>lim := (lim c)\<lparr>PeriodEnd := t, Budget := swrap W (1000000 * Limit conf),
      HasBudget := Defined conf, Count := 0\<rparr>, world := w', st := Initial\<rparr>
    \<and> ensureFuture (dayThisMonth (CDate conf) now) now = Some t"
  using assms by (auto simp: apply_conf_def setBudget_def reset_eq)

text \<open>One iteration, by what it does to the output.\<close>

lemma lim_step_cases:
  assumes "lim_step W store c (now, inp) = Some c'"
  obtains (start) "inp = Go" "st c = Initial" "c' = initial W now c"
  | (close) "inp = Go" "st c = Cleanup" "c' = cleanup c"
  | (timer) "inp = TimerFires" "st c \<in> {UnderBudget, OverBudget}" "timer_fires store now c = Some c'"
  | (config) conf where "inp = Configure conf" "st c \<in> {UnderBudget, OverBudget}"
      "apply_conf W store now conf c = Some c'"
  | (shut) "inp = InClosed" "st c \<in> {UnderBudget, OverBudget}" "c' = c\<lparr>st := Cleanup\<rparr>"
  | (pass) m where "inp = Receive m" "st c = UnderBudget" "c' = handleMessage W store m c"
  | (drop) m where "inp = Receive m" "st c = OverBudget" "c' = c"
  using assms
  by (cases "st c"; cases inp) (auto simp: underBudget_def overBudget_def split: if_splits)

text \<open>What a run adds to the output is a subsequence of what it received.\<close>

definition fifo_rel :: "'w lconf \<Rightarrow> (gotime \<times> lim_input) list \<Rightarrow> 'w lconf \<Rightarrow> bool" where
  "fifo_rel c es c' \<longleftrightarrow> (\<exists>new. sent c' = sent c @ new \<and> subseq new (received es))"

lemma fifo_skip: "sent c' = sent c \<Longrightarrow> fifo_rel c' es c'' \<Longrightarrow> fifo_rel c ((now, inp) # es) c''"
  by (cases inp) (auto simp: fifo_rel_def intro: subseq_Cons')

lemma fifo_step:
  assumes "lim_step W store c e = Some c'" and "fifo_rel c' es c''"
  shows "fifo_rel c (e # es) c''"
proof -
  obtain now inp where e: "e = (now, inp)" by (cases e)
  from assms(1) have "lim_step W store c (now, inp) = Some c'" by (simp add: e)
  then show ?thesis
  proof (cases rule: lim_step_cases)
    case (pass m)
    show ?thesis
    proof (cases rule: handleMessage_cases [of c W m store])
      case drop
      with pass(3) show ?thesis by (auto simp: e intro: fifo_skip [OF _ assms(2)])
    next
      case (send w' s)
      with pass(3) have "sent c' = sent c @ [m]" by simp
      with assms(2) pass(1) show ?thesis by (auto simp: fifo_rel_def e)
    qed
  qed (use assms(2) in \<open>auto simp: e initial_def cleanup_def Let_def intro!: fifo_skip [OF _ assms(2)]
      dest!: timer_fires_Some apply_conf_Some\<close>)
qed

interpretation fifo: step_history "lim_step W store" fifo_rel for W and store :: "(DataLimiter, 'w) Store"
proof (unfold_locales, goal_cases)
  case 1
  show ?case by (simp add: fifo_rel_def)
next
  case 2
  then show ?case by (rule fifo_step)
qed

text \<open>The limiter never makes up, changes, repeats or reorders a message: whatever happens,
what a run sends is a subsequence of what it received.\<close>

theorem limiter_subsequence:
  assumes "lim_run W store c es = Some c'"
  shows "\<exists>new. sent c' = sent c @ new \<and> subseq new (received es)"
  using fifo.run_rel [OF assms] by (simp add: fifo_rel_def)

definition some_time :: gotime where
  "some_time = \<lparr>ns = 63113904000000000001, loc = UTC\<rparr>"

theorem limiter_subsequence_witness:
  "\<exists>c'. lim_run 64 cell_store (witness_conf None 100 95) [(some_time, Receive sample), (some_time, Receive sample)] = Some c'
     \<and> sent c' = [sample]"
proof -
  let ?es = "[(some_time, Receive sample), (some_time, Receive sample)]"
  let ?r = "lim_run 64 cell_store (witness_conf None 100 95) ?es"
  have r: "map_option sent ?r = Some [sample]"
    by (simp add: underBudget_def overBudget_def handleMessage_def increment_def witness_conf_def cell_store_def
        sample_def swrap_def ninetyPercent_def Let_def signed_divide_int_def)
  then obtain c' where c': "?r = Some c'" by (cases ?r) auto
  from limiter_subsequence [OF c'] r c' show ?thesis by auto
qed

text \<open>Within a period, what is sent is counted, and the count stays within the budget.\<close>

definition fresh :: "nat \<Rightarrow> DataLimiter \<Rightarrow> Message list \<Rightarrow> bool" where
  "fresh W l ms \<longleftrightarrow> HasBudget l \<and> 0 \<le> Count l \<and> Count l \<le> Budget l \<and> (\<forall>m \<in> set ms. no_overflow W l m)"

definition spend_rel :: "nat \<Rightarrow> 'w lconf \<Rightarrow> (gotime \<times> lim_input) list \<Rightarrow> 'w lconf \<Rightarrow> bool" where
  "spend_rel W c es c' \<longleftrightarrow>
     (quiet es \<longrightarrow> fresh W (lim c) (received es) \<longrightarrow>
        (\<exists>new. sent c' = sent c @ new \<and> Count (lim c') = Count (lim c) + bytes_of new)
        \<and> Count (lim c') \<le> Budget (lim c') \<and> Budget (lim c') = Budget (lim c))"

lemma no_overflow_timer [simp]: "no_overflow W (l\<lparr>periodTimer := x\<rparr>) m = no_overflow W l m"
  by (simp add: no_overflow_def)

lemma spend_step:
  assumes "lim_step W store c e = Some c'" and "spend_rel W c' es c''"
  shows "spend_rel W c (e # es) c''"
proof -
  obtain now inp where e: "e = (now, inp)" by (cases e)
  from assms(1) have "lim_step W store c (now, inp) = Some c'" by (simp add: e)
  then show ?thesis
  proof (cases rule: lim_step_cases)
    case (pass m)
    show ?thesis
    proof (cases rule: handleMessage_cases [of c W m store])
      case drop
      with pass assms(2) show ?thesis by (auto simp: spend_rel_def e fresh_def)
    next
      case (send w' s)
      show ?thesis unfolding spend_rel_def
      proof (intro impI)
        assume "quiet (e # es)" and f: "fresh W (lim c) (received (e # es))"
        then have q: "quiet es" and m: "no_overflow W (lim c) m" "0 \<le> Count (lim c)" "Count (lim c) \<le> Budget (lim c)"
          by (auto simp: e pass(1) fresh_def)
        note exact = total_exact [OF m]
        from send(1,2) pass(3) f exact have c': "sent c' = sent c @ [m]"
          "lim c' = (lim c)\<lparr>Count := Count (lim c) + msg_len m\<rparr>" "Count (lim c) + msg_len m \<le> Budget (lim c)"
          by (simp_all add: fresh_def)
        with f m(2) msg_len_nonneg [of m] have "fresh W (lim c') (received es)"
          by (auto simp: fresh_def no_overflow_def e pass(1))
        with assms(2) q obtain new where "sent c'' = sent c' @ new"
          "Count (lim c'') = Count (lim c') + bytes_of new"
          "Count (lim c'') \<le> Budget (lim c'')" "Budget (lim c'') = Budget (lim c')"
          by (auto simp: spend_rel_def)
        with c' show "(\<exists>new. sent c'' = sent c @ new \<and> Count (lim c'') = Count (lim c) + bytes_of new)
            \<and> Count (lim c'') \<le> Budget (lim c'') \<and> Budget (lim c'') = Budget (lim c)"
          by (intro conjI exI [of _ "m # new"]) auto
      qed
    qed
  qed (use assms(2) in \<open>auto simp: spend_rel_def e initial_def cleanup_def Let_def fresh_def\<close>)
qed

interpretation spend: step_history "lim_step W store" "spend_rel W" for W and store :: "(DataLimiter, 'w) Store"
proof (unfold_locales, goal_cases)
  case 1
  show ?case by (auto simp: spend_rel_def fresh_def)
next
  case 2
  then show ?case by (rule spend_step)
qed

text \<open>C12: The budget is respected: as long as no timer fires and no configuration arrives, the bytes
the limiter sends are exactly those it counts, and the count never passes the budget, so a
period's traffic is at most the budget less what was counted when the run began.\<close>

theorem period_budget:
  assumes "lim_run W store c es = Some c'" and "quiet es" and "HasBudget (lim c)"
    and "0 \<le> Count (lim c)" and "Count (lim c) \<le> Budget (lim c)"
    and "\<And>m. m \<in> set (received es) \<Longrightarrow> no_overflow W (lim c) m"
  shows "\<exists>new. sent c' = sent c @ new \<and> Count (lim c') = Count (lim c) + bytes_of new
    \<and> bytes_of new \<le> Budget (lim c) - Count (lim c)"
proof -
  from spend.run_rel [OF assms(1)] assms(2-6) obtain new where "sent c' = sent c @ new"
    "Count (lim c') = Count (lim c) + bytes_of new" "Count (lim c') \<le> Budget (lim c)"
    by (auto simp: spend_rel_def fresh_def)
  then show ?thesis by (intro exI [of _ new]) auto
qed

theorem period_budget_witness:
  "\<exists>c' new. lim_run 64 cell_store (witness_conf None 100 90) [(some_time, Receive sample), (some_time, Receive sample)] = Some c'
     \<and> sent c' = new \<and> bytes_of new \<le> 10 \<and> Count (lim c') = 90 + bytes_of new"
proof -
  let ?es = "[(some_time, Receive sample), (some_time, Receive sample)]"
  let ?r = "lim_run 64 cell_store (witness_conf None 100 90) ?es"
  have "?r \<noteq> None"
    by (simp add: underBudget_def overBudget_def handleMessage_def increment_def witness_conf_def cell_store_def
        sample_def swrap_def ninetyPercent_def Let_def signed_divide_int_def)
  then obtain c' where c': "?r = Some c'" by blast
  from period_budget [OF c'] show ?thesis
    using c' by (auto simp: witness_conf_def no_overflow_def fits_def sample_def msg_len_def)
qed

text \<open>Without a budget nothing is held back, even when the counter cannot be saved.\<close>

theorem unlimited_passes_all:
  assumes "st c = UnderBudget" and "\<not> HasBudget (lim c)"
  shows "\<exists>c'. lim_run W store c (map (\<lambda>(t, m). (t, Receive m)) tms) = Some c'
    \<and> sent c' = sent c @ map snd tms \<and> st c' = UnderBudget"
  using assms
proof (induction tms arbitrary: c)
  case Nil
  then show ?case by simp
next
  case (Cons tm tms)
  obtain t m where tm: "tm = (t, m)" by (cases tm)
  let ?c = "handleMessage W store m c"
  have c: "st ?c = UnderBudget \<and> \<not> HasBudget (lim ?c) \<and> sent ?c = sent c @ [m]"
    using Cons.prems by (cases rule: handleMessage_cases [of c W m store]) auto
  with Cons.IH [of ?c] obtain c' where
    "lim_run W store ?c (map (\<lambda>(t, m). (t, Receive m)) tms) = Some c'"
    "sent c' = sent ?c @ map snd tms" "st c' = UnderBudget" by auto
  with c Cons.prems(1) show ?case by (simp add: tm underBudget_def)
qed

theorem unlimited_passes_all_witness:
  "\<exists>c'. lim_run 64 cell_store ((witness_conf None 0 0)\<lparr>lim := (lim (witness_conf None 0 0))\<lparr>HasBudget := False\<rparr>\<rparr>)
     [(some_time, Receive sample), (some_time, Receive sample)] = Some c' \<and> sent c' = [sample, sample]"
  using unlimited_passes_all [of "(witness_conf None 0 0)\<lparr>lim := (lim (witness_conf None 0 0))\<lparr>HasBudget := False\<rparr>\<rparr>"
      64 cell_store "[(some_time, sample), (some_time, sample)]"]
  by (auto simp: witness_conf_def simp del: run.simps)

lemma overBudget_run:
  assumes "st c = OverBudget"
  shows "lim_run W store c (map (\<lambda>(t, m). (t, Receive m)) tms) = Some c"
proof -
  have "overBudget W store t (Receive m) c = Some c" for t m
    using assms by (cases c) (simp add: overBudget_def)
  then show ?thesis using assms by (induction tms) (simp_all split: prod.split)
qed

text \<open>In the over-budget state every message is dropped, and nothing else changes.\<close>

theorem overBudget_drops_all:
  assumes "st c = OverBudget"
  shows "lim_run W store c (map (\<lambda>(t, m). (t, Receive m)) tms) = Some c"
  by (rule overBudget_run [OF assms])

theorem overBudget_drops_all_witness:
  "lim_run 64 cell_store ((witness_conf None 100 95)\<lparr>st := OverBudget\<rparr>) [(some_time, Receive sample)] =
     Some ((witness_conf None 100 95)\<lparr>st := OverBudget\<rparr>)"
  using overBudget_drops_all [of "(witness_conf None 100 95)\<lparr>st := OverBudget\<rparr>" 64 cell_store "[(some_time, sample)]"]
  by simp

section \<open>Shutting down\<close>

definition closed_inv :: "'w lconf \<Rightarrow> bool" where
  "closed_inv c \<longleftrightarrow> (out_closed c \<longleftrightarrow> st c = Terminal)"

interpretation closing: step_invariant "lim_step W store" closed_inv for W and store :: "(DataLimiter, 'w) Store"
proof (unfold_locales, goal_cases)
  case (1 c e c')
  obtain now inp where e: "e = (now, inp)" by (cases e)
  from 1(2) have "lim_step W store c (now, inp) = Some c'" by (simp add: e)
  then show ?case
  proof (cases rule: lim_step_cases)
    case (pass m)
    with 1(1) show ?thesis
      by (cases rule: handleMessage_cases [of c W m store]) (auto simp: closed_inv_def)
  qed (use 1(1) in \<open>auto simp: closed_inv_def initial_def cleanup_def Let_def
      dest!: timer_fires_Some apply_conf_Some\<close>)
qed

lemma closed_inv_New [simp]: "closed_inv (NewDataLimiter store w)"
  by (simp add: closed_inv_def NewDataLimiter_def split: prod.split)

text \<open>The output channel is closed exactly once, by the last iteration: in every state the limiter
can reach, it is closed if and only if the loop has ended, an ended loop takes no step (so nothing is
sent on the closed channel), and when the input closes, two iterations end the loop.\<close>

theorem limiter_shutdown:
  assumes "lim_run W store (NewDataLimiter store w) es = Some c"
  shows "(out_closed c \<longleftrightarrow> st c = Terminal) \<and> (st c = Terminal \<longrightarrow> lim_step W store c e = None)
    \<and> (st c \<in> {UnderBudget, OverBudget} \<longrightarrow>
       lim_run W store c [(t, InClosed), (t', Go)] = Some (c\<lparr>out_closed := True, st := Terminal\<rparr>))"
proof -
  have "closed_inv c" using closing.run_inv [OF closed_inv_New assms] .
  then show ?thesis
    by (cases e) (auto simp: closed_inv_def underBudget_def overBudget_def cleanup_def)
qed

theorem limiter_shutdown_witness:
  "\<exists>c. lim_run 64 cell_store (NewDataLimiter cell_store None) [(some_time, Go), (some_time, InClosed), (some_time, Go)] = Some c
     \<and> out_closed c \<and> lim_step 64 cell_store c (some_time, Go) = None"
proof -
  let ?es = "[(some_time, Go), (some_time, InClosed), (some_time, Go)]"
  let ?r = "lim_run 64 cell_store (NewDataLimiter cell_store None) ?es"
  have r: "map_option st ?r = Some Terminal"
    by (simp add: NewDataLimiter_def cell_store_def initial_def cleanup_def Let_def underBudget_def)
  then obtain c where c: "?r = Some c" by (cases ?r) auto
  from limiter_shutdown [OF c] r c show ?thesis by auto
qed

section \<open>The end of a period\<close>

lemma ensureFuture_result:
  assumes "ensureFuture pe now = Some t"
  shows "\<not> Before t now"
proof (rule ensureFuture.raw_induct [where P = "\<lambda>pe now t. \<not> Before t now", OF _ assms])
  fix f pe now t
  assume IH: "\<And>pe now t. f pe now = Some t \<Longrightarrow> \<not> Before t now"
    and eq: "(if Before pe now then f (AddDate pe 0 1 0) now else Some pe) = Some t"
  show "\<not> Before t now"
  proof (cases "Before pe now")
    case True
    with eq show ?thesis by (simp add: IH)
  next
    case False
    with eq show ?thesis by simp
  qed
qed

text \<open>
  While the limiter waits, its timer is set, not before the period end, unless that is farther ahead than a
  \<open>Duration\<close> reaches (292 years after the run began, at \<open>T\<close>, or later), and not after both the period end and the time \<open>T'\<close> until which the run has come.
\<close>

definition armed :: "int \<Rightarrow> int \<Rightarrow> 'w lconf \<Rightarrow> bool" where
  "armed T T' c \<longleftrightarrow>
     (st c \<in> {UnderBudget, OverBudget} \<longrightarrow>
        (\<exists>d. periodTimer (lim c) = Some d \<and> (ns (PeriodEnd (lim c)) \<le> d \<or> T + (2 ^ 63 - 1) \<le> d)
          \<and> (d \<le> ns (PeriodEnd (lim c)) \<or> d \<le> T')))"

definition armed_rel :: "int \<Rightarrow> int \<Rightarrow> 'w lconf \<Rightarrow> (gotime \<times> lim_input) list \<Rightarrow> 'w lconf \<Rightarrow> bool" where
  "armed_rel T T' c es c' \<longleftrightarrow> (\<forall>e \<in> set es. T \<le> ns (fst e) \<and> ns (fst e) \<le> T') \<longrightarrow> armed T T' c \<longrightarrow> armed T T' c'"

lemma Until_arms:
  "T \<le> ns now \<Longrightarrow> ns pe \<le> ns now + Until pe now \<or> T + (2 ^ 63 - 1) \<le> ns now + Until pe now"
  "ns now + Until pe now \<le> ns pe \<or> ns now + Until pe now \<le> ns now"
  by (auto simp: Until_def max_def min_def)

lemma armed_step:
  assumes "lim_step W store c (now, inp) = Some c'" and "T \<le> ns now" "ns now \<le> T'" and "armed T T' c"
  shows "armed T T' c'"
  using assms(1)
proof (cases rule: lim_step_cases)
  case start
  let ?pe = "PeriodEnd (lim c)"
  have "ns now + Until ?pe now \<le> ns ?pe \<or> ns now + Until ?pe now \<le> T'" using Until_arms(2) [of now ?pe] assms(3) by linarith
  with Until_arms(1) [OF assms(2), of ?pe] start show ?thesis by (simp add: armed_def initial_def Let_def)
next
  case (pass m)
  with assms(4) show ?thesis
    by (cases rule: handleMessage_cases [of c W m store]) (auto simp: armed_def)
qed (use assms(4) in \<open>auto simp: armed_def cleanup_def dest!: timer_fires_Some apply_conf_Some\<close>)

interpretation arming: step_history "lim_step W store" "armed_rel T T'" for W and store :: "(DataLimiter, 'w) Store" and T T'
proof (unfold_locales, goal_cases)
  case 1
  show ?case by (simp add: armed_rel_def)
next
  case (2 c e c' es c'')
  then show ?case
    using armed_step [of W store c "fst e" "snd e" c' T T'] by (auto simp: armed_rel_def)
qed

lemma reachable_armed:
  assumes "lim_run W store (NewDataLimiter store w) es = Some c" and "\<And>e. e \<in> set es \<Longrightarrow> T \<le> ns (fst e) \<and> ns (fst e) \<le> T'"
  shows "armed T T' c"
proof -
  have "armed T T' (NewDataLimiter store w)" by (simp add: armed_def NewDataLimiter_def split: prod.split)
  with arming.run_rel [OF assms(1), of T T'] assms(2) show ?thesis by (auto simp: armed_rel_def)
qed

text \<open>C31: A period ends when its end has come, and not before. In every waiting state that the limiter can reach from its start, with a clock that runs from \<open>T\<close> on and
not backwards: once the end of the period has come, the timer is due and its case of the \<open>select\<close> can be taken (in a zone whose
offsets stay within a day); and whenever it is taken, the period end has passed (or the limiter has run for 292 years), the count starts again
from zero, the new period end is not in the past, nothing is sent, and the limiter goes through its initial state.\<close>

theorem period_ends_on_time:
  assumes "lim_run W store (NewDataLimiter store w) es = Some c"
    and "\<And>e. e \<in> set es \<Longrightarrow> T \<le> ns (fst e) \<and> ns (fst e) \<le> ns now" and "st c \<in> {UnderBudget, OverBudget}"
  shows "(ns (PeriodEnd (lim c)) \<le> ns now \<and> zone_ok (loc (PeriodEnd (lim c))) \<longrightarrow> lim_step W store c (now, TimerFires) \<noteq> None)
    \<and> (\<forall>c'. lim_step W store c (now, TimerFires) = Some c' \<longrightarrow>
        (ns (PeriodEnd (lim c)) \<le> ns now \<or> T + (2 ^ 63 - 1) \<le> ns now)
        \<and> Count (lim c') = 0 \<and> \<not> Before (PeriodEnd (lim c')) now \<and> st c' = Initial \<and> sent c' = sent c)"
proof -
  from reachable_armed [OF assms(1,2)] assms(3) obtain d where d: "periodTimer (lim c) = Some d"
    "ns (PeriodEnd (lim c)) \<le> d \<or> T + (2 ^ 63 - 1) \<le> d" "d \<le> ns (PeriodEnd (lim c)) \<or> d \<le> ns now" by (auto simp: armed_def)
  have step: "lim_step W store c (now, TimerFires) = timer_fires store now c"
    using assms(3) by (auto simp: underBudget_def overBudget_def)
  have "timer_fires store now c \<noteq> None" if pe: "ns (PeriodEnd (lim c)) \<le> ns now" and zone: "zone_ok (loc (PeriodEnd (lim c)))"
  proof -
    obtain t where "ensureFuture (PeriodEnd (lim c)) now = Some t" using ensureFuture_total [OF zone] by blast
    moreover have "d \<le> ns now" using d(3) pe by linarith
    ultimately show ?thesis using d(1) by (simp add: timer_fires_def startThisPeriod_def)
  qed
  then show ?thesis unfolding step using d(1,2) ensureFuture_result by (auto dest!: timer_fires_Some)
qed

definition start_time :: gotime where
  "start_time = \<lparr>ns = 5, loc = UTC\<rparr>"

theorem period_ends_on_time_witness:
  "\<exists>c c'. lim_run 64 cell_store (NewDataLimiter cell_store None) [(start_time, Go)] = Some c
     \<and> lim_step 64 cell_store c (start_time, TimerFires) = Some c'
     \<and> Count (lim c') = 0 \<and> \<not> Before (PeriodEnd (lim c')) start_time"
proof -
  let ?r = "lim_run 64 cell_store (NewDataLimiter cell_store None) [(start_time, Go)]"
  obtain c where c: "?r = Some c" by (simp add: NewDataLimiter_def cell_store_def)
  then have lc: "st c = UnderBudget" "periodTimer (lim c) = Some 0" "PeriodEnd (lim c) = zero_time"
    by (auto simp: NewDataLimiter_def cell_store_def initial_def Let_def Until_def start_time_def zero_time_def)
  note on_time = period_ends_on_time [OF c, of 5 start_time]
  have "zone_ok (loc zero_time)" "ns zero_time \<le> ns start_time" by (simp_all add: zero_time_def start_time_def)
  with on_time lc have "lim_step 64 cell_store c (start_time, TimerFires) \<noteq> None" by (simp add: start_time_def del: lim_step.simps)
  then obtain c' where c': "lim_step 64 cell_store c (start_time, TimerFires) = Some c'" by blast
  with on_time c lc show ?thesis by (auto simp: start_time_def simp del: lim_step.simps)
qed

text \<open>The limiter never gets stuck: with zones of sane offsets, the initial and the clean-up state
always move on, and a waiting state handles every message, the closing of the input, every
configuration, and the timer once it is due.\<close>

theorem limiter_progress:
  assumes "zone_ok (loc (PeriodEnd (lim c)))" and "zone_ok (loc now)"
    and "periodTimer (lim c) = Some d" and "d \<le> ns now"
  shows "(st c \<in> {Initial, Cleanup} \<longrightarrow> lim_step W store c (now, Go) \<noteq> None)
    \<and> (st c \<in> {UnderBudget, OverBudget} \<longrightarrow> (\<forall>inp. inp \<noteq> Go \<longrightarrow> lim_step W store c (now, inp) \<noteq> None))"
proof -
  obtain t where t: "ensureFuture (PeriodEnd (lim c)) now = Some t"
    using ensureFuture_total [OF assms(1)] by blast
  have "zone_ok (loc (dayThisMonth day now))" for day
    using assms(2) by (simp add: dayThisMonth_def split: prod.split)
  then have conf: "\<exists>t. ensureFuture (dayThisMonth day now) now = Some t" for day
    using ensureFuture_total by blast
  have "timer_fires store now c \<noteq> None" and "apply_conf W store now conf c \<noteq> None" for conf
    using t conf [of "CDate conf"] assms(3,4)
    by (auto simp: timer_fires_def startThisPeriod_def apply_conf_def)
  then show ?thesis
    by (auto simp: underBudget_def overBudget_def split: lim_input.splits)
qed

theorem limiter_progress_witness:
  "lim_step 64 cell_store ((witness_conf None 100 95)\<lparr>lim := (lim (witness_conf None 100 95))\<lparr>periodTimer := Some 0\<rparr>\<rparr>)
     (some_time, TimerFires) \<noteq> None"
  using limiter_progress [of "(witness_conf None 100 95)\<lparr>lim := (lim (witness_conf None 100 95))\<lparr>periodTimer := Some 0\<rparr>\<rparr>"
      some_time 0 64 cell_store]
  by (simp add: witness_conf_def zero_time_def some_time_def del: lim_step.simps)

section \<open>Reconfiguration\<close>

text \<open>
  A poll of the backend: a configuration arrives, the initial state is passed, a message follows.
\<close>

definition poll_and_send :: "gotime \<Rightarrow> CellularConfig \<Rightarrow> Message \<Rightarrow> (gotime \<times> lim_input) list" where
  "poll_and_send now conf m = [(now, Configure conf), (now, Go), (now, Receive m)]"

lemma poll_and_send_passes:
  assumes "st c \<in> {UnderBudget, OverBudget}" and "zone_ok (loc now)"
    and "0 < W" "0 < Limit conf" "Defined conf" "fits W (9 * (1000000 * Limit conf))"
    and "msg_len m \<le> 1000000 * Limit conf"
  shows "\<exists>c'. lim_run W store c (poll_and_send now conf m) = Some c'
    \<and> sent c' = sent c @ [m] \<and> st c' \<in> {UnderBudget, OverBudget}"
proof -
  have "zone_ok (loc (dayThisMonth (CDate conf) now))"
    using assms(2) by (simp add: dayThisMonth_def split: prod.split)
  then obtain t where t: "ensureFuture (dayThisMonth (CDate conf) now) now = Some t"
    using ensureFuture_total by blast
  have fit: "fits W (1000000 * Limit conf)" and fit_m: "fits W (msg_len m)"
  proof -
    have "(0::int) \<le> 2 ^ (W - 1)" by simp
    then show "fits W (1000000 * Limit conf)" and "fits W (msg_len m)"
      using assms(4,6,7) msg_len_nonneg [of m] unfolding fits_def by linarith+
  qed
  obtain c1 where c1: "apply_conf W store now conf c = Some c1"
    using t by (simp add: apply_conf_def)
  from apply_conf_Some [OF c1] obtain w where
    c1': "c1 = c\<lparr>lim := (lim c)\<lparr>PeriodEnd := t, Budget := 1000000 * Limit conf, HasBudget := True, Count := 0\<rparr>,
      world := w, st := Initial\<rparr>"
    using t fit assms(3,5) by auto
  define c2 where "c2 = initial W now c1"
  have l2: "HasBudget (lim c2)" "Count (lim c2) = 0" "Budget (lim c2) = 1000000 * Limit conf"
    "sent c2 = sent c" "st c2 = UnderBudget"
    using assms(3,4,6) by (auto simp: c2_def c1' initial_def Let_def ninetyPercent_def sdiv_nonneg not_less)
  define c3 where "c3 = handleMessage W store m c2"
  have "sent c3 = sent c @ [m] \<and> st c3 \<in> {UnderBudget, OverBudget}"
    unfolding c3_def using l2 fit_m assms(3,7)
    by (cases rule: handleMessage_cases [of c2 W m store]) auto
  moreover have "lim_step W store c (now, Configure conf) = Some c1"
    using c1 assms(1) by (auto simp: underBudget_def overBudget_def)
  moreover have "lim_step W store c1 (now, Go) = Some c2"
    by (simp add: c2_def c1')
  moreover have "lim_step W store c2 (now, Receive m) = Some c3"
    using l2 by (simp add: c3_def underBudget_def)
  ultimately show ?thesis
    by (intro exI [of _ c3]) (simp add: poll_and_send_def del: lim_step.simps)
qed

text \<open>C35: Every configuration resets the count, also one that changes nothing, and the client polls
for one every hour: a limiter that is configured \<open>k\<close> times within one period passes \<open>k\<close>
messages of up to the whole budget each, at one instant, so the bytes of a period are not bounded by
its budget.\<close>

theorem reconfiguring_defeats_budget:
  assumes "st c \<in> {UnderBudget, OverBudget}" and "zone_ok (loc now)"
    and "0 < W" "0 < Limit conf" "Defined conf" "fits W (9 * (1000000 * Limit conf))"
    and "msg_len m \<le> 1000000 * Limit conf"
  shows "\<exists>c'. lim_run W store c (concat (replicate k (poll_and_send now conf m))) = Some c'
    \<and> sent c' = sent c @ replicate k m \<and> bytes_of (replicate k m) = int k * msg_len m"
proof -
  have "\<exists>c'. lim_run W store c (concat (replicate k (poll_and_send now conf m))) = Some c'
    \<and> sent c' = sent c @ replicate k m"
    using assms(1)
  proof (induction k arbitrary: c)
    case 0
    then show ?case by simp
  next
    case (Suc k)
    from poll_and_send_passes [OF Suc.prems assms(2-7)] obtain c1 where
      c1: "lim_run W store c (poll_and_send now conf m) = Some c1"
        "sent c1 = sent c @ [m]" "st c1 \<in> {UnderBudget, OverBudget}" by blast
    from Suc.IH [OF c1(3)] c1(1,2) show ?case by (auto simp: run_append)
  qed
  moreover have "bytes_of (replicate k m) = int k * msg_len m"
    by (induction k) (simp_all add: distrib_right)
  ultimately show ?thesis by blast
qed

theorem reconfiguring_defeats_budget_witness:
  "\<exists>c' m. lim_run 64 cell_store (witness_conf None 100 95)
       (concat (replicate 3 (poll_and_send some_time \<lparr>CDate = 1, Defined = True, Limit = 1\<rparr> m))) = Some c'
     \<and> sent c' = [m, m, m] \<and> bytes_of (sent c') = 3000000"
proof -
  let ?m = "empty_message\<lparr>Bytes := replicate 1000000 (CHR ''x'')\<rparr>"
  have len: "msg_len ?m = 1000000" by (simp add: msg_len_def)
  have three: "replicate 3 ?m = [?m, ?m, ?m]" by (simp only: numeral_3_eq_3 replicate.simps)
  let ?conf = "\<lparr>CDate = 1, Defined = True, Limit = 1\<rparr>"
  from reconfiguring_defeats_budget [of "witness_conf None 100 95" some_time 64 ?conf ?m cell_store 3]
  obtain c' where "lim_run 64 cell_store (witness_conf None 100 95)
       (concat (replicate 3 (poll_and_send some_time ?conf ?m))) = Some c'"
    "sent c' = sent (witness_conf None 100 95) @ replicate 3 ?m"
    "bytes_of (replicate 3 ?m) = int 3 * msg_len ?m"
    by (auto simp: witness_conf_def some_time_def fits_def len)
  then show ?thesis
    unfolding three by (intro exI [of _ c'] exI [of _ ?m]) (simp add: witness_conf_def len)
qed

text \<open>Where \<open>int\<close> has 32 bits, a limit of 239 to 477 megabytes overflows the computation of its
nine tenths: right after such a limit is configured the limiter is over budget, with nothing sent.\<close>

theorem budget_overflow_32:
  assumes "apply_conf 32 store now conf c = Some c'" and "Defined conf"
    and "239 \<le> Limit conf" and "Limit conf \<le> 477"
  shows "st (initial 32 t c') = OverBudget \<and> Count (lim (initial 32 t c')) = 0"
proof -
  let ?x = "9 * (1000000 * Limit conf) + 2 ^ 31" and ?b = "2 ^ 32 :: int"
  have "?x mod ?b = (?x - ?b) mod ?b" by (simp only: minus_mod_self2)
  also have "\<dots> = ?x - ?b" using assms(3,4) by (intro mod_pos_pos_trivial) simp_all
  finally have "swrap 32 (9 * (1000000 * Limit conf)) = 9000000 * Limit conf - 2 ^ 32"
    by (simp add: swrap_def)
  with assms(3,4) have neg: "swrap 32 (9 * (1000000 * Limit conf)) \<le> -10" by simp
  then have "swrap 32 (9 * (1000000 * Limit conf)) sdiv 10 < 0"
    by (simp add: signed_divide_int_def)
  moreover have "fits 32 (1000000 * Limit conf)" using assms(3,4) by (simp add: fits_def)
  ultimately show ?thesis
    using apply_conf_Some [OF assms(1)] assms(2)
    by (auto simp: initial_def Let_def ninetyPercent_def)
qed

theorem budget_overflow_32_witness:
  "\<exists>c'. apply_conf 32 cell_store some_time \<lparr>CDate = 1, Defined = True, Limit = 300\<rparr> (witness_conf None 100 0) = Some c'
     \<and> st (initial 32 some_time c') = OverBudget"
proof -
  have "zone_ok (loc (dayThisMonth 1 some_time))"
    by (simp add: dayThisMonth_def some_time_def split: prod.split)
  from ensureFuture_total [OF this, of some_time] obtain t where "ensureFuture (dayThisMonth 1 some_time) some_time = Some t"
    by blast
  then obtain c' where c': "apply_conf 32 cell_store some_time \<lparr>CDate = 1, Defined = True, Limit = 300\<rparr>
      (witness_conf None 100 0) = Some c'"
    by (auto simp: apply_conf_def)
  from budget_overflow_32 [OF c', of some_time] c' show ?thesis by auto
qed

end
