(* ===== verification/Client.thy ===== *)
theory Client
  imports Config App Schema Mqtt Limiter
begin

text \<open>
  The command \<open>cmd/client/main.go\<close>: the command line, the three pipelines, the choice of the
  directory for the client's files, the serial output and the loop that polls the backend for limits.
\<close>

section \<open>The command line\<close>

record flags =
  baseURL :: string
  userVersion :: string
  serialOut :: string
  printClientVersion :: bool
  viewLicenses :: bool
  noNetwork :: bool

definition no_flags :: flags where
  "no_flags = \<lparr>baseURL = [], userVersion = [], serialOut = [], printClientVersion = False, viewLicenses = False,
     noNetwork = False\<rparr>"

text \<open>Package \<open>flag\<close> for these six flags: the kind of each, and how a value is stored.\<close>

datatype flag_kind = StringFlag "string \<Rightarrow> flags \<Rightarrow> flags" | BoolFlag "bool \<Rightarrow> flags \<Rightarrow> flags"

definition lookup_flag :: "string \<Rightarrow> flag_kind option" where
  "lookup_flag name =
     (if name = ''base-url'' then Some (StringFlag (\<lambda>s f. f\<lparr>baseURL := s\<rparr>))
      else if name = ''appVersion'' then Some (StringFlag (\<lambda>s f. f\<lparr>userVersion := s\<rparr>))
      else if name = ''serial-out'' then Some (StringFlag (\<lambda>s f. f\<lparr>serialOut := s\<rparr>))
      else if name = ''version'' then Some (BoolFlag (\<lambda>b f. f\<lparr>printClientVersion := b\<rparr>))
      else if name = ''licenses'' then Some (BoolFlag (\<lambda>b f. f\<lparr>viewLicenses := b\<rparr>))
      else if name = ''no-network'' then Some (BoolFlag (\<lambda>b f. f\<lparr>noNetwork := b\<rparr>))
      else None)"

definition parse_bool :: "string \<Rightarrow> bool option" where
  "parse_bool s =
     (if s \<in> {''1'', ''t'', ''T'', ''true'', ''TRUE'', ''True''} then Some True
      else if s \<in> {''0'', ''f'', ''F'', ''false'', ''FALSE'', ''False''} then Some False else None)"

text \<open>The text of a flag without its dashes: the name and, after \<open>=\<close>, the value.\<close>

definition split_flag :: "string \<Rightarrow> string \<times> string option" where
  "split_flag s =
     (case dropWhile (\<lambda>c. c \<noteq> CHR ''='') (tl s) of
        [] \<Rightarrow> (s, None)
      | _ # v \<Rightarrow> (take 1 s @ takeWhile (\<lambda>c. c \<noteq> CHR ''='') (tl s), Some v))"

fun set_flag :: "string \<times> string option \<Rightarrow> string list \<Rightarrow> flags \<Rightarrow> string + flags \<times> string list" where
  "set_flag (name, val) args f =
     (case lookup_flag name of
        None \<Rightarrow> Inl (if name \<in> {''help'', ''h''} then ''flag: help requested''
                    else ''flag provided but not defined: -'' @ name)
      | Some (BoolFlag g) \<Rightarrow>
          (case val of
             None \<Rightarrow> Inr (g True f, args)
           | Some v \<Rightarrow> (case parse_bool v of Some b \<Rightarrow> Inr (g b f, args) | None \<Rightarrow> Inl ''invalid boolean value''))
      | Some (StringFlag g) \<Rightarrow>
          (case (val, args) of
             (Some v, _) \<Rightarrow> Inr (g v f, args)
           | (None, v # args') \<Rightarrow> Inr (g v f, args')
           | (None, []) \<Rightarrow> Inl (''flag needs an argument: -'' @ name)))"

lemma set_flag_shorter [termination_simp]: "set_flag nv args f = Inr (f', args') \<Longrightarrow> length args' \<le> length args"
  by (cases nv) (auto split: option.splits flag_kind.splits list.splits if_splits)

text \<open>\<open>Parse\<close>: flags up to the first argument that is none, or up to \<open>--\<close>.\<close>

function Parse :: "string list \<Rightarrow> flags \<Rightarrow> string + flags \<times> string list" where
  "Parse args f =
     (case args of
        [] \<Rightarrow> Inr (f, [])
      | s # rest \<Rightarrow>
          if length s < 2 \<or> take 1 s \<noteq> ''-'' then Inr (f, s # rest)
          else if s = ''--'' then Inr (f, rest)
          else (let name = (if take 2 s = ''--'' then drop 2 s else drop 1 s) in
                if name = [] \<or> take 1 name = ''-'' \<or> take 1 name = ''='' then Inl (''bad flag syntax: '' @ s)
                else (case set_flag (split_flag name) rest f of
                        Inl err \<Rightarrow> Inl err
                      | Inr (f', rest') \<Rightarrow> Parse rest' f')))"
  by pat_completeness auto
termination
  by (relation "measure (length \<circ> fst)") (auto dest: set_flag_shorter)

declare Parse.simps [simp del]

datatype pipeline = Serial string string | Dumper | Network string string

datatype action = Fatal string | PrintVersion | PrintLicenses | Usage | Run_app pipeline string "string list"

definition main :: "string list \<Rightarrow> action" where
  "main args =
     (case Parse args no_flags of
        Inl err \<Rightarrow> Fatal err
      | Inr (f, rest) \<Rightarrow>
          if printClientVersion f then PrintVersion
          else if viewLicenses f then PrintLicenses
          else (case rest of
                  [] \<Rightarrow> Usage
                | name # args' \<Rightarrow>
                    Run_app (if serialOut f \<noteq> [] then Serial (serialOut f) (userVersion f)
                       else if noNetwork f then Dumper else Network (userVersion f) (baseURL f)) name args'))"

section \<open>Where the client keeps its files\<close>

definition selectPrefix ::
  "('w, 'h) Fs \<Rightarrow> ('w \<Rightarrow> (string + string) \<times> 'w) \<Rightarrow> (string \<Rightarrow> string) \<Rightarrow> 'w \<Rightarrow> (string + string) \<times> 'w"
where
  "selectPrefix fs TempDir env w =
     (let home = env ''HOME'' @ ''/'' in
      case MkdirAll fs (''./'' @ ''.auklet'') w of
        (None, w1) \<Rightarrow> (Inr ''./'', w1)
      | (Some _, w1) \<Rightarrow>
          (case MkdirAll fs (home @ ''.auklet'') w1 of
             (None, w2) \<Rightarrow> (Inr home, w2)
           | (Some _, w2) \<Rightarrow> TempDir w2))"

definition creds_path :: "string \<Rightarrow> string" where
  "creds_path pre = pre @ ''.auklet/identification''"

definition msg_path :: "string \<Rightarrow> string" where
  "msg_path pre = pre @ ''.auklet/message''"

definition limit_path :: "string \<Rightarrow> string" where
  "limit_path pre = pre @ ''.auklet/datalimit.json''"

section \<open>The client\<close>

record 'w client =
  msgPath :: string
  limPath :: string
  cl_api :: API
  cl_userVersion :: string
  cl_username :: string
  cl_appID :: string
  cl_macHash :: string
  producer :: "'w MQTTProducer option"

text \<open>\<open>newclient\<close> with a prefix, as the result of \<open>selectPrefix\<close>, the hash of the interfaces, and
the environment. A temporary directory that cannot be made leaves the prefix empty.\<close>

definition client_api :: "(string \<Rightarrow> string) \<Rightarrow> string \<Rightarrow> string \<Rightarrow> string \<Rightarrow> API" where
  "client_api env pre macHash base =
     \<lparr>BaseURL = env_BaseURL env base, Key = env_APIKey env, AppID = env_AppID env, MacHash = macHash,
      CredsPath = creds_path pre, EP_Releases = ReleasesEP, EP_Certificates = CertificatesEP,
      EP_Devices = DevicesEP, EP_Config = ConfigEP, EP_DataLimit = DataLimitEP\<rparr>"

definition backend_of ::
  "'w Http \<Rightarrow> ('w, 'h) Fs \<Rightarrow> (bytes \<Rightarrow> bool) \<Rightarrow> API \<Rightarrow> 'w Backend"
where
  "backend_of http fs pem_ok a =
     \<lparr>get_Credentials = Credentials_of http fs a, get_BrokerAddress = BrokerAddress http a,
      get_Certificates = Certificates pem_ok http a\<rparr>"

definition newclient ::
  "('w, 'h) Fs \<Rightarrow> ('w \<Rightarrow> (string + string) \<times> 'w) \<Rightarrow> 'w Http \<Rightarrow> (bytes \<Rightarrow> bool) \<Rightarrow> (ClientOptions \<Rightarrow> 'w Client) \<Rightarrow>
   8 word list list \<Rightarrow> (string \<Rightarrow> string) \<Rightarrow> string \<Rightarrow> string \<Rightarrow> 'w \<Rightarrow> ((string + 'w client) \<times> 'w) go"
where
  "newclient fs TempDir http pem_ok NewClient interfaces env userVer base w =
     (case selectPrefix fs TempDir env w of
        (p, w1) \<Rightarrow>
          (let pre = (case p of Inl _ \<Rightarrow> [] | Inr s \<Rightarrow> s) in
           case IfaceHash interfaces of
             None \<Rightarrow> Panics
           | Some macHash \<Rightarrow>
               (let a = client_api env pre macHash base in
                case NewConfig NewClient (backend_of http fs pem_ok a) w1 of
                  Panics \<Rightarrow> Panics
                | Returns (Inl err, w2) \<Rightarrow> Returns (Inl (api_error_text err), w2)
                | Returns (Inr cfg, w2) \<Rightarrow>
                    (case NewMQTTProducer cfg w2 of
                       (Inl err, w3) \<Rightarrow> Returns (Inl err, w3)
                     | (Inr mp, w3) \<Rightarrow>
                         Returns (Inr \<lparr>msgPath = msg_path pre, limPath = limit_path pre, cl_api = a,
                           cl_userVersion = userVer, cl_username = Username (Creds cfg), cl_appID = env_AppID env,
                           cl_macHash = macHash, producer = Some mp\<rparr>, w3)))))"

text \<open>How a run of the client ends, or that it serves the application through the pipeline.\<close>

datatype 'w outcome =
    Died string
  | NotServed "app_error option"
  | NoProducer
  | ConnectFailed app_error Exec
  | Serving Exec "'w MQTTProducer"

definition client_run ::
  "'w Os \<Rightarrow> (bytes \<Rightarrow> string) \<Rightarrow> 'w Http \<Rightarrow> 'w client \<Rightarrow> Exec \<Rightarrow> 'w \<Rightarrow> ('w outcome \<times> 'w) go"
where
  "client_run os sha http c e w =
     (case CheckSum_of os sha e w of
        (checksum, e1) \<Rightarrow>
          (case Release http (cl_api c) checksum w of
             Panics \<Rightarrow> Panics
           | Returns (Some _, w1) \<Rightarrow> (case Run os e1 w1 of (err, _, w2) \<Rightarrow> Returns (NotServed err, w2))
           | Returns (None, w1) \<Rightarrow>
               (case producer c of
                  None \<Rightarrow> Returns (NoProducer, w1)
                | Some p \<Rightarrow>
                    (case Connect os e1 w1 of
                       Panics \<Rightarrow> Panics
                     | Returns (Some err, e2, w2) \<Rightarrow> Returns (ConnectFailed err e2, w2)
                     | Returns (None, e2, w2) \<Rightarrow> Returns (Serving e2 p, w2)))))"

text \<open>\<open>main\<close> for the network pipeline.\<close>

definition main_network ::
  "'w Os \<Rightarrow> (string \<Rightarrow> string option) \<Rightarrow> (bytes \<Rightarrow> string) \<Rightarrow> ('w, 'h) Fs \<Rightarrow> ('w \<Rightarrow> (string + string) \<times> 'w) \<Rightarrow> 'w Http \<Rightarrow> (bytes \<Rightarrow> bool) \<Rightarrow>
   (ClientOptions \<Rightarrow> 'w Client) \<Rightarrow> 8 word list list \<Rightarrow> (string \<Rightarrow> string) \<Rightarrow> string \<Rightarrow> string \<Rightarrow> string \<Rightarrow> string list \<Rightarrow>
   'w \<Rightarrow> ('w outcome \<times> 'w) go"
where
  "main_network os look sha fs TempDir http pem_ok NewClient interfaces env userVer base name args w =
     (case newclient fs TempDir http pem_ok NewClient interfaces env userVer base w of
        Panics \<Rightarrow> Panics
      | Returns (Inl err, w1) \<Rightarrow> Returns (Died err, w1)
      | Returns (Inr c, w1) \<Rightarrow> client_run os sha http c (NewExec look name args) w1)"

section \<open>The pipelines without network\<close>

text \<open>The serial and the dumping pipeline connect at once, with no check of the release.\<close>

definition local_run :: "'w Os \<Rightarrow> Exec \<Rightarrow> 'w \<Rightarrow> ((app_error option \<times> Exec) \<times> 'w) go" where
  "local_run os e w =
     (case Connect os e w of Panics \<Rightarrow> Panics | Returns (err, e', w') \<Rightarrow> Returns ((err, e'), w'))"

text \<open>What the dumper prints for the messages it merges; \<open>raw\<close> is the text of a message's data as the agent wrote it.\<close>

definition dump :: "(json option \<Rightarrow> string) \<Rightarrow> agent_Message list \<Rightarrow> string" where
  "dump raw ms =
     concat (map (\<lambda>m. ''type: '' @ Type m @ [CHR 0x0A] @ ''data: '' @ raw (Data m) @ [CHR 0x0A, CHR 0x0A]) ms)"

text \<open>
  \<open>json.Marshal\<close> of a \<open>RawMessage\<close>: nil is \<open>null\<close>, and anything else has to be one valid JSON value,
  whose white space is left out and whose HTML characters are escaped.
\<close>

definition html_esc :: "char \<Rightarrow> string" where
  "html_esc c = (if c \<in> {CHR ''<'', CHR ''>'', CHR ''&''} then esc c else [c])"

fun compact :: "bool \<Rightarrow> string \<Rightarrow> string" where
  "compact inside [] = []"
| "compact False (c # s) =
     (if is_ws c then compact False s else html_esc c @ compact (c = dquote) s)"
| "compact True (c # s) =
     (if c = bslash then
        (case s of [] \<Rightarrow> [c] | e # s' \<Rightarrow> c # html_esc e @ compact True s')
      else html_esc c @ compact (c \<noteq> dquote) s)"

definition raw_text :: "bytes \<Rightarrow> string option" where
  "raw_text b =
     (if b = [] then Some ''null''
      else case parse b of
             Some (_, rest) \<Rightarrow> if skip_ws rest = [] then Some (compact False b) else None
           | None \<Rightarrow> None)"

definition serial_line :: "Message \<Rightarrow> string option" where
  "serial_line m =
     map_option (\<lambda>t. ''{'' @ quote ''topic'' @ '':'' @ quote (''c/'' @ Topic m @ ''/'') @ '','' @ quote ''payload'' @ '':''
         @ t @ ''}'' @ [CHR 0x0D, CHR 0x0A])
       (raw_text (Bytes m))"

text \<open>\<open>tryWrite\<close>: the device is opened first; every failure is logged and the message is gone.\<close>

definition tryWrite :: "('w, 'h) Fs \<Rightarrow> string \<Rightarrow> Message \<Rightarrow> 'w \<Rightarrow> 'w" where
  "tryWrite fs addr m w =
     (case OpenFile fs addr [O_WRONLY, O_CREATE, O_TRUNC] w of
        (Inl _, w') \<Rightarrow> w'
      | (Inr f, w') \<Rightarrow>
          (case serial_line m of
             None \<Rightarrow> w'
           | Some l \<Rightarrow> snd (Write fs f l w')))"

section \<open>Polling the backend\<close>

text \<open>
  The goroutine of \<open>pollConfig\<close> waits for the next tick, or is sending a limit to the persistor, the
  requester or the limiter, in this order, through channels that hold one value. \<open>p_taken\<close>,
  \<open>r_taken\<close> and \<open>l_taken\<close> are what the three have received.
\<close>

datatype poll_phase = AwaitTick | SendStorage DataLimit | SendPeriod DataLimit | SendCellular DataLimit

record poll =
  poll_phase :: poll_phase
  tick_pending :: bool
  p_chan :: "int option option"
  r_chan :: "int option"
  l_chan :: "CellularConfig option"
  p_taken :: "int option list"
  r_taken :: "int list"
  l_taken :: "CellularConfig list"

text \<open>The first poll needs no tick.\<close>

definition new_poll :: poll where
  "new_poll = \<lparr>poll_phase = AwaitTick, tick_pending = True, p_chan = None, r_chan = None, l_chan = None,
     p_taken = [], r_taken = [], l_taken = []\<rparr>"

datatype poll_event =
    Hour
  | Polled "string + DataLimit"
  | SentStorage | SentPeriod | SentCellular
  | TakeStorage | TakePeriod | TakeCellular

fun poll_step :: "poll \<Rightarrow> poll_event \<Rightarrow> poll option" where
  "poll_step s Hour = Some (s\<lparr>tick_pending := True\<rparr>)"
| "poll_step s (Polled res) =
     (if poll_phase s = AwaitTick \<and> tick_pending s then
        Some (s\<lparr>tick_pending := False,
          poll_phase := (case res of Inl _ \<Rightarrow> AwaitTick | Inr dl \<Rightarrow> SendStorage dl)\<rparr>)
      else None)"
| "poll_step s SentStorage =
     (case (poll_phase s, p_chan s) of
        (SendStorage dl, None) \<Rightarrow> Some (s\<lparr>p_chan := Some (Storage dl), poll_phase := SendPeriod dl\<rparr>)
      | _ \<Rightarrow> None)"
| "poll_step s SentPeriod =
     (case (poll_phase s, r_chan s) of
        (SendPeriod dl, None) \<Rightarrow> Some (s\<lparr>r_chan := Some (EmissionPeriod dl), poll_phase := SendCellular dl\<rparr>)
      | _ \<Rightarrow> None)"
| "poll_step s SentCellular =
     (case (poll_phase s, l_chan s) of
        (SendCellular dl, None) \<Rightarrow> Some (s\<lparr>l_chan := Some (Cellular dl), poll_phase := AwaitTick\<rparr>)
      | _ \<Rightarrow> None)"
| "poll_step s TakeStorage =
     (case p_chan s of Some x \<Rightarrow> Some (s\<lparr>p_chan := None, p_taken := p_taken s @ [x]\<rparr>) | None \<Rightarrow> None)"
| "poll_step s TakePeriod =
     (case r_chan s of Some x \<Rightarrow> Some (s\<lparr>r_chan := None, r_taken := r_taken s @ [x]\<rparr>) | None \<Rightarrow> None)"
| "poll_step s TakeCellular =
     (case l_chan s of Some x \<Rightarrow> Some (s\<lparr>l_chan := None, l_taken := l_taken s @ [x]\<rparr>) | None \<Rightarrow> None)"

section \<open>Facts\<close>

lemma Parse_stop: "length s < 2 \<or> take 1 s \<noteq> ''-'' \<Longrightarrow> Parse (s # rest) f = Inr (f, s # rest)"
  by (subst Parse.simps) auto

lemma Parse_Nil [simp]: "Parse [] f = Inr (f, [])"
  by (subst Parse.simps) simp

lemma Parse_flag:
  "name \<noteq> [] \<Longrightarrow> take 1 name \<noteq> ''-'' \<Longrightarrow> take 1 name \<noteq> ''='' \<Longrightarrow>
   Parse ((''--'' @ name) # rest) f =
     (case set_flag (split_flag name) rest f of Inl err \<Rightarrow> Inl err | Inr (f', rest') \<Rightarrow> Parse rest' f')"
  by (subst Parse.simps) auto

text \<open>The flags of a command line, each written with its value.\<close>

definition flag_args :: "flags \<Rightarrow> string list" where
  "flag_args f =
     (if baseURL f = [] then [] else [''--base-url='' @ baseURL f])
     @ (if userVersion f = [] then [] else [''--appVersion='' @ userVersion f])
     @ (if serialOut f = [] then [] else [''--serial-out='' @ serialOut f])
     @ (if printClientVersion f then [''--version''] else [])
     @ (if viewLicenses f then [''--licenses''] else [])
     @ (if noNetwork f then [''--no-network''] else [])"

lemma split_flag_eq:
  "name \<noteq> [] \<Longrightarrow> CHR ''='' \<notin> set (tl name) \<Longrightarrow> split_flag (name @ CHR ''='' # v) = (name, Some v)"
  "CHR ''='' \<notin> set (tl name) \<Longrightarrow> split_flag name = (name, None)"
proof -
  show "split_flag name = (name, None)" if "CHR ''='' \<notin> set (tl name)"
  proof -
    have "dropWhile (\<lambda>c. c \<noteq> CHR ''='') (tl name) = []"
      unfolding dropWhile_eq_Nil_conv using that by metis
    then show ?thesis by (simp only: split_flag_def list.case)
  qed
  show "split_flag (name @ CHR ''='' # v) = (name, Some v)" if ne: "name \<noteq> []" and eq: "CHR ''='' \<notin> set (tl name)"
  proof -
    obtain c t where n: "name = c # t" using ne by (cases name) auto
    with eq have "\<forall>x \<in> set t. x \<noteq> CHR ''=''" by auto
    then have "dropWhile (\<lambda>c. c \<noteq> CHR ''='') (t @ CHR ''='' # v) = CHR ''='' # v"
      "takeWhile (\<lambda>c. c \<noteq> CHR ''='') (t @ CHR ''='' # v) = t" by (induction t) auto
    then show ?thesis by (simp add: split_flag_def n)
  qed
qed

lemma Parse_value_flag:
  assumes "lookup_flag name = Some (StringFlag g)" and "CHR ''='' \<notin> set name" and "take 1 name \<noteq> ''-''"
  shows "Parse ((''--'' @ name @ CHR ''='' # v) # rest) f = Parse rest (g v f)"
proof -
  have ne: "name \<noteq> []" using assms(1) by (auto simp: lookup_flag_def)
  then have "CHR ''='' \<notin> set (tl name)" using assms(2) by (cases name) auto
  with ne have "split_flag (name @ CHR ''='' # v) = (name, Some v)" by (intro split_flag_eq)
  moreover have "take 1 (name @ CHR ''='' # v) \<noteq> ''-''" "take 1 (name @ CHR ''='' # v) \<noteq> ''=''"
    using ne assms(2,3) by (cases name; auto)+
  ultimately show ?thesis
    using assms(1) by (simp add: Parse_flag [of "name @ CHR ''='' # v", simplified])
qed

lemma Parse_bool_flag:
  assumes "lookup_flag name = Some (BoolFlag g)" and "CHR ''='' \<notin> set name" and "take 1 name \<noteq> ''-''"
  shows "Parse ((''--'' @ name) # rest) f = Parse rest (g True f)"
proof -
  have ne: "name \<noteq> []" using assms(1) by (auto simp: lookup_flag_def)
  then have "CHR ''='' \<notin> set (tl name)" "take 1 name \<noteq> ''=''" using assms(2) by (cases name; auto)+
  with ne assms show ?thesis
    by (simp add: Parse_flag [of name, simplified] split_flag_eq)
qed

lemmas flag_rules =
  Parse_value_flag [of "''base-url''", simplified] Parse_value_flag [of "''appVersion''", simplified]
  Parse_value_flag [of "''serial-out''", simplified] Parse_bool_flag [of "''version''", simplified]
  Parse_bool_flag [of "''licenses''", simplified] Parse_bool_flag [of "''no-network''", simplified]

lemma Parse_flag_args:
  assumes "length name < 2 \<or> take 1 name \<noteq> ''-''"
  shows "Parse (flag_args f @ name # args) no_flags = Inr (f, name # args)"
  using Parse_stop [OF assms, of args]
  by (cases f) (simp add: flag_args_def flag_rules lookup_flag_def no_flags_def)

subsection \<open>Compact JSON\<close>

lemma html_esc_plain: "c \<notin> {CHR ''<'', CHR ''>'', CHR ''&''} \<Longrightarrow> html_esc c = [c]"
  by (simp add: html_esc_def)

lemma esc_cases:
  obtains (plain) "plain c" "esc c = [c]"
  | (escape) e r where "esc c = bslash # e # r" "e \<notin> {CHR ''<'', CHR ''>'', CHR ''&''}"
      "\<forall>x \<in> set r. x \<notin> {CHR ''<'', CHR ''>'', CHR ''&'', dquote, bslash}"
proof (cases "plain c")
  case True
  then show ?thesis using plain by (simp add: esc_def)
next
  case False
  have hex: "hex_digit n \<notin> {CHR ''<'', CHR ''>'', CHR ''&'', dquote, bslash}" if "n < 16" for n
  proof
    assume "hex_digit n \<in> {CHR ''<'', CHR ''>'', CHR ''&'', dquote, bslash}"
    moreover have "hex_val (hex_digit n) = Some n" using that by simp
    ultimately show False by (auto simp: hex_val_def)
  qed
  have "byte c < 128" using False by (rule not_plain)
  then have "byte c div 16 < 16" by linarith
  with hex False show ?thesis
    by (intro escape [of "if c = dquote \<or> c = bslash then c else if c = CHR 0x0A then CHR ''n''
          else if c = CHR 0x0D then CHR ''r'' else if c = CHR 0x09 then CHR ''t'' else CHR ''u''"
        "if c \<in> {dquote, bslash, CHR 0x0A, CHR 0x0D, CHR 0x09} then []
         else [CHR ''0'', CHR ''0'', hex_digit (byte c div 16), hex_digit (byte c mod 16)]"])
      (auto simp: esc_def)
qed

lemma compact_inside:
  "\<forall>x \<in> set t. x \<notin> {CHR ''<'', CHR ''>'', CHR ''&'', dquote, bslash} \<Longrightarrow> compact True (t @ r) = t @ compact True r"
  by (induction t) (simp_all add: html_esc_plain)

lemma compact_string: "compact True (concat (map esc s) @ dquote # r) = concat (map esc s) @ dquote # compact False r"
proof (induction s)
  case Nil
  then show ?case by (simp add: html_esc_plain)
next
  case (Cons c s)
  show ?case
  proof (cases c rule: esc_cases)
    case plain
    then have "c \<notin> {CHR ''<'', CHR ''>'', CHR ''&''}" "c \<noteq> dquote" "c \<noteq> bslash" by (auto simp: plain_def)
    with plain(2) Cons.IH show ?thesis by (simp add: html_esc_plain)
  next
    case (escape e u)
    have "compact True (u @ concat (map esc s) @ dquote # r) = u @ compact True (concat (map esc s) @ dquote # r)"
      using escape(3) by (rule compact_inside)
    with escape(1,2) Cons.IH show ?thesis by (simp add: html_esc_plain)
  qed
qed

lemma compact_quote: "compact False (quote s @ r) = quote s @ compact False r"
  by (simp add: quote_def html_esc_plain is_ws_def compact_string)

lemma compact_outside:
  "\<forall>x \<in> set t. x \<notin> {CHR ''<'', CHR ''>'', CHR ''&'', dquote} \<and> \<not> is_ws x \<Longrightarrow>
   compact False (t @ r) = t @ compact False r"
  by (induction t) (simp_all add: html_esc_plain)

lemma num_char_outside:
  assumes "is_num_char x"
  shows "x \<notin> {CHR ''<'', CHR ''>'', CHR ''&'', dquote} \<and> \<not> is_ws x"
  using assms by (auto simp: is_num_char_def is_digit_def is_ws_def)

text \<open>What \<open>json.Marshal\<close> writes is compact.\<close>

lemma compact_render:
  "wf_json v \<Longrightarrow> compact False (render v @ r) = render v @ compact False r"
  "(\<forall>v \<in> set vs. wf_json v) \<Longrightarrow> compact False (render_elems vs @ r) = render_elems vs @ compact False r"
  "(\<forall>m \<in> set ms. wf_json (snd m)) \<Longrightarrow> compact False (render_members ms @ r) = render_members ms @ compact False r"
proof (induction v and vs and ms arbitrary: r and r and r rule: render_render_elems_render_members.induct)
  case (3 n)
  then have "\<forall>x \<in> set n. is_num_char x" by (simp add: list_all_iff)
  then show ?case using num_char_outside by (simp add: compact_outside)
qed (simp_all add: compact_quote html_esc_plain is_ws_def)

section \<open>Properties\<close>

text \<open>C39: The command line is read as it is meant: flags before the command have the values they were given, everything
from the command on belongs to the application, even what looks like a flag, and of the flags that
choose what the client does, \<open>version\<close> comes first, then \<open>licenses\<close>, \<open>serial-out\<close> and \<open>no-network\<close>.\<close>

theorem command_line:
  assumes "length name < 2 \<or> take 1 name \<noteq> ''-''"
  shows "main (flag_args f @ name # args) =
    (if printClientVersion f then PrintVersion else if viewLicenses f then PrintLicenses
     else Run_app (if serialOut f \<noteq> [] then Serial (serialOut f) (userVersion f)
       else if noNetwork f then Dumper else Network (userVersion f) (baseURL f)) name args)"
  using Parse_flag_args [OF assms] by (simp add: main_def)

theorem command_line_witness:
  "main [''--appVersion=2'', ''--no-network'', ''./app'', ''--version''] = Run_app Dumper ''./app'' [''--version'']"
  using command_line [of "''./app''" "no_flags\<lparr>userVersion := ''2'', noNetwork := True\<rparr>" "[''--version'']"]
  by (simp add: flag_args_def no_flags_def)

lemma Release_ok:
  assumes "Release http a checksum w = Returns (None, w')"
  shows "\<exists>resp. StatusCode resp = 200 \<and>
    Do http \<lparr>Method = ''GET'', URL = BaseURL a @ EP_Releases a @ ''?checksum='' @ checksum,
      Header = [auth a], Body = []\<rparr> w = (Inr resp, w')"
  using assms by (auto simp: Release_def http_send_def Let_def split: go.splits prod.splits sum.splits option.splits if_splits)

lemma client_run_cases:
  assumes "client_run os sha http c e w = Returns (out, w')" and "CheckSum_of os sha e w = (checksum, e1)"
  obtains (unreleased) why err w1 e2 where "Release http (cl_api c) checksum w = Returns (Some why, w1)"
      "Run os e1 w1 = (err, e2, w')" "out = NotServed err"
  | (idle) "Release http (cl_api c) checksum w = Returns (None, w')" "producer c = None" "out = NoProducer"
  | (failed) p err e2 w1 where "Release http (cl_api c) checksum w = Returns (None, w1)" "producer c = Some p"
      "Connect os e1 w1 = Returns (Some err, e2, w')" "out = ConnectFailed err e2"
  | (served) p e2 w1 where "Release http (cl_api c) checksum w = Returns (None, w1)" "producer c = Some p"
      "Connect os e1 w1 = Returns (None, e2, w')" "out = Serving e2 p"
proof (cases "Release http (cl_api c) checksum w")
  case Panics
  with assms show ?thesis by (simp add: client_run_def)
next
  case (Returns r)
  obtain rerr w1 where r: "r = (rerr, w1)" by (cases r)
  show ?thesis
  proof (cases rerr)
    case (Some x)
    obtain err e2 w2 where "Run os e1 w1 = (err, e2, w2)" by (cases "Run os e1 w1") auto
    with assms Returns r Some unreleased show ?thesis by (simp add: client_run_def)
  next
    case None
    note rel = assms Returns r None
    show ?thesis
    proof (cases "producer c")
      case None
      with rel idle show ?thesis by (simp add: client_run_def)
    next
      case (Some p)
      show ?thesis
      proof (cases "Connect os e1 w1")
        case Panics
        with rel Some show ?thesis by (simp add: client_run_def)
      next
        case (Returns cr)
        obtain cerr e2 w2 where "cr = (cerr, e2, w2)" by (cases cr)
        with Returns rel Some failed served show ?thesis by (cases cerr) (auto simp: client_run_def)
      qed
    qed
  qed
qed

text \<open>The backend's answer to the question whether the application with this checksum is released.\<close>

definition released :: "'w Http \<Rightarrow> API \<Rightarrow> string \<Rightarrow> 'w \<Rightarrow> 'w \<Rightarrow> bool" where
  "released http a checksum w w1 \<longleftrightarrow>
     (\<exists>resp. StatusCode resp = 200 \<and>
        Do http \<lparr>Method = ''GET'', URL = BaseURL a @ EP_Releases a @ ''?checksum='' @ checksum,
          Header = [auth a], Body = []\<rparr> w = (Inr resp, w1))"

text \<open>C23: In the network pipeline (\<open>client.run\<close>) the application gets sockets only if it is released: when the client connects to it, whether that succeeds
or fails on the way, the client has a producer and the backend has answered the
request for the checksum with status 200, and the connection was begun after that, with no files handed over before. Without a producer a released application is not started. An application
for which the backend did not say that it is released is run with no extra files. (The serial and the dumping pipeline do not ask.)\<close>

theorem served_only_if_released:
  assumes "client_run os sha http c (NewExec look name args) w = Returns (out, w')"
  shows "\<exists>checksum e1. CheckSum_of os sha (NewExec look name args) w = (checksum, e1) \<and> ExtraFiles (exec_cmd e1) = [] \<and>
    (case out of
       Serving e2 p \<Rightarrow> producer c = Some p \<and>
         (\<exists>w1. released http (cl_api c) checksum w w1 \<and> Connect os e1 w1 = Returns (None, e2, w'))
     | ConnectFailed err e2 \<Rightarrow> producer c \<noteq> None \<and>
         (\<exists>w1. released http (cl_api c) checksum w w1 \<and> Connect os e1 w1 = Returns (Some err, e2, w'))
     | NoProducer \<Rightarrow> producer c = None \<and> released http (cl_api c) checksum w w'
     | NotServed err \<Rightarrow> (\<exists>why w1 e2. Release http (cl_api c) checksum w = Returns (Some why, w1) \<and> Run os e1 w1 = (err, e2, w'))
     | Died _ \<Rightarrow> False)"
proof -
  obtain checksum e1 where c: "CheckSum_of os sha (NewExec look name args) w = (checksum, e1)"
    by (cases "CheckSum_of os sha (NewExec look name args) w")
  then have "ExtraFiles (exec_cmd e1) = []"
    by (auto simp: CheckSum_of_def NewExec_def split: if_splits sum.splits)
  moreover have rel: "Release http (cl_api c) checksum w = Returns (None, u) \<Longrightarrow> released http (cl_api c) checksum w u" for u
    using Release_ok [of http "cl_api c" checksum w u] by (simp add: released_def)
  ultimately show ?thesis
    using c by (cases rule: client_run_cases [OF assms c]) (auto dest: rel)
qed

definition sample_client :: "int client" where
  "sample_client = \<lparr>msgPath = [], limPath = [], cl_api = sample_api, cl_userVersion = [], cl_username = [], cl_appID = [],
     cl_macHash = [], producer = None\<rparr>"

theorem served_only_if_released_witness:
  "client_run (sample_os (agent_stream ''1.0'' [] (\<lambda>_. 512))) (\<lambda>_. ''ab'') (fixed_http 404 []) sample_client
      (NewExec (\<lambda>_. None) ''app'' []) 5 = Returns (NotServed None, 5)
   \<and> (\<forall>p. \<exists>e1 e2 w'. client_run (sample_os (agent_stream ''1.0'' [] (\<lambda>_. 512))) (\<lambda>_. ''ab'') (fixed_http 200 []) (sample_client\<lparr>producer := Some p\<rparr>)
        (NewExec (\<lambda>_. None) ''app'' []) 5 = Returns (Serving e2 p, w')
      \<and> released (fixed_http 200 []) sample_api ''ab'' (5::int) 5 \<and> ExtraFiles (exec_cmd e1) = []
      \<and> Connect (sample_os (agent_stream ''1.0'' [] (\<lambda>_. 512))) e1 5 = Returns (None, e2, w'))"
proof -
  let ?os = "sample_os (agent_stream ''1.0'' [] (\<lambda>_. 512))" and ?x = "NewExec (\<lambda>_. None) ''app'' []"
  have "client_run ?os (\<lambda>_. ''ab'') (fixed_http 404 []) sample_client ?x 5 = Returns (NotServed None, 5)"
    by (simp add: client_run_def CheckSum_of_def sample_os_def NewExec_def Release_def http_send_def fixed_http_def
        Run_def Start_def Wait_def)
  moreover have "\<exists>e1 e2 w'. client_run ?os (\<lambda>_. ''ab'') (fixed_http 200 []) (sample_client\<lparr>producer := Some p\<rparr>) ?x 5 = Returns (Serving e2 p, w')
      \<and> released (fixed_http 200 []) sample_api ''ab'' (5::int) 5 \<and> ExtraFiles (exec_cmd e1) = [] \<and> Connect ?os e1 5 = Returns (None, e2, w')" for p
  proof -
    from Decode_carries_Cons [OF carries_agent_stream [of "[]"]] obtain dec where
      "Decode (agent_stream ''1.0'' [] (\<lambda>_. 512)) = (Value (version_json ''1.0''), dec)" by auto
    then have "\<exists>e2 w'. client_run ?os (\<lambda>_. ''ab'') (fixed_http 200 []) (sample_client\<lparr>producer := Some p\<rparr>) ?x 5 = Returns (Serving e2 p, w')"
      by (simp add: client_run_def CheckSum_of_def Release_def http_send_def fixed_http_def sample_client_def
          Connect_def addSockets_def socketpair_def sample_os_def NewFile_def NewExec_def Start_def
          getAgentVersion_def decode_struct_def version_json_def assign_struct_def version_field_def assign_string_def)
    then obtain e2 w' where c: "client_run ?os (\<lambda>_. ''ab'') (fixed_http 200 []) (sample_client\<lparr>producer := Some p\<rparr>) ?x 5 = Returns (Serving e2 p, w')" by blast
    have "fst (CheckSum_of ?os (\<lambda>_. ''ab'') ?x 5) = ''ab''" by (simp add: CheckSum_of_def sample_os_def NewExec_def)
    with served_only_if_released [OF c] obtain e1 w1 where "ExtraFiles (exec_cmd e1) = []" "Connect ?os e1 w1 = Returns (None, e2, w')"
      "released (fixed_http 200 []) sample_api ''ab'' 5 w1" by (auto simp: sample_client_def)
    moreover from this(3) have "w1 = 5" by (simp add: released_def fixed_http_def)
    ultimately show ?thesis using c by blast
  qed
  ultimately show ?thesis by blast
qed

text \<open>Without the backend the application does not run at all: if every request fails, the client dies
before it has made anything of the application, whatever the operating system would do.\<close>

theorem unreachable_backend_stops_app:
  assumes "IfaceHash interfaces \<noteq> None" and "\<And>url. NewRequest http url = None"
    and "\<And>r u. \<exists>err. fst (Do http r u) = Inl err"
  shows "\<exists>err w'. \<forall>os look sha name args.
    main_network os look sha fs TempDir http pem_ok NewClient interfaces env userVer base name args w = Returns (Died err, w')"
proof -
  obtain pr w1 where p: "selectPrefix fs TempDir env w = (pr, w1)" by (cases "selectPrefix fs TempDir env w")
  obtain mac where mac: "IfaceHash interfaces = Some mac" using assms(1) by blast
  define a where "a = client_api env (case pr of Inl _ \<Rightarrow> [] | Inr s \<Rightarrow> s) mac base"
  have do_fails: "\<exists>err u'. Do http r u = (Inl err, u')" for r u
    using assms(3) [of r u] by (cases "Do http r u") auto
  have broker: "\<exists>err u'. BrokerAddress http a u = Returns (Inl err, u')" for u
  proof -
    obtain err u' where "Do http \<lparr>Method = ''GET'', URL = BaseURL a @ EP_Config a, Header = [json_type, auth a], Body = []\<rparr> u
        = (Inl err, u')" using do_fails by blast
    then show ?thesis by (simp add: BrokerAddress_def http_send_def assms(2) Let_def)
  qed
  have creds: "\<exists>err u'. getAndSaveCredentials http fs a u = Returns (Inl err, u')" for u
  proof -
    obtain err u' where "Do http \<lparr>Method = ''POST'', URL = BaseURL a @ EP_Devices a, Header = [json_type, auth a],
        Body = render (JObj [(''mac_address_hash'', JStr (MacHash a)), (''application'', JStr (AppID a))])\<rparr> u
        = (Inl err, u')" using do_fails by blast
    then show ?thesis
      by (simp add: getAndSaveCredentials_def credentials_def http_send_def assms(2) Let_def del: render.simps)
  qed
  have "\<exists>err w2. NewConfig NewClient (backend_of http fs pem_ok a) w1 = Returns (Inl err, w2)"
  proof (cases "credsFromFile fs (CredsPath a) w1")
    case (Inl x)
    with creds [of w1] show ?thesis by (auto simp: NewConfig_def backend_of_def Credentials_of_def)
  next
    case (Inr c)
    with broker [of w1] show ?thesis by (auto simp: NewConfig_def backend_of_def Credentials_of_def)
  qed
  then obtain err w2 where "NewConfig NewClient (backend_of http fs pem_ok a) w1 = Returns (Inl err, w2)" by blast
  then have "newclient fs TempDir http pem_ok NewClient interfaces env userVer base w = Returns (Inl (api_error_text err), w2)"
    by (simp add: newclient_def p mac a_def Let_def)
  then show ?thesis by (intro exI [of _ "api_error_text err"] exI [of _ w2]) (simp add: main_network_def)
qed

definition dead_http :: "'w Http" where
  "dead_http = \<lparr>NewRequest = (\<lambda>_. None), Do = (\<lambda>_ w. (Inl ''i/o timeout'', w))\<rparr>"

theorem unreachable_backend_stops_app_witness:
  "\<exists>err w'. \<forall>os look sha. main_network os look sha disk_fs (\<lambda>d. (Inr ''/tmp/auklet-1'', d)) dead_http (\<lambda>_. True) NewClient
     [[1, 2, 3, 4, 5, 6]] (\<lambda>_. []) [] [] ''app'' [] empty_disk = Returns (Died err, w')"
proof -
  have "IfaceHash [[1, 2, 3, 4, 5, 6]] \<noteq> None" by (simp add: IfaceHash_def)
  from unreachable_backend_stops_app [OF this, of dead_http disk_fs "\<lambda>d. (Inr ''/tmp/auklet-1'', d)" "\<lambda>_. True" NewClient
      "\<lambda>_. []" "[]" "[]" empty_disk]
  show ?thesis by (fastforce simp: dead_http_def)
qed

text \<open>A directory that could be made holds the client's files. The temporary directory does not: where neither of
the other two can be made, the client's paths lie beside the temporary directory, not in it, because its
name has no slash at the end.\<close>

theorem temporary_prefix_misplaced:
  assumes "MkdirAll fs ''./.auklet'' w = (Some e1, w1)" and "MkdirAll fs (env ''HOME'' @ ''/.auklet'') w1 = (Some e2, w2)"
    and "TempDir w2 = (Inr tmp, w3)"
  shows "selectPrefix fs TempDir env w = (Inr tmp, w3)
    \<and> (\<nexists>name. creds_path tmp = entry tmp name) \<and> (\<nexists>name. msg_path tmp = entry tmp name)"
  using assms by (simp add: selectPrefix_def creds_path_def msg_path_def entry_def)

definition read_only_disk :: disk where
  "read_only_disk = empty_disk\<lparr>fault := (\<lambda>k p. if k = C_MkdirAll then Some ''EROFS'' else None)\<rparr>"

theorem temporary_prefix_misplaced_witness:
  "selectPrefix disk_fs (\<lambda>d. (Inr ''/tmp/auklet-1'', d)) (\<lambda>_. ''/root'') read_only_disk = (Inr ''/tmp/auklet-1'', read_only_disk)
   \<and> creds_path ''/tmp/auklet-1'' = ''/tmp/auklet-1.auklet/identification''"
proof -
  have "MkdirAll disk_fs p read_only_disk = (Some ''EROFS'', read_only_disk)" for p
    by (simp add: disk_fs_def read_only_disk_def)
  from temporary_prefix_misplaced [OF this this, of "\<lambda>d. (Inr ''/tmp/auklet-1'', d)" "''/tmp/auklet-1''" read_only_disk "\<lambda>_. ''/root''"]
  show ?thesis by (simp add: creds_path_def)
qed

text \<open>A message goes to the serial device as one line of JSON that carries its payload as it is.\<close>

theorem serial_line_payload:
  assumes "Bytes m = render v" and "wf_json v"
  shows "serial_line m = Some (render (JObj [(''topic'', JStr (''c/'' @ Topic m @ ''/'')), (''payload'', v)]) @ [CHR 0x0D, CHR 0x0A])"
proof -
  obtain c r where "render v = c # r" using assms(2) by (rule render_start)
  then have "render v \<noteq> []" by simp
  moreover have "parse (render v) = Some (v, [])" using parse_render_append [OF assms(2), of "[]"] by simp
  moreover have "compact False (render v) = render v" using compact_render(1) [OF assms(2), of "[]"] by simp
  ultimately have "raw_text (Bytes m) = Some (render v)" by (simp add: raw_text_def assms(1) skip_ws_def)
  then show ?thesis by (simp add: serial_line_def)
qed

theorem serial_line_payload_witness:
  "serial_line (sample\<lparr>Bytes := ''[true]''\<rparr>) \<noteq> None"
  using serial_line_payload [of "sample\<lparr>Bytes := ''[true]''\<rparr>" "JArr [JBool True]"] by simp

subsection \<open>Polling\<close>

fun polled :: "poll_event list \<Rightarrow> DataLimit list" where
  "polled [] = []"
| "polled (Polled (Inr dl) # es) = dl # polled es"
| "polled (_ # es) = polled es"

definition opt_list :: "'a option \<Rightarrow> 'a list" where
  "opt_list x = (case x of None \<Rightarrow> [] | Some y \<Rightarrow> [y])"

text \<open>How many of the limits polled so far the goroutine has still to send: to the persistor, the requester, the limiter.\<close>

definition unsent :: "poll_phase \<Rightarrow> nat \<times> nat \<times> nat" where
  "unsent ph = (case ph of AwaitTick \<Rightarrow> (0, 0, 0) | SendStorage _ \<Rightarrow> (1, 1, 1) | SendPeriod _ \<Rightarrow> (0, 1, 1)
     | SendCellular _ \<Rightarrow> (0, 0, 1))"

definition current :: "poll_phase \<Rightarrow> DataLimit option" where
  "current ph = (case ph of AwaitTick \<Rightarrow> None | SendStorage dl \<Rightarrow> Some dl | SendPeriod dl \<Rightarrow> Some dl
     | SendCellular dl \<Rightarrow> Some dl)"

definition poll_inv :: "DataLimit list \<Rightarrow> poll \<Rightarrow> bool" where
  "poll_inv dls s \<longleftrightarrow>
     (case unsent (poll_phase s) of (a, b, c) \<Rightarrow>
        p_taken s @ opt_list (p_chan s) = map Storage (take (length dls - a) dls)
        \<and> r_taken s @ opt_list (r_chan s) = map EmissionPeriod (take (length dls - b) dls)
        \<and> l_taken s @ opt_list (l_chan s) = map Cellular (take (length dls - c) dls))
     \<and> (case current (poll_phase s) of None \<Rightarrow> True | Some dl \<Rightarrow> dls \<noteq> [] \<and> last dls = dl)"

definition poll_rel :: "poll \<Rightarrow> poll_event list \<Rightarrow> poll \<Rightarrow> bool" where
  "poll_rel s es t \<longleftrightarrow> (\<forall>dls. poll_inv dls s \<longrightarrow> poll_inv (dls @ polled es) t)"

lemma take_snoc_last: "dls \<noteq> [] \<Longrightarrow> take (length dls - Suc 0) dls @ [last dls] = dls"
  by (metis One_nat_def append_butlast_last_id butlast_conv_take)

lemma map_snoc_last: "dls \<noteq> [] \<Longrightarrow> map f (take (length dls - Suc 0) dls) @ [f (last dls)] = map f dls"
  using take_snoc_last [of dls] by (metis list.simps(8) list.simps(9) map_append)

lemma poll_inv_step:
  assumes "poll_inv dls s" and "poll_step s e = Some t"
  shows "poll_inv (dls @ polled [e]) t"
proof (cases e)
  case (Polled res)
  with assms show ?thesis
    by (cases res) (auto simp: poll_inv_def unsent_def current_def split: if_splits)
next
  case SentStorage
  with assms(2) obtain dl where dl: "poll_phase s = SendStorage dl" "p_chan s = None"
    "t = s\<lparr>p_chan := Some (Storage dl), poll_phase := SendPeriod dl\<rparr>"
    by (auto split: option.splits poll_phase.splits)
  with assms(1) have "dls \<noteq> []" "last dls = dl" by (simp_all add: poll_inv_def current_def)
  with assms(1) dl SentStorage map_snoc_last [of dls Storage] show ?thesis
    by (simp add: poll_inv_def unsent_def current_def opt_list_def)
next
  case SentPeriod
  with assms(2) obtain dl where dl: "poll_phase s = SendPeriod dl" "r_chan s = None"
    "t = s\<lparr>r_chan := Some (EmissionPeriod dl), poll_phase := SendCellular dl\<rparr>"
    by (auto split: option.splits poll_phase.splits)
  with assms(1) have "dls \<noteq> []" "last dls = dl" by (simp_all add: poll_inv_def current_def)
  with assms(1) dl SentPeriod map_snoc_last [of dls EmissionPeriod] show ?thesis
    by (simp add: poll_inv_def unsent_def current_def opt_list_def)
next
  case SentCellular
  with assms(2) obtain dl where dl: "poll_phase s = SendCellular dl" "l_chan s = None"
    "t = s\<lparr>l_chan := Some (Cellular dl), poll_phase := AwaitTick\<rparr>"
    by (auto split: option.splits poll_phase.splits)
  with assms(1) have "dls \<noteq> []" "last dls = dl" by (simp_all add: poll_inv_def current_def)
  with assms(1) dl SentCellular map_snoc_last [of dls Cellular] show ?thesis
    by (simp add: poll_inv_def unsent_def current_def opt_list_def)
next
  case Hour
  with assms have "t = s\<lparr>tick_pending := True\<rparr>" "polled [e] = []" by auto
  with assms(1) show ?thesis by (simp add: poll_inv_def)
next
  case TakeStorage
  with assms(2) obtain x where "p_chan s = Some x" "t = s\<lparr>p_chan := None, p_taken := p_taken s @ [x]\<rparr>" "polled [e] = []"
    by (auto split: option.splits)
  with assms(1) show ?thesis by (simp add: poll_inv_def opt_list_def)
next
  case TakePeriod
  with assms(2) obtain x where "r_chan s = Some x" "t = s\<lparr>r_chan := None, r_taken := r_taken s @ [x]\<rparr>" "polled [e] = []"
    by (auto split: option.splits)
  with assms(1) show ?thesis by (simp add: poll_inv_def opt_list_def)
next
  case TakeCellular
  with assms(2) obtain x where "l_chan s = Some x" "t = s\<lparr>l_chan := None, l_taken := l_taken s @ [x]\<rparr>" "polled [e] = []"
    by (auto split: option.splits)
  with assms(1) show ?thesis by (simp add: poll_inv_def opt_list_def)
qed

lemma polled_Cons: "polled (e # es) = polled [e] @ polled es"
  by (cases "[e]" rule: polled.cases) auto

interpretation polling: step_history poll_step poll_rel
proof unfold_locales
  show "poll_rel s [] s" for s by (simp add: poll_rel_def)
  show "poll_rel s (e # es) u" if "poll_step s e = Some t" "poll_rel t es u" for s e t es u
    unfolding poll_rel_def
  proof (intro allI impI)
    fix dls assume "poll_inv dls s"
    from poll_inv_step [OF this that(1)] that(2) have "poll_inv ((dls @ polled [e]) @ polled es) u"
      by (auto simp: poll_rel_def)
    then show "poll_inv (dls @ polled (e # es)) u" by (subst polled_Cons) simp
  qed
qed

lemma poll_inv_new: "poll_inv [] new_poll"
  by (simp add: poll_inv_def new_poll_def unsent_def current_def opt_list_def)

lemma poll_reachable: "run poll_step new_poll es = Some s \<Longrightarrow> poll_inv (polled es) s"
  using polling.run_rel [of new_poll es s] poll_inv_new by (fastforce simp: poll_rel_def)

fun no_period_taken :: "poll_event list \<Rightarrow> bool" where
  "no_period_taken [] = True"
| "no_period_taken (TakePeriod # _) = False"
| "no_period_taken (_ # es) = no_period_taken es"

definition idle_rel :: "poll \<Rightarrow> poll_event list \<Rightarrow> poll \<Rightarrow> bool" where
  "idle_rel s es t \<longleftrightarrow> (no_period_taken es \<longrightarrow> r_taken t = r_taken s)"

lemma idle_step: "poll_step s e = Some t \<Longrightarrow> idle_rel t es u \<Longrightarrow> idle_rel s (e # es) u"
  by (cases e) (auto simp: idle_rel_def split: if_splits option.splits poll_phase.splits)

interpretation idling: step_history poll_step idle_rel
proof unfold_locales
  show "idle_rel s [] s" for s by (simp add: idle_rel_def)
qed (rule idle_step)

text \<open>Each of the persistor, the requester and the limiter receives the limits the backend gave, in
their order and without gaps; and as soon as the requester no longer takes its own, polling stops for
good: at most one more limit reaches the limiter, and the backend is asked at most twice with success.\<close>

theorem poll_in_order_and_stalls:
  assumes "run poll_step new_poll es = Some s"
  shows "prefix (p_taken s) (map Storage (polled es)) \<and> prefix (r_taken s) (map EmissionPeriod (polled es))
    \<and> prefix (l_taken s) (map Cellular (polled es))
    \<and> (no_period_taken es \<longrightarrow> length (polled es) \<le> 2 \<and> length (l_taken s) \<le> 1)"
proof -
  let ?dls = "polled es"
  obtain a b c where abc: "unsent (poll_phase s) = (a, b, c)" by (cases "unsent (poll_phase s)")
  with poll_reachable [OF assms] have eqs: "p_taken s @ opt_list (p_chan s) = map Storage (take (length ?dls - a) ?dls)"
    "r_taken s @ opt_list (r_chan s) = map EmissionPeriod (take (length ?dls - b) ?dls)"
    "l_taken s @ opt_list (l_chan s) = map Cellular (take (length ?dls - c) ?dls)"
    by (auto simp: poll_inv_def)
  have pre: "prefix xs (map f ?dls)" if "xs @ ys = map f (take n ?dls)" for xs ys n and f :: "DataLimit \<Rightarrow> 'z"
    using that by (metis map_mono_prefix prefixI prefix_order.trans take_is_prefix)
  have "length ?dls \<le> 2 \<and> length (l_taken s) \<le> 1" if "no_period_taken es"
  proof -
    from idling.run_rel [OF assms] that have "r_taken s = []" by (simp add: idle_rel_def new_poll_def)
    with eqs(2) have "length (map EmissionPeriod (take (length ?dls - b) ?dls)) = length (opt_list (r_chan s))" by simp
    then have "length ?dls - b \<le> 1" by (simp add: opt_list_def split: option.splits)
    moreover have "b \<le> 1" "b \<le> c"
      using abc by (auto simp: unsent_def split: poll_phase.splits)
    moreover have "length (l_taken s) \<le> length ?dls - c" using arg_cong [OF eqs(3), of length] by simp
    ultimately show ?thesis by linarith
  qed
  with pre [OF eqs(1)] pre [OF eqs(2)] pre [OF eqs(3)] show ?thesis by blast
qed

definition sample_limits :: DataLimit where
  "sample_limits = \<lparr>Storage = Some 7, EmissionPeriod = 60, Cellular = \<lparr>CDate = 1, Defined = True, Limit = 5\<rparr>\<rparr>"

definition idle_requester :: "poll_event list" where
  "idle_requester = [Polled (Inr sample_limits), SentStorage, SentPeriod, SentCellular, TakeCellular, TakeStorage,
     Hour, Polled (Inr sample_limits), SentStorage, TakeStorage]"

theorem poll_in_order_and_stalls_witness:
  "\<exists>s. run poll_step new_poll idle_requester = Some s \<and> prefix (p_taken s) [Some 7, Some 7]
     \<and> length (polled idle_requester) \<le> 2 \<and> length (l_taken s) \<le> 1"
proof -
  have "run poll_step new_poll idle_requester \<noteq> None" by code_simp
  then obtain s where s: "run poll_step new_poll idle_requester = Some s" by blast
  have "polled idle_requester = [sample_limits, sample_limits]" "no_period_taken idle_requester"
    by (simp_all add: idle_requester_def)
  with poll_in_order_and_stalls [OF s] s show ?thesis by (simp add: sample_limits_def)
qed

end
