(* ===== verification/Merge.thy ===== *)
theory Merge
  imports Prelude
begin

text \<open>
  \<open>Merger\<close> of packages \<open>message\<close> (\<open>message/merge.go\<close>, a channel of ten
  messages) and \<open>agent\<close> (\<open>agent/merge.go\<close>, a channel without buffer): one goroutine per
  source copies its messages to the output, and \<open>serve\<close> closes the output once the
  \<open>WaitGroup\<close> counts none of them any more. The goroutines interleave in any order: a
  schedule is a list of events, and \<open>merge_step\<close> is the atomic action of one of them.
\<close>

section \<open>State\<close>

text \<open>
  A goroutine waits in its \<open>range\<close> loop, holds a message it is sending, or has returned.
  \<open>got\<close> is what its source has handed it so far.
\<close>

datatype 'm phase = Waiting | Holding 'm | Finished

record 'm worker =
  phase :: "'m phase"
  src_closed :: bool
  got :: "'m list"

text \<open>
  \<open>wg\<close> is the counter of the \<open>WaitGroup\<close>, \<open>buf\<close> what is in the output channel and
  \<open>taken\<close> what the consumer has received. Messages are tagged with the index of their source,
  for the statements only. A send on a closed channel and a negative counter panic.
\<close>

record 'm merger =
  cap :: nat
  workers :: "'m worker list"
  wg :: int
  buf :: "(nat \<times> 'm) list"
  taken :: "(nat \<times> 'm) list"
  closed :: bool
  panicked :: bool

definition new_merger :: "nat \<Rightarrow> nat \<Rightarrow> 'm merger" where
  "new_merger n c =
     \<lparr>cap = c, workers = replicate n \<lparr>phase = Waiting, src_closed = False, got = []\<rparr>, wg = int n,
      buf = [], taken = [], closed = False, panicked = False\<rparr>"

text \<open>\<open>message.Merge\<close> and \<open>agent.Merge\<close> of \<open>n\<close> sources.\<close>

definition Merge_messages :: "nat \<Rightarrow> 'm merger" where
  "Merge_messages n = new_merger n 10"

definition Merge_agent :: "nat \<Rightarrow> 'm merger" where
  "Merge_agent n = new_merger n 0"

section \<open>Events\<close>

text \<open>
  The sources hand over a message or close; goroutine \<open>i\<close> puts its message into the buffer,
  hands it directly to a consumer that waits at an empty channel, or sees that its source is closed
  and calls \<open>wg.Done\<close>; the consumer takes a message from the buffer; \<open>serve\<close> returns from
  \<open>wg.Wait\<close> and closes the output.
\<close>

datatype 'm merge_event =
    Arrive nat 'm
  | CloseSource nat
  | Put nat
  | Direct nat
  | Take
  | SeeClosed nat
  | WaitOver

definition Arrive_step :: "nat \<Rightarrow> 'm \<Rightarrow> 'm merger \<Rightarrow> 'm merger option" where
  "Arrive_step i m s =
     (if i < length (workers s) then
        (let k = workers s ! i in
         if phase k = Waiting \<and> \<not> src_closed k
         then Some (s\<lparr>workers := (workers s)[i := k\<lparr>phase := Holding m, got := got k @ [m]\<rparr>]\<rparr>)
         else None)
      else None)"

definition CloseSource_step :: "nat \<Rightarrow> 'm merger \<Rightarrow> 'm merger option" where
  "CloseSource_step i s =
     (if i < length (workers s) \<and> \<not> src_closed (workers s ! i)
      then Some (s\<lparr>workers := (workers s)[i := (workers s ! i)\<lparr>src_closed := True\<rparr>]\<rparr>) else None)"

text \<open>\<open>m.out <- msg\<close>.\<close>

definition send_step :: "('m merger \<Rightarrow> nat \<times> 'm \<Rightarrow> 'm merger option) \<Rightarrow> nat \<Rightarrow> 'm merger \<Rightarrow> 'm merger option"
where
  "send_step deliver i s =
     (if i < length (workers s) then
        (case phase (workers s ! i) of
           Holding m \<Rightarrow>
             (if closed s then Some (s\<lparr>panicked := True\<rparr>)
              else deliver (s\<lparr>workers := (workers s)[i := (workers s ! i)\<lparr>phase := Waiting\<rparr>]\<rparr>) (i, m))
         | _ \<Rightarrow> None)
      else None)"

definition into_buffer :: "'m merger \<Rightarrow> nat \<times> 'm \<Rightarrow> 'm merger option" where
  "into_buffer s x = (if length (buf s) < cap s then Some (s\<lparr>buf := buf s @ [x]\<rparr>) else None)"

definition to_consumer :: "'m merger \<Rightarrow> nat \<times> 'm \<Rightarrow> 'm merger option" where
  "to_consumer s x = (if buf s = [] then Some (s\<lparr>taken := taken s @ [x]\<rparr>) else None)"

definition Take_step :: "'m merger \<Rightarrow> 'm merger option" where
  "Take_step s = (case buf s of [] \<Rightarrow> None | x # xs \<Rightarrow> Some (s\<lparr>buf := xs, taken := taken s @ [x]\<rparr>))"

text \<open>The \<open>range\<close> loop ends at a closed source, and the deferred \<open>wg.Done\<close> runs.\<close>

definition SeeClosed_step :: "nat \<Rightarrow> 'm merger \<Rightarrow> 'm merger option" where
  "SeeClosed_step i s =
     (if i < length (workers s) then
        (let k = workers s ! i in
         if phase k = Waiting \<and> src_closed k
         then Some (s\<lparr>workers := (workers s)[i := k\<lparr>phase := Finished\<rparr>], wg := wg s - 1,
                panicked := (panicked s \<or> wg s - 1 < 0)\<rparr>)
         else None)
      else None)"

definition WaitOver_step :: "'m merger \<Rightarrow> 'm merger option" where
  "WaitOver_step s = (if wg s = 0 \<and> \<not> closed s then Some (s\<lparr>closed := True\<rparr>) else None)"

fun merge_step :: "'m merger \<Rightarrow> 'm merge_event \<Rightarrow> 'm merger option" where
  "merge_step s (Arrive i m) = Arrive_step i m s"
| "merge_step s (CloseSource i) = CloseSource_step i s"
| "merge_step s (Put i) = send_step into_buffer i s"
| "merge_step s (Direct i) = send_step to_consumer i s"
| "merge_step s Take = Take_step s"
| "merge_step s (SeeClosed i) = SeeClosed_step i s"
| "merge_step s WaitOver = WaitOver_step s"

lemmas merge_step_defs = Arrive_step_def CloseSource_step_def send_step_def into_buffer_def
  to_consumer_def Take_step_def SeeClosed_step_def WaitOver_step_def

section \<open>Invariant\<close>

definition from_source :: "nat \<Rightarrow> (nat \<times> 'm) list \<Rightarrow> 'm list" where
  "from_source i xs = map snd (filter (\<lambda>x. fst x = i) xs)"

lemma from_source_simps [simp]:
  "from_source i [] = []"
  "from_source i (x # xs) = (if fst x = i then [snd x] else []) @ from_source i xs"
  "from_source i (xs @ ys) = from_source i xs @ from_source i ys"
  by (simp_all add: from_source_def)

definition held :: "'m worker \<Rightarrow> 'm list" where
  "held k = (case phase k of Holding m \<Rightarrow> [m] | _ \<Rightarrow> [])"

definition busy :: "'m worker \<Rightarrow> nat" where
  "busy k = (if phase k = Finished then 0 else 1)"

definition running :: "'m merger \<Rightarrow> nat" where
  "running s = sum_list (map busy (workers s))"

text \<open>
  Nothing is lost between a source and the consumer, and the counter is the number of goroutines
  that have not returned; the output is closed only when there are none.
\<close>

definition flow_ok :: "'m merger \<Rightarrow> bool" where
  "flow_ok s \<longleftrightarrow>
     (\<forall>i < length (workers s). from_source i (taken s @ buf s) @ held (workers s ! i) = got (workers s ! i))
     \<and> (\<forall>x \<in> set (taken s @ buf s). fst x < length (workers s))"

definition count_ok :: "'m merger \<Rightarrow> bool" where
  "count_ok s \<longleftrightarrow> wg s = int (running s) \<and> (closed s \<longrightarrow> running s = 0) \<and> \<not> panicked s
     \<and> length (buf s) \<le> cap s"

lemma running_update:
  assumes "i < length (workers s)"
  shows "running (s\<lparr>workers := (workers s)[i := k]\<rparr>) + busy (workers s ! i) = running s + busy k"
  using sum_list_update_add [OF assms] by (simp add: running_def)

lemma running_0: "running s = 0 \<longleftrightarrow> (\<forall>k \<in> set (workers s). phase k = Finished)"
  by (auto simp: running_def busy_def)

lemma running_pos: "i < length (workers s) \<Longrightarrow> phase (workers s ! i) \<noteq> Finished \<Longrightarrow> 0 < running s"
  using running_0 [of s] nth_mem by (metis gr0I)

lemma running_other [simp]:
  "running (s\<lparr>buf := b\<rparr>) = running s" "running (s\<lparr>taken := t\<rparr>) = running s"
  "running (s\<lparr>wg := w\<rparr>) = running s" "running (s\<lparr>panicked := p\<rparr>) = running s"
  "running (s\<lparr>closed := c\<rparr>) = running s"
  by (simp_all add: running_def)

lemma count_step:
  assumes "count_ok s" and "merge_step s e = Some t"
  shows "count_ok t"
proof (cases e)
  case (Arrive i m)
  with assms running_update [of i s "(workers s ! i)\<lparr>phase := Holding m, got := got (workers s ! i) @ [m]\<rparr>"]
    running_pos [of i s] show ?thesis
    by (auto simp: count_ok_def merge_step_defs Let_def busy_def split: if_splits)
next
  case (CloseSource i)
  with assms running_update [of i s "(workers s ! i)\<lparr>src_closed := True\<rparr>"] show ?thesis
    by (auto simp: count_ok_def merge_step_defs Let_def busy_def split: if_splits)
next
  case (Put i)
  with assms running_update [of i s "(workers s ! i)\<lparr>phase := Waiting\<rparr>"] running_pos [of i s] show ?thesis
    by (auto simp: count_ok_def merge_step_defs busy_def split: if_splits phase.splits)
next
  case (Direct i)
  with assms running_update [of i s "(workers s ! i)\<lparr>phase := Waiting\<rparr>"] running_pos [of i s] show ?thesis
    by (auto simp: count_ok_def merge_step_defs busy_def split: if_splits phase.splits)
next
  case Take
  with assms show ?thesis by (auto simp: count_ok_def merge_step_defs split: list.splits)
next
  case (SeeClosed i)
  with assms running_update [of i s "(workers s ! i)\<lparr>phase := Finished\<rparr>"] running_pos [of i s] show ?thesis
    by (auto simp: count_ok_def merge_step_defs Let_def busy_def split: if_splits)
next
  case WaitOver
  with assms show ?thesis by (auto simp: count_ok_def merge_step_defs split: if_splits)
qed

text \<open>A step changes one goroutine, and appends to what flows at most one message of its source.\<close>

lemma flow_update:
  assumes "flow_ok s" and "i < length (workers s)"
    and "from_source i new @ held k = held (workers s ! i) @ add" and "got k = got (workers s ! i) @ add"
    and "\<forall>x \<in> set new. fst x = i" and "taken t @ buf t = taken s @ buf s @ new"
    and "workers t = (workers s)[i := k]"
  shows "flow_ok t"
proof -
  have "from_source j (taken t @ buf t) @ held (workers t ! j) = got (workers t ! j)"
    if "j < length (workers s)" for j
  proof (cases "j = i")
    case True
    have "from_source i (taken t @ buf t) @ held k
        = (from_source i (taken s @ buf s) @ held (workers s ! i)) @ add"
      using assms(3,6) by simp
    also have "\<dots> = got k" using assms(1,2,4) by (simp add: flow_ok_def)
    finally show ?thesis using True assms(2,7) by simp
  next
    case False
    with assms(5) have "from_source j new = []" by (auto simp: from_source_def filter_empty_conv)
    then have "from_source j (taken t @ buf t) = from_source j (taken s @ buf s)" using assms(6) by simp
    with False that assms(1,7) show ?thesis by (simp add: flow_ok_def)
  qed
  moreover have "\<forall>x \<in> set (taken t @ buf t). fst x < length (workers s)"
    using assms(1,2,5) unfolding assms(6) by (auto simp: flow_ok_def)
  ultimately show ?thesis by (simp add: flow_ok_def assms(7) del: set_append)
qed

lemma flow_step:
  assumes "flow_ok s" and "merge_step s e = Some t"
  shows "flow_ok t"
proof (cases e)
  case (Arrive i m)
  with assms(2) show ?thesis
    by (intro flow_update [OF assms(1), where i = i and new = "[]" and add = "[m]"
          and k = "(workers s ! i)\<lparr>phase := Holding m, got := got (workers s ! i) @ [m]\<rparr>"])
      (auto simp: merge_step_defs Let_def held_def split: if_splits)
next
  case (CloseSource i)
  with assms(2) show ?thesis
    by (intro flow_update [OF assms(1), where i = i and new = "[]" and add = "[]"
          and k = "(workers s ! i)\<lparr>src_closed := True\<rparr>"])
      (auto simp: merge_step_defs held_def split: if_splits)
next
  case (Put i)
  show ?thesis
  proof (cases "closed s")
    case True
    with Put assms(2) have "t = s\<lparr>panicked := True\<rparr>"
      by (auto simp: merge_step_defs split: if_splits phase.splits)
    with assms(1) show ?thesis by (simp add: flow_ok_def)
  next
    case False
    with Put assms(2) obtain m where m: "i < length (workers s)" "phase (workers s ! i) = Holding m"
      "t = s\<lparr>workers := (workers s)[i := (workers s ! i)\<lparr>phase := Waiting\<rparr>], buf := buf s @ [(i, m)]\<rparr>"
      by (auto simp: merge_step_defs split: if_splits phase.splits)
    show ?thesis
      by (rule flow_update [OF assms(1), where i = i and new = "[(i, m)]" and add = "[]"
            and k = "(workers s ! i)\<lparr>phase := Waiting\<rparr>"]) (use m in \<open>simp_all add: held_def\<close>)
  qed
next
  case (Direct i)
  show ?thesis
  proof (cases "closed s")
    case True
    with Direct assms(2) have "t = s\<lparr>panicked := True\<rparr>"
      by (auto simp: merge_step_defs split: if_splits phase.splits)
    with assms(1) show ?thesis by (simp add: flow_ok_def)
  next
    case False
    with Direct assms(2) obtain m where m: "i < length (workers s)" "phase (workers s ! i) = Holding m" "buf s = []"
      "t = s\<lparr>workers := (workers s)[i := (workers s ! i)\<lparr>phase := Waiting\<rparr>], taken := taken s @ [(i, m)]\<rparr>"
      by (auto simp: merge_step_defs split: if_splits phase.splits)
    show ?thesis
      by (rule flow_update [OF assms(1), where i = i and new = "[(i, m)]" and add = "[]"
            and k = "(workers s ! i)\<lparr>phase := Waiting\<rparr>"]) (use m in \<open>simp_all add: held_def\<close>)
  qed
next
  case (SeeClosed i)
  with assms(2) show ?thesis
    by (intro flow_update [OF assms(1), where i = i and new = "[]" and add = "[]"
          and k = "(workers s ! i)\<lparr>phase := Finished\<rparr>"])
      (auto simp: merge_step_defs Let_def held_def split: if_splits)
next
  case Take
  with assms(2) have "taken t @ buf t = taken s @ buf s" "workers t = workers s"
    by (auto simp: merge_step_defs split: list.splits)
  with assms(1) show ?thesis by (simp only: flow_ok_def)
next
  case WaitOver
  with assms(2) have "taken t @ buf t = taken s @ buf s" "workers t = workers s"
    by (auto simp: merge_step_defs split: if_splits)
  with assms(1) show ?thesis by (simp only: flow_ok_def)
qed

interpretation merging: step_invariant merge_step "\<lambda>s. flow_ok s \<and> count_ok s"
  by unfold_locales (auto intro: flow_step count_step)

lemma new_merger_ok: "flow_ok (new_merger n c) \<and> count_ok (new_merger n c)"
  by (simp add: flow_ok_def count_ok_def new_merger_def held_def running_def busy_def sum_list_replicate)

lemmas reachable_merger = merging.run_inv [OF new_merger_ok]

text \<open>What source \<open>i\<close> sends in a schedule.\<close>

fun arrived :: "nat \<Rightarrow> 'm merge_event list \<Rightarrow> 'm list" where
  "arrived i [] = []"
| "arrived i (Arrive j m # es) = (if j = i then [m] else []) @ arrived i es"
| "arrived i (_ # es) = arrived i es"

definition arrivals :: "'m merger \<Rightarrow> 'm merge_event list \<Rightarrow> 'm merger \<Rightarrow> bool" where
  "arrivals s es t \<longleftrightarrow> length (workers t) = length (workers s)
     \<and> (\<forall>i < length (workers s). got (workers t ! i) = got (workers s ! i) @ arrived i es)"

lemma arrivals_step:
  assumes "merge_step s e = Some t" and "arrivals t es u"
  shows "arrivals s (e # es) u"
  using assms
  by (cases e) (auto simp: arrivals_def merge_step_defs Let_def nth_list_update split: if_splits phase.splits list.splits)

interpretation arriving: step_history merge_step arrivals
proof unfold_locales
  show "arrivals s [] s" for s :: "'m merger" by (simp add: arrivals_def)
qed (rule arrivals_step)

lemma run_got:
  assumes "run merge_step (new_merger n c) es = Some s"
  shows "length (workers s) = n" and "i < n \<Longrightarrow> got (workers s ! i) = arrived i es"
  using arriving.run_rel [OF assms] by (simp_all add: arrivals_def new_merger_def)

section \<open>Progress\<close>

text \<open>
  What is left to do for the goroutines, \<open>serve\<close> and the consumer, when the sources do
  nothing more: each of their events takes one off.
\<close>

definition work :: "'m worker \<Rightarrow> nat" where
  "work k = (case phase k of Waiting \<Rightarrow> 1 | Holding _ \<Rightarrow> 3 | Finished \<Rightarrow> 0)"

definition work_left :: "'m merger \<Rightarrow> nat" where
  "work_left s = sum_list (map work (workers s)) + length (buf s) + (if closed s then 0 else 1)"

fun by_source :: "'m merge_event \<Rightarrow> bool" where
  "by_source (Arrive _ _) = True"
| "by_source (CloseSource _) = True"
| "by_source _ = False"

lemma work_left_step:
  assumes "count_ok s" and "merge_step s e = Some t" and "\<not> by_source e"
  shows "work_left t < work_left s"
proof (cases e)
  case (Put i)
  with assms sum_list_update_add [of i "workers s" work "(workers s ! i)\<lparr>phase := Waiting\<rparr>"]
    running_pos [of i s] show ?thesis
    by (auto simp: count_ok_def merge_step_defs work_left_def work_def split: if_splits phase.splits)
next
  case (Direct i)
  with assms sum_list_update_add [of i "workers s" work "(workers s ! i)\<lparr>phase := Waiting\<rparr>"]
    running_pos [of i s] show ?thesis
    by (auto simp: count_ok_def merge_step_defs work_left_def work_def split: if_splits phase.splits)
next
  case (SeeClosed i)
  with assms sum_list_update_add [of i "workers s" work "(workers s ! i)\<lparr>phase := Finished\<rparr>"] show ?thesis
    by (auto simp: merge_step_defs Let_def work_left_def work_def split: if_splits)
next
  case Take
  with assms show ?thesis by (auto simp: merge_step_defs work_left_def split: list.splits)
next
  case WaitOver
  with assms show ?thesis by (auto simp: merge_step_defs work_left_def split: if_splits)
qed (use assms(3) in auto)

definition all_closed :: "'m merger \<Rightarrow> bool" where
  "all_closed s \<longleftrightarrow> (\<forall>k \<in> set (workers s). src_closed k)"

lemma merge_enabled:
  assumes "count_ok s" and "all_closed s" and "\<not> (closed s \<and> buf s = [])"
  shows "\<exists>e t. \<not> by_source e \<and> merge_step s e = Some t"
proof (cases "buf s")
  case (Cons x xs)
  then show ?thesis by (intro exI [of _ Take]) (simp add: merge_step_defs)
next
  case Nil
  with assms(3) have open_out: "\<not> closed s" by simp
  show ?thesis
  proof (cases "running s = 0")
    case True
    with assms(1) open_out show ?thesis
      by (intro exI [of _ WaitOver]) (simp add: merge_step_defs count_ok_def)
  next
    case False
    then obtain i where i: "i < length (workers s)" "phase (workers s ! i) \<noteq> Finished"
      by (auto simp: running_0 in_set_conv_nth)
    show ?thesis
    proof (cases "phase (workers s ! i)")
      case Waiting
      with i(1) assms(2) show ?thesis
        by (intro exI [of _ "SeeClosed i"]) (auto simp: merge_step_defs all_closed_def)
    next
      case (Holding m)
      with i(1) open_out Nil show ?thesis
        by (intro exI [of _ "Direct i"]) (simp add: merge_step_defs)
    qed (use i in simp)
  qed
qed

lemma merge_keeps_order_aux:
  assumes "run merge_step (new_merger n c) es = Some s" and "i < n"
  shows "from_source i (taken s @ buf s) @ held (workers s ! i) = arrived i es"
  using reachable_merger [OF assms(1)] assms(2) run_got [OF assms(1)] by (simp add: flow_ok_def)

section \<open>Properties\<close>

text \<open>C16: Whatever the schedule, a merger delivers the messages of each source in their
order, none twice: what the consumer has taken, what is in the buffer and what a goroutine still holds
are together exactly what the source has sent. Neither a send on the closed output nor a negative
\<open>WaitGroup\<close> counter occurs.\<close>

theorem merge_keeps_order:
  assumes "run merge_step (new_merger n c) es = Some s" and "i < n"
  shows "from_source i (taken s @ buf s) @ held (workers s ! i) = arrived i es \<and> \<not> panicked s"
  using reachable_merger [OF assms(1)] merge_keeps_order_aux [OF assms] by (simp add: count_ok_def)

definition two_sources :: "string merge_event list" where
  "two_sources = [Arrive 0 ''a'', Arrive 1 ''b'', Direct 1, Direct 0, Arrive 0 ''c'', CloseSource 1, CloseSource 0]"

theorem merge_keeps_order_witness:
  "\<exists>s. run merge_step (Merge_agent 2) two_sources = Some s
     \<and> from_source 0 (taken s @ buf s) @ held (workers s ! 0) = [''a'', ''c''] \<and> \<not> panicked s"
proof -
  let ?r = "run merge_step (new_merger 2 0) two_sources"
  have "?r \<noteq> None" and arr: "arrived 0 two_sources = [''a'', ''c'']" by code_simp+
  then obtain s where s: "?r = Some s" by auto
  from merge_keeps_order [OF s, of 0] s arr show ?thesis by (simp add: Merge_agent_def)
qed

text \<open>Once the sources have closed, a merger shuts down by itself, under every schedule:
each event of its goroutines and its consumer brings it closer to the end, one of them is possible
until the output is closed and drained, and by then every message of every source has been
delivered.\<close>

theorem merge_shuts_down:
  assumes "run merge_step (new_merger n c) es = Some s" and "all_closed s"
  shows "(\<forall>e t. \<not> by_source e \<longrightarrow> merge_step s e = Some t \<longrightarrow> work_left t < work_left s)
    \<and> ((\<exists>e t. \<not> by_source e \<and> merge_step s e = Some t) \<or>
       closed s \<and> buf s = [] \<and> (\<forall>i < n. from_source i (taken s) = arrived i es))"
proof -
  from reachable_merger [OF assms(1)] have inv: "flow_ok s" "count_ok s" by auto
  have "from_source i (taken s) = arrived i es"
    if "closed s" "buf s = []" "i < n" for i
  proof -
    note got = run_got [OF assms(1)]
    from that(1) inv(2) have "running s = 0" by (simp add: count_ok_def)
    with that(3) got(1) have "phase (workers s ! i) = Finished" by (simp add: running_0)
    with merge_keeps_order_aux [OF assms(1) that(3)] that(2) show ?thesis by (simp add: held_def)
  qed
  with inv(2) show ?thesis
    using merge_enabled [OF inv(2) assms(2)] work_left_step by blast
qed

theorem merge_shuts_down_witness:
  "\<exists>s. run merge_step (Merge_agent 2) two_sources = Some s
     \<and> (\<exists>e t. \<not> by_source e \<and> merge_step s e = Some t \<and> work_left t < work_left s)"
proof -
  let ?r = "run merge_step (new_merger 2 0) two_sources"
  have some: "?r \<noteq> None" and cl: "map_option all_closed ?r = Some True" "map_option closed ?r = Some False"
    by code_simp+
  then obtain s where s: "?r = Some s" "all_closed s" "\<not> closed s" by auto
  from merge_shuts_down [OF s(1,2)] s(3) obtain e t where
    "\<not> by_source e" "merge_step s e = Some t" "work_left t < work_left s" by blast
  with s(1) show ?thesis by (auto simp: Merge_agent_def)
qed

end
