(* ===== verification/TimeText.thy ===== *)
theory TimeText
  imports GoTime
begin

text \<open>
  The text of a \<open>time.Time\<close> in JSON: the layout RFC 3339 with a fraction of up to nine digits, as
  \<open>MarshalJSON\<close> writes and \<open>UnmarshalJSON\<close> reads it. The zone of the machine is the argument
  \<open>local\<close>. The package is Go's library: nothing here is mapped.
\<close>

section \<open>Digits\<close>

fun pad :: "nat \<Rightarrow> nat \<Rightarrow> string" where
  "pad 0 n = []"
| "pad (Suc k) n = pad k (n div 10) @ [digit (n mod 10)]"

lemma length_pad [simp]: "length (pad k n) = k"
  by (induction k arbitrary: n) simp_all

lemma pad_digits [simp]: "list_all is_digit (pad k n)"
  by (induction k arbitrary: n) simp_all

lemma read_pad: "n < 10 ^ k \<Longrightarrow> read_nat (pad k n) = n"
proof (induction k arbitrary: n)
  case 0
  then show ?case by (simp add: read_nat_def)
next
  case (Suc k)
  then have "n div 10 < 10 ^ k" by simp
  with Suc.IH show ?case by simp
qed

lemma read_nat_zeros: "read_nat (s @ replicate k (CHR ''0'')) = read_nat s * 10 ^ k"
proof (induction k)
  case 0
  then show ?case by simp
next
  case (Suc k)
  have "replicate (Suc k) (CHR ''0'') = replicate k (CHR ''0'') @ ''0''" by (simp add: replicate_append_same)
  moreover have "digit_val (CHR ''0'') = 0" by (simp add: digit_val_def)
  ultimately show ?case
    using Suc read_nat_snoc [of "s @ replicate k (CHR ''0'')" "CHR ''0''"] by (simp del: replicate.simps)
qed

text \<open>Without its trailing zeros.\<close>

definition trim :: "string \<Rightarrow> string" where
  "trim s = rev (dropWhile (\<lambda>c. c = CHR ''0'') (rev s))"

lemma takeWhile_replicate: "takeWhile (\<lambda>c. c = x) xs = replicate (length (takeWhile (\<lambda>c. c = x) xs)) x"
  by (induction xs) auto

lemma trim_split: "\<exists>k. s = trim s @ replicate k (CHR ''0'')"
proof -
  have "rev s = takeWhile (\<lambda>c. c = CHR ''0'') (rev s) @ dropWhile (\<lambda>c. c = CHR ''0'') (rev s)" by simp
  then have "rev s = replicate (length (takeWhile (\<lambda>c. c = CHR ''0'') (rev s))) (CHR ''0'') @ rev (trim s)"
    unfolding trim_def rev_rev_ident using takeWhile_replicate by metis
  then have "rev (rev s) = trim s @ replicate (length (takeWhile (\<lambda>c. c = CHR ''0'') (rev s))) (CHR ''0'')"
    by (metis rev_append rev_replicate rev_rev_ident)
  then show ?thesis by auto
qed

section \<open>Writing\<close>

definition clock_text :: "int \<Rightarrow> string" where
  "clock_text c = pad 2 (nat (c div 3600)) @ '':'' @ pad 2 (nat (c div 60 mod 60)) @ '':'' @ pad 2 (nat (c mod 60))"

definition frac_text :: "nat \<Rightarrow> string" where
  "frac_text n = (if n = 0 then [] else CHR ''.'' # trim (pad 9 n))"

definition zone_text :: "int \<Rightarrow> string" where
  "zone_text off =
     (if off = 0 then ''Z''
      else let z = off sdiv 60; a = nat \<bar>z\<bar>
           in (if z < 0 then ''-'' else ''+'') @ pad 2 (a div 60) @ '':'' @ pad 2 (a mod 60))"

text \<open>A year of more than four digits is an error.\<close>

definition time_text :: "gotime \<Rightarrow> string option" where
  "time_text t =
     (case date_of t of (y, m, d) \<Rightarrow>
        if y < 0 \<or> 10000 \<le> y then None
        else Some (pad 4 (nat y) @ ''-'' @ pad 2 (nat m) @ ''-'' @ pad 2 (nat d) @ ''T''
               @ clock_text (local_secs t mod day_secs) @ frac_text (nat (ns t mod second))
               @ zone_text (offset_at (loc t) (ns t div second))))"

section \<open>Reading\<close>

text \<open>Two digits, or one where that is allowed.\<close>

definition getnum :: "bool \<Rightarrow> string \<Rightarrow> (nat \<times> string) option" where
  "getnum fixed s =
     (case s of
        [] \<Rightarrow> None
      | a # r \<Rightarrow>
          if \<not> is_digit a then None
          else (case r of
                  b # r' \<Rightarrow> if is_digit b then Some (read_nat [a, b], r') else if fixed then None else Some (read_nat [a], r)
                | [] \<Rightarrow> if fixed then None else Some (read_nat [a], r)))"

definition skip_char :: "char \<Rightarrow> string \<Rightarrow> string option" where
  "skip_char c s = (case s of [] \<Rightarrow> None | a # r \<Rightarrow> if a = c then Some r else None)"

text \<open>\<open>atoi\<close>: an optional sign and digits, also none.\<close>

definition atoi :: "string \<Rightarrow> int option" where
  "atoi s =
     (let neg = (take 1 s = ''-''); u = (if take 1 s \<in> {''-'', ''+''} then drop 1 s else s)
      in if list_all is_digit u then Some (if neg then - int (read_nat u) else int (read_nat u)) else None)"

definition parse_frac :: "string \<Rightarrow> (nat \<times> string) option" where
  "parse_frac s =
     (case s of
        a # b # r \<Rightarrow>
          if a = CHR ''.'' \<and> is_digit b then
            (let ds = takeWhile is_digit (b # r); n = read_nat ds in
             if 1000000000 \<le> n then None else Some (n * 10 ^ (9 - length ds), dropWhile is_digit (b # r)))
          else Some (0, s)
      | _ \<Rightarrow> Some (0, s))"

text \<open>The zone: \<open>None\<close> in the result is UTC. Nothing may follow it.\<close>

definition parse_zone :: "string \<Rightarrow> int option option" where
  "parse_zone s =
     (if s = ''Z'' then Some None
      else (case s of
              [sg, a, b, c, d, e] \<Rightarrow>
                if c \<noteq> CHR '':'' then None
                else (case (atoi [a, b], atoi [d, e]) of
                        (Some h, Some m) \<Rightarrow>
                          if sg = CHR ''+'' then Some (Some ((h * 60 + m) * 60))
                          else if sg = CHR ''-'' then Some (Some (- ((h * 60 + m) * 60))) else None
                      | _ \<Rightarrow> None)
            | _ \<Rightarrow> None))"

definition fixedZone :: "int \<Rightarrow> location" where
  "fixedZone off = (\<lambda>_. (off, 0, 0))"

definition make_time :: "location \<Rightarrow> int \<Rightarrow> int \<Rightarrow> int \<Rightarrow> int \<Rightarrow> int \<Rightarrow> int option \<Rightarrow> gotime" where
  "make_time local y m d clock nsec z =
     (let t = Date y m d clock nsec UTC in
      case z of
        None \<Rightarrow> t
      | Some off \<Rightarrow>
          (let t' = t\<lparr>ns := ns t - off * second\<rparr> in
           if offset_at local (ns t' div second) = off then t'\<lparr>loc := local\<rparr> else t'\<lparr>loc := fixedZone off\<rparr>))"

definition parse_year :: "string \<Rightarrow> (int \<times> string) option" where
  "parse_year s =
     (if length s < 4 \<or> \<not> is_digit (hd s) then None
      else map_option (\<lambda>y. (y, drop 4 s)) (atoi (take 4 s)))"

text \<open>The fields in their order, each after its separator.\<close>

definition parse_date :: "string \<Rightarrow> (int \<times> int \<times> int \<times> string) option" where
  "parse_date s =
     Option.bind (parse_year s) (\<lambda>(y, s1).
     Option.bind (Option.bind (skip_char (CHR ''-'') s1) (getnum True)) (\<lambda>(m, s2).
     Option.bind (Option.bind (skip_char (CHR ''-'') s2) (getnum True)) (\<lambda>(d, s3).
       if m = 0 \<or> 12 < m then None
       else if d < 1 \<or> month_len (leap y) (int m - 1) < int d then None
       else Some (y, int m, int d, s3))))"

definition parse_clock :: "string \<Rightarrow> (int \<times> string) option" where
  "parse_clock s =
     Option.bind (Option.bind (skip_char (CHR ''T'') s) (getnum False)) (\<lambda>(h, s1).
     Option.bind (Option.bind (skip_char (CHR '':'') s1) (getnum True)) (\<lambda>(mi, s2).
     Option.bind (Option.bind (skip_char (CHR '':'') s2) (getnum True)) (\<lambda>(sec, s3).
       if 24 \<le> h \<or> 60 \<le> mi \<or> 60 \<le> sec then None
       else Some (int h * 3600 + int mi * 60 + int sec, s3))))"

definition parse_time :: "location \<Rightarrow> string \<Rightarrow> gotime option" where
  "parse_time local s =
     Option.bind (parse_date s) (\<lambda>(y, m, d, s1).
     Option.bind (parse_clock s1) (\<lambda>(clock, s2).
     Option.bind (parse_frac s2) (\<lambda>(nsec, s3).
     map_option (make_time local y m d clock (int nsec)) (parse_zone s3))))"

section \<open>Reading what was written\<close>

lemma getnum_pad [simp]: "n < 100 \<Longrightarrow> getnum f (pad 2 n @ r) = Some (n, r)"
proof -
  assume n: "n < 100"
  have p: "pad 2 n = [digit (n div 10 mod 10), digit (n mod 10)]" by (simp add: numeral_2_eq_2)
  moreover have "read_nat [digit (n div 10 mod 10), digit (n mod 10)] = n"
    using read_pad [of n 2] n p by simp
  ultimately show ?thesis by (simp add: getnum_def)
qed

lemma skip_char_same [simp]: "skip_char c (c # r) = Some r"
  by (simp add: skip_char_def)

lemma sign_digits:
  assumes "list_all is_digit s"
  shows "atoi s = Some (int (read_nat s))"
proof -
  have "take 1 s \<noteq> ''-''" "take 1 s \<noteq> ''+''" using assms by (cases s; auto simp: is_digit_def)+
  with assms show ?thesis by (simp add: atoi_def Let_def)
qed

lemma parse_year_pad:
  assumes "n < 10000"
  shows "parse_year (pad 4 n @ r) = Some (int n, r)"
proof -
  obtain a u where "pad 4 n = a # u" by (cases "pad 4 n") (auto dest: arg_cong [where f = length])
  with pad_digits [of 4 n] have "is_digit (hd (pad 4 n @ r))" by simp
  with assms sign_digits [of "pad 4 n"] read_pad [of n 4] show ?thesis
    by (simp add: parse_year_def)
qed

lemma parse_frac_text:
  assumes "n < 1000000000" and "\<not> is_digit z" "z \<noteq> CHR ''.''"
  shows "parse_frac (frac_text n @ z # r) = Some (n, z # r)"
proof (cases "n = 0")
  case True
  with assms show ?thesis by (simp add: frac_text_def parse_frac_def split: list.split)
next
  case False
  obtain k where k: "pad 9 n = trim (pad 9 n) @ replicate k (CHR ''0'')" using trim_split by blast
  have len: "length (trim (pad 9 n)) + k = 9" using arg_cong [OF k, of length] by simp
  have val: "read_nat (trim (pad 9 n)) * 10 ^ k = n"
    using read_pad [of n 9] assms(1) k read_nat_zeros [of "trim (pad 9 n)" k] by simp
  have digits: "list_all is_digit (trim (pad 9 n))"
    using pad_digits [of 9 n] by (subst (asm) k) simp
  obtain b u where t: "trim (pad 9 n) = b # u"
    using val False by (cases "trim (pad 9 n)") (auto simp: read_nat_def)
  have "takeWhile is_digit (trim (pad 9 n) @ z # r) = trim (pad 9 n)"
    "dropWhile is_digit (trim (pad 9 n) @ z # r) = z # r"
    using digits assms(2) by (simp_all add: list_all_iff)
  moreover have "read_nat (trim (pad 9 n)) < 1000000000"
    using val assms(1) by (metis le_less_trans le_add2 mult.commute mult_le_mono1 nat_mult_1 one_le_numeral one_le_power)
  moreover have "9 - length (trim (pad 9 n)) = k" using len by simp
  ultimately show ?thesis
    using digits val by (simp add: frac_text_def False parse_frac_def t Let_def)
qed

lemma pad2_read: "n < 100 \<Longrightarrow> \<exists>p q. pad 2 n = [p, q] \<and> atoi [p, q] = Some (int n)"
proof -
  assume n: "n < 100"
  have p: "pad 2 n = [digit (n div 10 mod 10), digit (n mod 10)]" by (simp add: numeral_2_eq_2)
  with pad_digits [of 2 n] read_pad [of n 2] n sign_digits [of "pad 2 n"] show ?thesis by simp
qed

lemma parse_zone_text:
  assumes "off mod 60 = 0" and "\<bar>off\<bar> < 360000"
  shows "parse_zone (zone_text off) = Some (if off = 0 then None else Some off)"
proof (cases "off = 0")
  case True
  then show ?thesis by (simp add: zone_text_def parse_zone_def)
next
  case False
  define k where "k = off div 60"
  have off: "off = k * 60" using assms(1) by (auto simp: k_def)
  have sdiv: "off sdiv 60 = k" by (simp add: off signed_divide_int_def abs_mult sgn_mult sgn_mult_abs)
  let ?a = "nat \<bar>k\<bar>"
  have "?a < 6000" using assms(2) by (simp add: off abs_mult nat_less_iff)
  then have "?a div 60 < 100" "?a mod 60 < 100" by (simp_all add: less_mult_imp_div_less less_trans [of _ 60])
  then obtain p q r u where pq: "pad 2 (?a div 60) = [p, q]" "atoi [p, q] = Some (int (?a div 60))"
    and ru: "pad 2 (?a mod 60) = [r, u]" "atoi [r, u] = Some (int (?a mod 60))"
    using pad2_read [of "?a div 60"] pad2_read [of "?a mod 60"] by auto
  have "(int (?a div 60) * 60 + int (?a mod 60)) * 60 = \<bar>k\<bar> * 60"
    by (metis abs_ge_zero div_mult_mod_eq int_nat_eq of_nat_add of_nat_mult of_nat_numeral)
  then have val: "(int (?a div 60) * 60 + int (?a mod 60)) * 60 = \<bar>off\<bar>" by (simp add: off abs_mult)
  show ?thesis
  proof (cases "k < 0")
    case True
    then have "zone_text off = [CHR ''-'', p, q, CHR '':'', r, u]" using False pq(1) ru(1)
      by (simp add: zone_text_def sdiv)
    with True pq(2) ru(2) val False off show ?thesis by (simp add: parse_zone_def)
  next
    case nonneg: False
    then have "zone_text off = [CHR ''+'', p, q, CHR '':'', r, u]" using False pq(1) ru(1)
      by (simp add: zone_text_def sdiv)
    with nonneg pq(2) ru(2) val False off show ?thesis by (simp add: parse_zone_def)
  qed
qed

lemma parse_date_text:
  assumes "0 \<le> y" "y < 10000" "1 \<le> m" "m \<le> 12" "1 \<le> d" "d \<le> month_len (leap y) (m - 1)"
  shows "parse_date (pad 4 (nat y) @ ''-'' @ pad 2 (nat m) @ ''-'' @ pad 2 (nat d) @ r) = Some (y, m, d, r)"
proof -
  have "d < 100" using assms(6) month_len_bounds(2) [of "leap y" "m - 1"] by linarith
  with assms show ?thesis
    using parse_year_pad [of "nat y" "''-'' @ pad 2 (nat m) @ ''-'' @ pad 2 (nat d) @ r"]
    by (simp add: parse_date_def nat_less_iff)
qed

lemma parse_clock_text:
  assumes "0 \<le> c" "c < 86400"
  shows "parse_clock (''T'' @ clock_text c @ r) = Some (c, r)"
proof -
  have b: "c div 3600 < 24" "c div 60 mod 60 < 60" "c mod 60 < 60" "0 \<le> c div 3600" "0 \<le> c div 60 mod 60" "0 \<le> c mod 60"
    using assms by simp_all
  have "c div 3600 = c div 60 div 60" using zdiv_zmult2_eq [of 60 c 60] by simp
  then have c: "c div 3600 * 3600 + c div 60 mod 60 * 60 + c mod 60 = c"
    using div_mult_mod_eq [of c 60] div_mult_mod_eq [of "c div 60" 60] by linarith
  define h mi sec where "h = nat (c div 3600)" and "mi = nat (c div 60 mod 60)" and "sec = nat (c mod 60)"
  then have i: "h < 24" "mi < 60" "sec < 60" "int h * 3600 + int mi * 60 + int sec = c"
    using b c unfolding h_def mi_def sec_def by (simp_all only: nat_less_iff int_nat_eq if_True of_nat_numeral)
  have "parse_clock (''T'' @ (pad 2 h @ '':'' @ pad 2 mi @ '':'' @ pad 2 sec) @ r) =
    Some (int h * 3600 + int mi * 60 + int sec, r)"
    using i(1-3) by (simp add: parse_clock_def)
  moreover have "clock_text c = pad 2 h @ '':'' @ pad 2 mi @ '':'' @ pad 2 sec"
    by (simp only: clock_text_def h_def mi_def sec_def)
  ultimately show ?thesis by (simp only: i(4))
qed

theorem parse_time_text:
  assumes "time_text t = Some s" and "offset_at (loc t) (ns t div second) = off"
    and "off mod 60 = 0" and "\<bar>off\<bar> < 360000"
  shows "\<exists>t'. parse_time local s = Some t' \<and> ns t' = ns t \<and> offset_at (loc t') (ns t' div second) = off"
proof -
  obtain y m d where date: "date_of t = (y, m, d)" by (cases "date_of t")
  let ?c = "local_secs t mod day_secs" and ?n = "nat (ns t mod second)"
  from assms(1) date assms(2) have y: "0 \<le> y" "y < 10000"
    and s: "s = pad 4 (nat y) @ ''-'' @ pad 2 (nat m) @ ''-'' @ pad 2 (nat d) @ ''T'' @ clock_text ?c @ frac_text ?n @ zone_text off"
    by (auto simp: time_text_def split: if_splits)
  have c: "civil (local_secs t div day_secs) = (y, m, d)" using date by (simp add: date_of_def)
  note md = civil_month [OF c] civil_day [OF c]
  have "\<exists>z r. zone_text off = z # r \<and> z \<in> {CHR ''Z'', CHR ''-'', CHR ''+''}"
    by (simp add: zone_text_def Let_def)
  then obtain z r where zr: "zone_text off = z # r" "z \<in> {CHR ''Z'', CHR ''-'', CHR ''+''}" by blast
  then have z: "zone_text off = z # r" "\<not> is_digit z" "z \<noteq> CHR ''.''" by (auto simp: is_digit_def)
  have n: "?n < 1000000000" by (simp add: nat_less_iff)
  have "parse_time local s = map_option (make_time local y m d ?c (int ?n)) (parse_zone (zone_text off))"
    using parse_date_text [OF y, of m d "''T'' @ clock_text ?c @ frac_text ?n @ zone_text off"] md
      parse_clock_text [of ?c "frac_text ?n @ zone_text off"] parse_frac_text [OF n z(2,3), of r]
    by (simp add: parse_time_def s z(1))
  then have p: "parse_time local s = Some (make_time local y m d ?c (int ?n) (if off = 0 then None else Some off))"
    using parse_zone_text [OF assms(3,4)] by simp
  have utc: "ns (Date y m d ?c (int ?n) UTC) = local_secs t * second + ns t mod second"
    using ns_Date_fixed [OF fixed_zone_UTC, of y m d ?c "int ?n"] day_number_civil [OF c] by simp
  have ns: "local_secs t * second + ns t mod second - off * second = ns t"
    using local_secs_ns [of t] assms(2) by (simp add: left_diff_distrib)
  show ?thesis
  proof (cases "off = 0")
    case True
    with p utc ns show ?thesis by (simp add: make_time_def UTC_def offset_at_def Let_def)
  next
    case False
    with p utc ns show ?thesis by (auto simp: make_time_def Let_def fixedZone_def offset_at_def)
  qed
qed

end
