(* ===== verification/Persist.thy ===== *)
theory Persist
  imports Limiter TimeText
begin

text \<open>
  Package \<open>message\<close>, file \<open>persistor.go\<close>, and the encoding of the limiter's state
  (\<open>Encode\<close> and \<open>Decode\<close> in \<open>limiter.go\<close>): what the limiter knows survives a restart.
  The zone of the machine is the argument \<open>local\<close>.
\<close>

section \<open>Saving objects in files\<close>

text \<open>\<open>os.Create\<close> truncates the file before the object is encoded.\<close>

definition file_Save :: "('w, 'h) Fs \<Rightarrow> string \<Rightarrow> ('o \<Rightarrow> string + bytes) \<Rightarrow> 'o \<Rightarrow> 'w \<Rightarrow> string option \<times> 'w" where
  "file_Save fs p encode x w =
     (case OpenFile fs p [O_RDWR, O_CREATE, O_TRUNC] w of
        (Inl err, w') \<Rightarrow> (Some err, w')
      | (Inr f, w') \<Rightarrow>
          (case encode x of
             Inl err \<Rightarrow> (Some err, w')
           | Inr b \<Rightarrow> Write fs f b w'))"

definition file_Load ::
  "('w, 'h) Fs \<Rightarrow> string \<Rightarrow> ('o \<Rightarrow> bytes \<Rightarrow> 'o \<times> string option) \<Rightarrow> 'o \<Rightarrow> 'w \<Rightarrow> 'o \<times> string option \<times> 'w"
where
  "file_Load fs p decode x w =
     (case Open fs p w of
        Inl err \<Rightarrow> (x, Some err, w)
      | Inr f \<Rightarrow>
          (case ReadAll fs f w of
             Inl err \<Rightarrow> (x, Some err, w)
           | Inr b \<Rightarrow> (case decode x b of (x', err) \<Rightarrow> (x', err, w))))"

definition FilePersistor ::
  "('w, 'h) Fs \<Rightarrow> string \<Rightarrow> ('o \<Rightarrow> string + bytes) \<Rightarrow> ('o \<Rightarrow> bytes \<Rightarrow> 'o \<times> string option) \<Rightarrow> ('o, 'w) Store"
where
  "FilePersistor fs p encode decode = \<lparr>Save = file_Save fs p encode, Load = file_Load fs p decode\<rparr>"

text \<open>
  \<open>MemPersistor\<close> saves behind what is in its buffer and loads from the front; how much of the buffer goes is up to
  \<open>Decode\<close>, which gets it as a reader, so \<open>decode\<close> has the rest as its last result. Writing to the buffer does not fail.
\<close>

definition mem_Save :: "('o \<Rightarrow> string + bytes) \<Rightarrow> 'o \<Rightarrow> bytes \<Rightarrow> string option \<times> bytes" where
  "mem_Save encode x w = (case encode x of Inl err \<Rightarrow> (Some err, w) | Inr b \<Rightarrow> (None, w @ b))"

definition mem_Load ::
  "('o \<Rightarrow> bytes \<Rightarrow> 'o \<times> string option \<times> bytes) \<Rightarrow> 'o \<Rightarrow> bytes \<Rightarrow> 'o \<times> string option \<times> bytes"
where
  "mem_Load decode x w = decode x w"

definition MemPersistor ::
  "('o \<Rightarrow> string + bytes) \<Rightarrow> ('o \<Rightarrow> bytes \<Rightarrow> 'o \<times> string option \<times> bytes) \<Rightarrow> ('o, bytes) Store"
where
  "MemPersistor encode decode = \<lparr>Save = mem_Save encode, Load = mem_Load decode\<rparr>"

section \<open>The limiter as JSON\<close>

definition limiter_json :: "DataLimiter \<Rightarrow> string \<Rightarrow> json" where
  "limiter_json l t =
     JObj [(''budget'', JNum (show_int (Budget l))), (''hasBudget'', JBool (HasBudget l)),
       (''count'', JNum (show_int (Count l))), (''periodEnd'', JStr t)]"

definition Encode :: "DataLimiter \<Rightarrow> string + bytes" where
  "Encode l =
     (case time_text (PeriodEnd l) of
        None \<Rightarrow> Inl ''Time.MarshalJSON: year outside of range [0,9999]''
      | Some t \<Rightarrow> Inr (render (limiter_json l t) @ [CHR 0x0A]))"

definition limiter_field :: "nat \<Rightarrow> string \<Rightarrow> json \<Rightarrow> DataLimiter \<Rightarrow> DataLimiter \<times> bool" where
  "limiter_field W k v l =
     (if same_key k ''budget'' then assign_int W (\<lambda>i l. l\<lparr>Budget := i\<rparr>) v l
      else if same_key k ''hasBudget'' then assign_bool (\<lambda>b l. l\<lparr>HasBudget := b\<rparr>) v l
      else if same_key k ''count'' then assign_int W (\<lambda>i l. l\<lparr>Count := i\<rparr>) v l
      else (l, False))"

text \<open>A time that cannot be parsed ends the decoding; the members before it have been assigned.\<close>

fun assign_limiter :: "nat \<Rightarrow> location \<Rightarrow> (string \<times> json) list \<Rightarrow> DataLimiter \<Rightarrow> DataLimiter \<times> bool" where
  "assign_limiter W local [] l = (l, False)"
| "assign_limiter W local ((k, v) # ms) l =
     (if same_key k ''periodEnd'' then
        (case v of
           JNull \<Rightarrow> assign_limiter W local ms l
         | JStr s \<Rightarrow> (case parse_time local s of
                       None \<Rightarrow> (l, True)
                     | Some t \<Rightarrow> assign_limiter W local ms (l\<lparr>PeriodEnd := t\<rparr>))
         | _ \<Rightarrow> (l, True))
      else (let (l', bad) = limiter_field W k v l; (l'', bad') = assign_limiter W local ms l' in (l'', bad \<or> bad')))"

definition decode_limiter :: "nat \<Rightarrow> location \<Rightarrow> DataLimiter \<Rightarrow> bytes \<Rightarrow> DataLimiter \<times> string option" where
  "decode_limiter W local l b =
     (case next_value b of
        Inl err \<Rightarrow> (l, Some (json_error_text err))
      | Inr (v, _) \<Rightarrow>
          (case v of
             JObj ms \<Rightarrow> (case assign_limiter W local ms l of
                           (l', bad) \<Rightarrow> (l', if bad then Some (json_error_text Json_type) else None))
           | JNull \<Rightarrow> (l, None)
           | _ \<Rightarrow> (l, Some (json_error_text Json_type))))"

definition limiter_file :: "('w, 'h) Fs \<Rightarrow> string \<Rightarrow> nat \<Rightarrow> location \<Rightarrow> (DataLimiter, 'w) Store" where
  "limiter_file fs p W local = FilePersistor fs p Encode (decode_limiter W local)"

section \<open>The contract of a persistor\<close>

text \<open>
  \<open>holds w x\<close>: the world \<open>w\<close> has the object \<open>x\<close> stored. A save without an error stores, and what is stored is what a load without an
  error gives: \<open>view\<close> is the part of the object that counts, and \<open>valid\<close> says which objects can be saved faithfully.
\<close>

locale persistor =
  fixes store :: "('o, 'w) Store"
    and view :: "'o \<Rightarrow> 'v"
    and valid :: "'o \<Rightarrow> bool"
    and holds :: "'w \<Rightarrow> 'o \<Rightarrow> bool"
  assumes save_holds: "valid x \<Longrightarrow> Save store x w = (None, w') \<Longrightarrow> holds w' x"
    and load_holds: "holds w x \<Longrightarrow> Load store y w = (z, None, w') \<Longrightarrow> view z = view x"
begin

text \<open>Who saves after a change resumes with what was saved, if nobody has taken it out of the store meanwhile.\<close>

lemma resume:
  assumes "valid x" "Save store x w = (None, w')" and "holds w' x \<Longrightarrow> holds w'' x"
    and "Load store y w'' = (z, None, u)"
  shows "view z = view x"
  using load_holds [OF assms(3) [OF save_holds [OF assms(1,2)]] assms(4)] .

end

definition limiter_view :: "DataLimiter \<Rightarrow> int \<times> bool \<times> int \<times> int" where
  "limiter_view l = (Budget l, HasBudget l, Count l, ns (PeriodEnd l))"

text \<open>The numbers fit, and the offset of the period end is a whole number of minutes, as the text of a time can only
tell minutes.\<close>

definition limiter_valid :: "nat \<Rightarrow> DataLimiter \<Rightarrow> bool" where
  "limiter_valid W l \<longleftrightarrow> fits W (Budget l) \<and> fits W (Count l) \<and>
     (let off = offset_at (loc (PeriodEnd l)) (ns (PeriodEnd l) div second) in off mod 60 = 0 \<and> \<bar>off\<bar> < 360000)"

lemma limiter_keys [simp]:
  "\<not> same_key ''budget'' ''periodEnd''" "\<not> same_key ''hasBudget'' ''periodEnd''" "\<not> same_key ''count'' ''periodEnd''"
  "\<not> same_key ''hasBudget'' ''budget''" "\<not> same_key ''count'' ''budget''" "\<not> same_key ''count'' ''hasBudget''"
  by (simp_all add: same_key_def lower_def)

lemma decode_Encode_append:
  assumes "Encode l = Inr b" and "limiter_valid W l"
  shows "\<exists>t. decode_limiter W local y (b @ rest) =
      (y\<lparr>Budget := Budget l, HasBudget := HasBudget l, Count := Count l, PeriodEnd := t\<rparr>, None) \<and> ns t = ns (PeriodEnd l)"
proof -
  from assms(1) obtain s where s: "time_text (PeriodEnd l) = Some s" "b = render (limiter_json l s) @ [CHR 0x0A]"
    by (auto simp: Encode_def split: option.splits)
  from assms(2) parse_time_text [OF s(1) refl] obtain t where t: "parse_time local s = Some t" "ns t = ns (PeriodEnd l)"
    by (auto simp: limiter_valid_def Let_def)
  have "wf_json (limiter_json l s)" by (simp add: limiter_json_def)
  moreover have "delim (CHR 0x0A # rest)" by (simp add: is_num_char_def is_digit_def)
  ultimately have "next_value (render (limiter_json l s) @ CHR 0x0A # rest) = Inr (limiter_json l s, CHR 0x0A # rest)"
    by (rule next_value_render)
  then have "next_value (b @ rest) = Inr (limiter_json l s, CHR 0x0A # rest)" by (simp add: s(2))
  with assms(2) t show ?thesis
    by (intro exI [of _ t]) (simp add: decode_limiter_def limiter_json_def limiter_field_def assign_bool_def limiter_valid_def)
qed

lemmas decode_Encode = decode_Encode_append [where rest = "[]", simplified append_Nil2]

context file_system
begin

lemma file_Save_writes:
  assumes "file_Save fs p encode x w = (None, w')"
  shows "\<exists>b. encode x = Inr b \<and> content w' = (content w)(p \<mapsto> b)"
proof -
  from assms obtain f w1 b where f: "OpenFile fs p [O_RDWR, O_CREATE, O_TRUNC] w = (Inr f, w1)" "encode x = Inr b"
    "Write fs f b w1 = (None, w')"
    by (auto simp: file_Save_def split: prod.splits sum.splits)
  from OpenFile_creates [OF f(1)] have "Name fs f = p" "content w1 = (content w)(p \<mapsto> [])" by auto
  with Write_overwrites [OF f(3)] have "content w' = (content w)(p \<mapsto> b)"
    by (simp add: overwrite_def contents_of_def)
  with f(2) show ?thesis by blast
qed

lemma file_Load_reads:
  assumes "file_Load fs p decode x w = (z, None, w')"
  shows "\<exists>b. content w p = Some b \<and> decode x b = (z, None) \<and> w' = w"
  using assms Open_Name ReadAll_content
  by (fastforce simp: file_Load_def split: sum.splits prod.splits)

lemma limiter_file_persistor:
  "persistor (limiter_file fs p W local) limiter_view (limiter_valid W) (\<lambda>w x. limiter_valid W x \<and> (\<exists>b. Encode x = Inr b \<and> content w p = Some b))"
proof unfold_locales
  fix x :: DataLimiter and w w'
  assume "limiter_valid W x" and s: "Save (limiter_file fs p W local) x w = (None, w')"
  then show "limiter_valid W x \<and> (\<exists>b. Encode x = Inr b \<and> content w' p = Some b)"
    using file_Save_writes [of p Encode x w w'] by (auto simp: limiter_file_def FilePersistor_def)
next
  fix x y z :: DataLimiter and w w'
  assume "limiter_valid W x \<and> (\<exists>b. Encode x = Inr b \<and> content w p = Some b)"
    and l: "Load (limiter_file fs p W local) y w = (z, None, w')"
  then obtain b where b: "limiter_valid W x" "Encode x = Inr b" "content w p = Some b" by blast
  from l obtain b' where "content w p = Some b'" "decode_limiter W local y b' = (z, None)"
    using file_Load_reads [of p "decode_limiter W local" y w z w'] by (auto simp: limiter_file_def FilePersistor_def)
  with b decode_Encode [OF b(2,1), of local y] show "limiter_view z = limiter_view x"
    by (auto simp: limiter_view_def)
qed

text \<open>A file with the encoding of a limiter loads without an error.\<close>

lemma limiter_file_loads:
  assumes "Open fs p w = Inr f" and "ReadAll fs f w = Inr b" and "content w p = Some b'" and "Encode x = Inr b'" and "limiter_valid W x"
  shows "\<exists>z. Load (limiter_file fs p W local) y w = (z, None, w)"
  using decode_Encode [OF assms(4,5), of local y] ReadAll_content [OF assms(2)] Open_Name [OF assms(1)] assms(1-3)
  by (auto simp: limiter_file_def FilePersistor_def file_Load_def)

end

interpretation disk_limiter: persistor "limiter_file disk_fs p W local" limiter_view "limiter_valid W"
    "\<lambda>w x. limiter_valid W x \<and> (\<exists>b. Encode x = Inr b \<and> disk_content w p = Some b)"
  by (rule disk.limiter_file_persistor)

text \<open>The simple store of the witnesses keeps the whole object.\<close>

interpretation cell: persistor cell_store limiter_view "\<lambda>_. True" "\<lambda>w x. w = Some x"
  by unfold_locales (auto simp: cell_store_def)

section \<open>Restarting\<close>

text \<open>C28: The accounting survives a restart: when a message of \<open>n\<close> bytes has been counted and the state was saved in the limiter's file without an
error, then a limiter that is started later, by the client in whatever zone of the machine, in a world in which this file is as it was left and can be opened
and read, starts in its initial state with the same budget, the old count plus the \<open>n\<close> bytes, and the same end of the period. The numbers
have to fit their type, and the offset of the period's end has to be whole minutes, as its text tells no more.\<close>

theorem restart_keeps_count:
  assumes "file_system fs content"
    and "increment W (limiter_file fs p W local) n l w = (None, l', w')" and "limiter_valid W l'"
    and "content w'' p = content w' p" and "Open fs p w'' = Inr f" and "ReadAll fs f w'' = Inr b"
  shows "limiter_view (lim (NewDataLimiter (limiter_file fs p W local') w''))
      = (Budget l, HasBudget l, swrap W (Count l + n), ns (PeriodEnd l))
    \<and> st (NewDataLimiter (limiter_file fs p W local') w'') = Initial
    \<and> world (NewDataLimiter (limiter_file fs p W local') w'') = w''"
proof -
  let ?s = "limiter_file fs p W local'" let ?blank = "\<lparr>Budget = 0, HasBudget = False, Count = 0, PeriodEnd = zero_time, periodTimer = None\<rparr>"
  note keeps = file_system.limiter_file_persistor [OF assms(1), of p W local']
  from assms(2) have l': "l' = l\<lparr>Count := swrap W (Count l + n)\<rparr>" and s: "Save ?s l' w = (None, w')"
    by (auto simp: increment_def limiter_file_def FilePersistor_def Let_def split: prod.splits)
  from persistor.save_holds [OF keeps assms(3) s] assms(4) obtain b' where b': "Encode l' = Inr b'" "content w'' p = Some b'" by auto
  from file_system.limiter_file_loads [OF assms(1,5,6) b'(2,1) assms(3)] obtain z where z: "Load ?s ?blank w'' = (z, None, w'')" by blast
  from persistor.resume [OF keeps assms(3) s _ z] assms(4) have "limiter_view z = limiter_view l'" by simp
  moreover from z have "NewDataLimiter ?s w'' = \<lparr>st = Initial, lim = z, world = w'', sent = [], out_closed = False\<rparr>"
    by (simp add: NewDataLimiter_def)
  ultimately show ?thesis by (simp add: l' limiter_view_def)
qed

text \<open>Between the two a message is stored.\<close>

theorem restart_keeps_count_witness:
  "\<exists>w'. snd (snd (increment 64 (limiter_file disk_fs ''l'' 64 UTC) 3 (lim (witness_conf () 100 90)) empty_disk)) = w'
     \<and> limiter_view (lim (NewDataLimiter (limiter_file disk_fs ''l'' 64 UTC) (snd (WriteFile disk_fs ''d/7-0'' ''abc'' w')))) = (100, True, 93, 0)"
proof -
  let ?s = "limiter_file disk_fs ''l'' 64 UTC" and ?l = "lim (witness_conf () 100 90)"
  let ?w = "snd (snd (increment 64 ?s 3 ?l empty_disk))" let ?u = "snd (WriteFile disk_fs ''d/7-0'' ''abc'' ?w)"
  obtain e l' w' where i: "increment 64 ?s 3 ?l empty_disk = (e, l', w')"
    by (cases "increment 64 ?s 3 ?l empty_disk") auto
  have run: "fst (increment 64 ?s 3 ?l empty_disk) = None \<and> disk_content ?u ''l'' = disk_content ?w ''l''
    \<and> Open disk_fs ''l'' ?u = Inr ''l'' \<and> \<not> isl (ReadAll disk_fs ''l'' ?u)" by code_simp
  with i have n: "e = None" by auto
  from run obtain b where b: "ReadAll disk_fs ''l'' ?u = Inr b" by (cases "ReadAll disk_fs ''l'' ?u") auto
  have l': "l' = ?l\<lparr>Count := 93\<rparr>"
    using i by (auto simp: increment_def Let_def witness_conf_def fits_def split: prod.splits)
  then have "limiter_valid 64 l'"
    by (simp add: limiter_valid_def witness_conf_def fits_def zero_time_def UTC_def offset_at_def)
  from restart_keeps_count [OF disk.file_system_axioms i [unfolded n(1)] this _ _ b [unfolded i [THEN arg_cong, of "\<lambda>x. snd (snd x)"]]] run i
  show ?thesis by (simp add: witness_conf_def zero_time_def fits_def)
qed

section \<open>The persistor in memory\<close>

text \<open>The decoder of the limiter's state as a reader: it takes \<open>ahead w\<close> bytes off the buffer \<open>w\<close>, as \<open>json.Decoder\<close> reads in blocks.\<close>

definition limiter_reader ::
  "(bytes \<Rightarrow> nat) \<Rightarrow> nat \<Rightarrow> location \<Rightarrow> DataLimiter \<Rightarrow> bytes \<Rightarrow> DataLimiter \<times> string option \<times> bytes"
where
  "limiter_reader ahead W local l w = (case decode_limiter W local l w of (l', err) \<Rightarrow> (l', err, drop (ahead w) w))"

text \<open>The persistor in memory is no store of the last state, unlike the one in a file: a \<open>Load\<close> after several \<open>Save\<close>s into an empty
buffer has the first state that was saved, however many were saved after it.\<close>

theorem mem_loads_oldest:
  assumes "limiter_valid W l" and "Save (MemPersistor Encode (limiter_reader ahead W local)) l [] = (None, w)"
    and "w' = fold (\<lambda>x u. snd (Save (MemPersistor Encode (limiter_reader ahead W local)) x u)) later w"
  shows "\<exists>z w''. Load (MemPersistor Encode (limiter_reader ahead W local)) y w' = (z, None, w'') \<and> limiter_view z = limiter_view l"
proof -
  from assms(2) have "Encode l = Inr w" by (auto simp: MemPersistor_def mem_Save_def split: sum.splits)
  moreover have "\<exists>rest. fold (\<lambda>x u. snd (Save (MemPersistor Encode (limiter_reader ahead W local)) x u)) later w = w @ rest"
    by (induction later arbitrary: w) (auto simp: MemPersistor_def mem_Save_def split: sum.split, metis append.assoc)
  ultimately obtain rest t where "decode_limiter W local y w' =
      (y\<lparr>Budget := Budget l, HasBudget := HasBudget l, Count := Count l, PeriodEnd := t\<rparr>, None)" "ns t = ns (PeriodEnd l)"
    using decode_Encode_append [OF _ assms(1)] assms(3) by metis
  then show ?thesis by (simp add: MemPersistor_def mem_Load_def limiter_reader_def limiter_view_def)
qed

theorem mem_loads_oldest_witness:
  "\<exists>w z w''. fold (\<lambda>x u. snd (Save (MemPersistor Encode (limiter_reader (\<lambda>_. 512) 64 UTC)) x u))
       [lim (witness_conf () 100 90), lim (witness_conf () 100 95)] [] = w
     \<and> Load (MemPersistor Encode (limiter_reader (\<lambda>_. 512) 64 UTC)) (lim (witness_conf () 7 7)) w = (z, None, w'') \<and> Count z = 90"
proof -
  let ?l = "lim (witness_conf () 100 90)" and ?s = "MemPersistor Encode (limiter_reader (\<lambda>_. 512) 64 UTC)"
  have "fst (Save ?s ?l []) = None" by code_simp
  then obtain w where w: "Save ?s ?l [] = (None, w)" by (metis prod.collapse)
  have "limiter_valid 64 ?l" by (simp add: limiter_valid_def witness_conf_def fits_def zero_time_def UTC_def offset_at_def)
  from mem_loads_oldest [OF this w refl, where later = "[lim (witness_conf () 100 95)]" and y = "lim (witness_conf () 7 7)"] w show ?thesis
    by (auto simp: limiter_view_def witness_conf_def)
qed

end
