(* ===== verification/Pipeline.thy ===== *)
theory Pipeline
  imports Client Merge Persist
begin

text \<open>
  The network pipeline as \<open>client.run\<close> puts it together (\<open>cmd/client/main.go\<close>, lines 322 to
  347): the converter stores what the servers send and passes it on, the loader adds the messages of
  earlier runs, the requester may add a report (and the loader one, \<open>Request_report\<close> too), the limiter passes or drops them, and the producer
  publishes what the limiter passes and removes it from the disk. All of them share one world. The
  goroutines run in any order: a schedule is a list of events, each one iteration of one of the loops.
\<close>

section \<open>State and steps\<close>

text \<open>
  \<open>Load_part j n\<close>: the loader reads the first \<open>n\<close> bytes of the file of message \<open>j\<close> of the pool, which is being written.
  \<open>p_queue\<close> is what the converter, the loader and the requester have sent towards the limiter. Any of it may
  reach the limiter next, which covers every order in which the merger's goroutines hand on the messages.
  \<open>p_next\<close> counts the messages of \<open>sent\<close> that the producer has dealt with.
\<close>

record 'w pipe =
  p_lim :: "'w lconf"
  p_pers :: Persistor
  p_queue :: "Message list"
  p_next :: nat

datatype pipe_event =
    Convert agent_Message ambient "int option"
  | Load_file string | Load_part nat nat
  | Request_report string
  | Limiter gotime lim_input
  | Pass gotime nat
  | Publish_next
  | Finish

text \<open>What the parts are configured with.\<close>

record ('w, 'h) parts =
  the_fs :: "('w, 'h) Fs"
  the_pid :: int
  the_width :: nat
  the_msgpack :: "payload \<Rightarrow> bytes \<times> string option"
  the_config :: Schema.Config
  the_store :: "(DataLimiter, 'w) Store"
  the_producer :: "'w MQTTProducer"

definition pl_world :: "'w pipe \<Rightarrow> 'w" where
  "pl_world s = world (p_lim s)"

definition set_world :: "'w \<Rightarrow> 'w pipe \<Rightarrow> 'w pipe" where
  "set_world w s = s\<lparr>p_lim := (p_lim s)\<lparr>world := w\<rparr>\<rparr>"

definition without :: "nat \<Rightarrow> 'm list \<Rightarrow> 'm list" where
  "without i ms = take i ms @ drop (Suc i) ms"

fun pipe_step :: "('w, 'h) parts \<Rightarrow> 'w pipe \<Rightarrow> pipe_event \<Rightarrow> 'w pipe option" where
  "pipe_step k s (Convert m a l) =
     (case convert_one (the_width k) (the_msgpack k) (the_fs k) (the_pid k) (the_config k)
             (Some (p_pers s), pl_world s) (m, a, l) of
        (out, Some p, w) \<Rightarrow> Some ((set_world w s)\<lparr>p_pers := p, p_queue := p_queue s @ out\<rparr>)
      | (_, None, _) \<Rightarrow> None)"
| "pipe_step k s (Load_file q) = Some (s\<lparr>p_queue := p_queue s @ [loadMessage (the_fs k) q (pl_world s)]\<rparr>)"
| "pipe_step k s (Load_part j n) =
     (if j < length (p_queue s) \<and> has_fs (p_queue s ! j) then
        Some (s\<lparr>p_queue := p_queue s @ [file_message (path (p_queue s ! j)) (Inr (take n (marshal_message (p_queue s ! j))))]\<rparr>)
      else None)"
| "pipe_step k s (Request_report e) = Some (s\<lparr>p_queue := p_queue s @ [lost_connection e]\<rparr>)"
| "pipe_step k s (Limiter now inp) =
     (case inp of
        Receive _ \<Rightarrow> None
      | _ \<Rightarrow> map_option (\<lambda>c. s\<lparr>p_lim := c\<rparr>) (lim_step (the_width k) (the_store k) (p_lim s) (now, inp)))"
| "pipe_step k s (Pass now i) =
     (if i < length (p_queue s) then
        map_option (\<lambda>c. s\<lparr>p_lim := c, p_queue := without i (p_queue s)\<rparr>)
          (lim_step (the_width k) (the_store k) (p_lim s) (now, Receive (p_queue s ! i)))
      else None)"
| "pipe_step k s Publish_next =
     (if p_next s < length (sent (p_lim s)) then
        Some ((set_world (publish_one (the_fs k) (the_producer k) (sent (p_lim s) ! p_next s) (pl_world s)) s)
          \<lparr>p_next := Suc (p_next s)\<rparr>)
      else None)"
| "pipe_step k s Finish = Some (set_world (Disconnect (client (the_producer k)) 0 (pl_world s)) s)"

section \<open>What a step of the limiter does to the world and the output\<close>

lemma handleMessage_world:
  "(world (handleMessage W store m c) = world c \<or> (\<exists>x. world (handleMessage W store m c) = snd (Save store x (world c))))
   \<and> (sent (handleMessage W store m c) = sent c \<or> sent (handleMessage W store m c) = sent c @ [m])"
proof -
  have inc: "increment W store n l w = (err, l', w') \<Longrightarrow> \<exists>x. w' = snd (Save store x w)" for n l w err l' w'
    by (auto simp: increment_def Let_def split: prod.splits) (metis snd_conv)
  show ?thesis
    by (cases "increment W store (int (length (Bytes m))) (lim c) (world c)")
      (auto simp: handleMessage_def Let_def dest: inc)
qed

lemma reset_saves: "snd (snd (reset store l w)) = snd (Save store (l\<lparr>Count := 0\<rparr>) w)"
  by (simp add: reset_eq)

lemma lim_step_world:
  assumes "lim_step W store c (now, inp) = Some c'"
  shows "(world c' = world c \<or> (\<exists>x. world c' = snd (Save store x (world c))))
    \<and> (sent c' = sent c \<or> (\<exists>m. inp = Receive m \<and> sent c' = sent c @ [m]))"
  using assms
proof (cases rule: lim_step_cases)
  case start
  then show ?thesis by (simp add: initial_def Let_def)
next
  case close
  then show ?thesis by (simp add: cleanup_def)
next
  case timer
  then show ?thesis by (auto simp: timer_fires_def startThisPeriod_def reset_eq split: option.splits if_splits)
next
  case (config conf)
  then show ?thesis by (auto simp: apply_conf_def reset_eq)
next
  case (pass m)
  with handleMessage_world [of W store m c] show ?thesis by auto
qed simp_all

section \<open>A stored message on its way\<close>

text \<open>
  The file system and the broker are separate: no operation of the one is seen in the other.
\<close>

locale site = mqtt_broker fs content c accepted
  for fs :: "('w, 'h) Fs" and content :: "'w \<Rightarrow> string \<Rightarrow> bytes option" and c :: "'w Client"
    and accepted :: "'w \<Rightarrow> (string \<times> bytes) list" +
  assumes MkdirAll_accepted: "accepted (snd (MkdirAll fs p w)) = accepted w"
    and OpenFile_accepted: "accepted (snd (OpenFile fs p fl w)) = accepted w"
    and Write_accepted: "accepted (snd (Write fs f b w)) = accepted w"
begin

lemma WriteFile_accepted: "accepted (snd (WriteFile fs p b w)) = accepted w"
  using OpenFile_accepted [of p "[O_WRONLY, O_CREATE, O_TRUNC]" w] Write_accepted
  by (auto simp: WriteFile_def split: prod.split sum.split)

lemma save_accepted: "accepted (snd (save fs m w)) = accepted w"
  using MkdirAll_accepted [of "Dir (path m)" w] WriteFile_accepted
  by (auto simp: save_def Let_def split: prod.split option.split)

lemma CreateMessage_accepted:
  assumes "CreateMessage fs pid p m w = (err, p', m', w')"
  shows "accepted w' = accepted w"
  using assms
proof (cases rule: CreateMessage_cases)
  case (saved e used)
  with save_accepted [of m' w] show ?thesis by simp
qed simp

end

context site
begin

text \<open>The persistor of the limiter keeps to its own file.\<close>

lemma limiter_file_harmless:
  assumes "q \<noteq> p"
  shows "harmless content accepted q (\<lambda>w. snd (Save (limiter_file fs p W local) x w))"
proof -
  have "accepted (snd (file_Save fs p encode x w)) = accepted w \<and> content (snd (file_Save fs p encode x w)) q = content w q" for encode w
  proof (cases "OpenFile fs p [O_RDWR, O_CREATE, O_TRUNC] w")
    case (Pair r u)
    from Pair OpenFile_accepted [of p "[O_RDWR, O_CREATE, O_TRUNC]" w] have u: "accepted u = accepted w" by simp
    show ?thesis
    proof (cases r)
      case (Inl err)
      with Pair u show ?thesis using OpenFile_fails [of p _ w err u] by (auto simp: file_Save_def)
    next
      case (Inr f)
      with Pair have f: "Name fs f = p" "content u q = content w q"
        using OpenFile_creates [of p "[O_RDWR, O_CREATE, O_TRUNC]" w f u] assms by auto
      have "content (snd (Write fs f b u)) q = content u q" for b
        using Write_overwrites [of f b u] Write_fails [of f b u] f(1) assms by (cases "Write fs f b u"; cases "fst (Write fs f b u)") auto
      with Pair Inr u f Write_accepted [of f _ u] show ?thesis
        by (auto simp: file_Save_def split: sum.splits)
    qed
  qed
  then show ?thesis by (simp add: harmless_def limiter_file_def FilePersistor_def)
qed

end

interpretation log_site: site "on_fst disk_fs" "\<lambda>w. disk_content (fst w)" "logging_client plan" snd
  by unfold_locales (auto simp: on_fst_def split: prod.splits)

text \<open>
  \<open>waiting\<close>: what is sent but not yet dealt with by the producer. \<open>on_its_way\<close> is the invariant of a
  stored message \<open>m0\<close> with the path \<open>q\<close>: the broker has it, or it is in its file and everything
  that waits under this path has its topic and its bytes.
\<close>

definition waiting :: "'w pipe \<Rightarrow> Message list" where
  "waiting s = drop (p_next s) (sent (p_lim s)) @ p_queue s"

definition past_names :: "('w, 'h) parts \<Rightarrow> string \<Rightarrow> 'w pipe \<Rightarrow> bool" where
  "past_names k q s \<longleftrightarrow> (\<forall>n \<ge> msg_count (p_pers s). q \<noteq> message_path (msg_dir (p_pers s)) (the_pid k) n)"

definition on_its_way ::
  "('w, 'h) parts \<Rightarrow> ('w \<Rightarrow> string \<Rightarrow> bytes option) \<Rightarrow> ('w \<Rightarrow> (string \<times> bytes) list) \<Rightarrow> string \<Rightarrow> Message \<Rightarrow>
   'w pipe \<Rightarrow> bool"
where
  "on_its_way k content accepted q m0 s \<longleftrightarrow> past_names k q s \<and>
     ((topic_of (the_producer k) m0, Bytes m0) \<in> set (accepted (pl_world s)) \<or>
      content (pl_world s) q = Some (marshal_message m0) \<and>
      (\<forall>m \<in> set (waiting s). path m = q \<longrightarrow> has_fs m \<longrightarrow> Topic m = Topic m0 \<and> Bytes m = Bytes m0))"

lemmas pipe_defs = pl_world_def set_world_def waiting_def past_names_def

lemma set_without: "set (without i ms) \<subseteq> set ms"
  by (auto simp: without_def dest: in_set_takeD in_set_dropD)

lemma set_drop_single: "x \<in> set (drop n [y]) \<Longrightarrow> x = y"
  by (cases n) simp_all

context site
begin

lemma convert_one_effect:
  assumes "convert_one W msgpack fs pid cfg (Some p, w) x = (out, Some p', w')"
  shows "accepted w' = accepted w \<and> msg_dir p' = msg_dir p \<and> msg_count p \<le> msg_count p'
    \<and> (\<forall>q. q \<noteq> message_path (msg_dir p) pid (msg_count p) \<longrightarrow> content w' q = content w q)
    \<and> (\<forall>b \<in> set out. has_fs b \<longrightarrow> path b = message_path (msg_dir p) pid (msg_count p)
        \<and> content w' (path b) = Some (marshal_message b) \<and> msg_count p' = msg_count p + 1)"
proof -
  obtain m a l where x: "x = (m, a, l)" by (cases x)
  show ?thesis
  proof (cases "Type m \<in> {''applog'', ''log''}")
    case True
    with assms x show ?thesis by (auto simp: convert_one_def)
  next
    case False
    let ?b = "convert W msgpack cfg a m"
    obtain err p1 b1 w1 where c: "CreateMessage fs pid (p\<lparr>limit := l\<rparr>) ?b w = (err, p1, b1, w1)"
      by (cases "CreateMessage fs pid (p\<lparr>limit := l\<rparr>) ?b w") auto
    from c have p1: "msg_dir p1 = msg_dir p" "msg_count p \<le> msg_count p1"
      by (cases rule: CreateMessage_cases; simp)+
    note frame = CreateMessage_accepted [OF c] Create_frame [OF c]
    show ?thesis
    proof (cases err)
      case None
      with c have "content w1 = (content w)(path b1 \<mapsto> marshal_message ?b)"
        "b1 = ?b\<lparr>path := message_path (msg_dir p) pid (msg_count p), has_fs := True\<rparr>" "msg_count p1 = msg_count p + 1"
        using Create_saved [of pid "p\<lparr>limit := l\<rparr>" ?b w p1 b1 w1] by auto
      with None assms x False c p1 frame show ?thesis by (auto simp: convert_one_def Let_def)
    next
      case (Some e)
      with assms x False c p1 frame show ?thesis
        by (auto simp: convert_one_def Let_def report_def empty_message_def)
    qed
  qed
qed

lemma lim_step_frame:
  assumes "\<forall>x. harmless content accepted q (\<lambda>w. snd (Save store x w))" and "lim_step W store l (now, inp) = Some l'"
  shows "accepted (world l') = accepted (world l)" and "content (world l') q = content (world l) q"
    and "sent l' = sent l \<or> (\<exists>m. inp = Receive m \<and> sent l' = sent l @ [m])"
  using lim_step_world [OF assms(2)] assms(1) by (auto simp: harmless_def)

text \<open>One step of the pipeline, seen from the file \<open>q\<close>.\<close>

lemma pipe_step_frame:
  assumes "the_fs k = fs" "client (the_producer k) = c"
    and store: "\<forall>x. harmless content accepted q (\<lambda>w. snd (Save (the_store k) x w))"
    and s: "past_names k q s" and step: "pipe_step k s e = Some t" and whole: "\<forall>j n. e = Load_part j n \<longrightarrow> path (p_queue s ! j) \<noteq> q"
  shows "past_names k q t"
    and "set (accepted (pl_world s)) \<subseteq> set (accepted (pl_world t))"
    and "content (pl_world t) q = content (pl_world s) q \<or>
      (\<exists>m \<in> set (waiting s). path m = q \<and> has_fs m
        \<and> (topic_of (the_producer k) m, Bytes m) \<in> set (accepted (pl_world t)))"
    and "\<forall>m \<in> set (waiting t). m \<in> set (waiting s) \<or> (path m = q \<longrightarrow> has_fs m \<longrightarrow>
      e = Load_file q \<and> m = loadMessage fs q (pl_world s))"
proof -
  have "past_names k q t \<and> set (accepted (pl_world s)) \<subseteq> set (accepted (pl_world t)) \<and>
     (content (pl_world t) q = content (pl_world s) q \<or>
      (\<exists>m \<in> set (waiting s). path m = q \<and> has_fs m
        \<and> (topic_of (the_producer k) m, Bytes m) \<in> set (accepted (pl_world t)))) \<and>
     (\<forall>m \<in> set (waiting t). m \<in> set (waiting s) \<or> (path m = q \<longrightarrow> has_fs m \<longrightarrow>
      e = Load_file q \<and> m = loadMessage fs q (pl_world s)))"
  proof (cases e)
    case (Convert m a l)
    from step Convert obtain out p' w' where
      conv: "convert_one (the_width k) (the_msgpack k) fs (the_pid k) (the_config k) (Some (p_pers s), world (p_lim s)) (m, a, l)
        = (out, Some p', w')" and t: "t = (set_world w' s)\<lparr>p_pers := p', p_queue := p_queue s @ out\<rparr>"
      by (auto simp: assms(1) pl_world_def split: prod.splits option.splits)
    from s have "q \<noteq> message_path (msg_dir (p_pers s)) (the_pid k) (msg_count (p_pers s))" by (simp add: past_names_def)
    with convert_one_effect [OF conv] s show ?thesis by (auto simp: t pipe_defs)
  next
    case (Load_file q')
    with step s show ?thesis by (auto simp: pipe_defs assms(1))
  next
    case (Load_part j n)
    with step s whole show ?thesis by (auto simp: pipe_defs split: if_splits)
  next
    case (Request_report r)
    with step s show ?thesis by (auto simp: pipe_defs lost_connection_def empty_message_def)
  next
    case (Limiter now inp)
    with step obtain l' where l': "lim_step (the_width k) (the_store k) (p_lim s) (now, inp) = Some l'"
      "t = s\<lparr>p_lim := l'\<rparr>" "\<nexists>m. inp = Receive m"
      by (cases inp) (auto simp del: lim_step.simps)
    with lim_step_frame [OF store l'(1)] s show ?thesis by (auto simp: pipe_defs)
  next
    case (Pass now i)
    with step obtain l' where m: "i < length (p_queue s)" "t = s\<lparr>p_lim := l', p_queue := without i (p_queue s)\<rparr>"
      and l': "lim_step (the_width k) (the_store k) (p_lim s) (now, Receive (p_queue s ! i)) = Some l'"
      by (auto split: if_splits)
    have "set (waiting t) \<subseteq> set (waiting s)"
      using lim_step_frame(3) [OF store l'] set_without [of i "p_queue s"] nth_mem [OF m(1)]
      by (auto simp: m(2) pipe_defs dest: set_drop_single)
    with lim_step_frame [OF store l'] s show ?thesis by (auto simp: m(2) pl_world_def past_names_def)
  next
    case Publish_next
    let ?m = "sent (p_lim s) ! p_next s"
    let ?w = "publish_one fs (the_producer k) ?m (pl_world s)"
    from step Publish_next have n: "p_next s < length (sent (p_lim s))"
      and t: "t = (set_world ?w s)\<lparr>p_next := Suc (p_next s)\<rparr>" by (auto simp: assms(1) split: if_splits)
    from n have w: "waiting s = ?m # waiting t" by (simp add: t pipe_defs Cons_nth_drop_Suc)
    from publish_one_effect [OF assms(2), of ?m "pl_world s" q] s show ?thesis
      unfolding w by (auto simp: t pl_world_def set_world_def past_names_def)
  next
    case Finish
    with step s show ?thesis using Disconnect_frame [of 0 "pl_world s"] by (auto simp: pipe_defs assms(2))
  qed
  then show "past_names k q t" "set (accepted (pl_world s)) \<subseteq> set (accepted (pl_world t))"
    "content (pl_world t) q = content (pl_world s) q \<or>
      (\<exists>m \<in> set (waiting s). path m = q \<and> has_fs m
        \<and> (topic_of (the_producer k) m, Bytes m) \<in> set (accepted (pl_world t)))"
    "\<forall>m \<in> set (waiting t). m \<in> set (waiting s) \<or> (path m = q \<longrightarrow> has_fs m \<longrightarrow>
      e = Load_file q \<and> m = loadMessage fs q (pl_world s))"
    by blast+
qed

end

text \<open>Whenever a run loads the file \<open>q\<close> while it is there, the file can be read, and is read whole.\<close>

definition readable ::
  "('w, 'h) parts \<Rightarrow> ('w \<Rightarrow> string \<Rightarrow> bytes option) \<Rightarrow> string \<Rightarrow> 'w pipe \<Rightarrow> pipe_event \<Rightarrow> bool"
where
  "readable k content q s e \<longleftrightarrow>
     (case e of
        Load_file p \<Rightarrow> p = q \<longrightarrow> content (pl_world s) q \<noteq> None \<longrightarrow> \<not> isl (readFile (the_fs k) q (pl_world s))
      | Load_part j _ \<Rightarrow> path (p_queue s ! j) \<noteq> q
      | _ \<Rightarrow> True)"

definition reads_ok ::
  "('w, 'h) parts \<Rightarrow> ('w \<Rightarrow> string \<Rightarrow> bytes option) \<Rightarrow> string \<Rightarrow> 'w pipe \<Rightarrow> pipe_event list \<Rightarrow> bool"
where
  "reads_ok k content q = along (pipe_step k) (readable k content q)"

context site
begin

lemma on_its_way_step:
  assumes "the_fs k = fs" "client (the_producer k) = c"
    and store: "\<forall>x. harmless content accepted q (\<lambda>w. snd (Save (the_store k) x w))"
    and inv: "on_its_way k content accepted q m0 s" and step: "pipe_step k s e = Some t"
    and readable: "e = Load_file q \<longrightarrow> content (pl_world s) q \<noteq> None \<longrightarrow> \<not> isl (readFile fs q (pl_world s))"
    and whole: "\<forall>j n. e = Load_part j n \<longrightarrow> path (p_queue s ! j) \<noteq> q"
  shows "on_its_way k content accepted q m0 t"
proof -
  from inv have names: "past_names k q s" by (simp add: on_its_way_def)
  note frame = pipe_step_frame [OF assms(1,2) store names step whole]
  show ?thesis
  proof (cases "(topic_of (the_producer k) m0, Bytes m0) \<in> set (accepted (pl_world t))")
    case True
    with frame(1) show ?thesis by (simp add: on_its_way_def)
  next
    case False
    with frame(2) inv have stored: "content (pl_world s) q = Some (marshal_message m0)"
      and same: "\<And>m. m \<in> set (waiting s) \<Longrightarrow> path m = q \<Longrightarrow> has_fs m \<Longrightarrow> Topic m = Topic m0 \<and> Bytes m = Bytes m0"
      by (auto simp: on_its_way_def)
    have "content (pl_world t) q = content (pl_world s) q"
    proof (rule ccontr)
      assume "content (pl_world t) q \<noteq> content (pl_world s) q"
      with frame(3) obtain m where m: "m \<in> set (waiting s)" "path m = q" "has_fs m"
        "(topic_of (the_producer k) m, Bytes m) \<in> set (accepted (pl_world t))" by blast
      with same [OF m(1-3)] False show False by (simp add: topic_of_def)
    qed
    moreover have "Topic m = Topic m0 \<and> Bytes m = Bytes m0" if m: "m \<in> set (waiting t)" "path m = q" "has_fs m" for m
    proof (cases "m \<in> set (waiting s)")
      case True
      then show ?thesis using same m by blast
    next
      case False
      with frame(4) m have l: "e = Load_file q" "m = loadMessage fs q (pl_world s)" by blast+
      with readable stored obtain b where "readFile fs q (pl_world s) = Inr b"
        by (cases "readFile fs q (pl_world s)") auto
      with load_saved [OF stored] l show ?thesis by simp
    qed
    ultimately show ?thesis using frame(1) stored by (simp add: on_its_way_def)
  qed
qed

lemma on_its_way_run:
  assumes "the_fs k = fs" "client (the_producer k) = c"
    and "\<forall>x. harmless content accepted q (\<lambda>w. snd (Save (the_store k) x w))"
    and "on_its_way k content accepted q m0 s" and "run (pipe_step k) s es = Some t" and "reads_ok k content q s es"
  shows "on_its_way k content accepted q m0 t"
proof (rule run_keeps [where J = "on_its_way k content accepted q m0", OF _ assms(4,5) assms(6) [unfolded reads_ok_def]])
  fix s e t
  assume s: "on_its_way k content accepted q m0 s" and r: "readable k content q s e" and step: "pipe_step k s e = Some t"
  from r have "e = Load_file q \<longrightarrow> content (pl_world s) q \<noteq> None \<longrightarrow> \<not> isl (readFile fs q (pl_world s))"
    and "\<forall>j n. e = Load_part j n \<longrightarrow> path (p_queue s ! j) \<noteq> q" using assms(1) by (auto simp: readable_def)
  with s step show "on_its_way k content accepted q m0 t" by (rule on_its_way_step [OF assms(1-3)])
qed

lemma converted_on_its_way:
  assumes "the_fs k = fs" and "pipe_step k s (Convert m a l) = Some t" and "p_queue t = p_queue s @ [b]" and "has_fs b"
    and "\<forall>m \<in> set (waiting s). path m \<noteq> path b"
  shows "on_its_way k content accepted (path b) b t"
proof -
  from assms(1,2) obtain out p' w' where
    conv: "convert_one (the_width k) (the_msgpack k) fs (the_pid k) (the_config k) (Some (p_pers s), world (p_lim s)) (m, a, l)
      = (out, Some p', w')" and t: "t = (set_world w' s)\<lparr>p_pers := p', p_queue := p_queue s @ out\<rparr>"
    by (auto simp: pl_world_def split: prod.splits option.splits)
  from assms(3) t have out: "out = [b]" by (simp add: set_world_def)
  from convert_one_effect [OF conv] assms(4) have
    b: "path b = message_path (msg_dir (p_pers s)) (the_pid k) (msg_count (p_pers s))"
      "content w' (path b) = Some (marshal_message b)" "msg_count p' = msg_count (p_pers s) + 1" "msg_dir p' = msg_dir (p_pers s)"
    by (auto simp: out)
  then have "past_names k (path b) t" by (auto simp: past_names_def t message_path_inj)
  moreover have "\<forall>m \<in> set (waiting t). path m = path b \<longrightarrow> m = b"
    using assms(5) by (auto simp: t pipe_defs out)
  ultimately show ?thesis using b(2) by (auto simp: on_its_way_def t pl_world_def set_world_def)
qed

end

section \<open>Properties\<close>

text \<open>No stored message is lost in the client: from the moment the converter has stored a message, in whatever order
the converter, the loader, the requester, the limiter and the producer go on, with whatever errors, the
message is in its file on the disk until the broker has accepted its topic and its bytes. It is assumed
that no message of an earlier run waits under the same path, and that loading the file does not fail, nor read it half written.\<close>

theorem stored_until_published:
  assumes "site (the_fs k) content (client (the_producer k)) accepted"
    and "\<forall>x. harmless content accepted q (\<lambda>w. snd (Save (the_store k) x w))"
    and "pipe_step k s (Convert m a l) = Some s1" and "p_queue s1 = p_queue s @ [b]" and "has_fs b" and "path b = q"
    and "\<forall>m \<in> set (waiting s). path m \<noteq> q"
    and "run (pipe_step k) s1 es = Some t" and "reads_ok k content q s1 es"
  shows "(topic_of (the_producer k) b, Bytes b) \<in> set (accepted (pl_world t))
    \<or> content (pl_world t) q = Some (marshal_message b)"
proof -
  from site.converted_on_its_way [OF assms(1) refl assms(3-5)] assms(6,7)
  have "on_its_way k content accepted q b s1" by simp
  from site.on_its_way_run [OF assms(1) refl refl assms(2) this assms(8,9)] show ?thesis
    by (auto simp: on_its_way_def)
qed

definition sample_parts :: "(disk \<times> (string \<times> bytes) list, string) parts" where
  "sample_parts =
     \<lparr>the_fs = on_fst disk_fs, the_pid = 7, the_width = 64, the_msgpack = (\<lambda>_. (''abc'', None)),
      the_config = sample_config\<lparr>cfg_Encoding := MsgPack\<rparr>,
      the_store = limiter_file (on_fst disk_fs) ''limits'' 64 UTC, the_producer = sample_producer\<rparr>"

definition sample_pipe :: "(disk \<times> (string \<times> bytes) list) pipe" where
  "sample_pipe =
     \<lparr>p_lim = witness_conf (empty_disk, []) 1000 0, p_pers = NewPersistor ''d'', p_queue = [], p_next = 0\<rparr>"

definition sample_point :: agent_Message where
  "sample_point = \<lparr>Type = ''datapoint'', Data = Some (JObj [(''type'', JStr ''t''), (''payload'', JNum ''1'')])\<rparr>"

definition sample_schedule :: "pipe_event list" where
  "sample_schedule = [Load_file ''d/7-0'', Request_report ''lost'', Pass some_time 1, Pass some_time 0, Publish_next, Publish_next]"

lemma sample_run:
  obtains s1 t b where "pipe_step sample_parts sample_pipe (Convert sample_point (sample_ambient\<lparr>now_nano := 0\<rparr>) None) = Some s1"
    "p_queue s1 = p_queue sample_pipe @ [b]" "has_fs b" "path b = ''d/7-0''"
    "run (pipe_step sample_parts) s1 sample_schedule = Some t"
    "reads_ok sample_parts (\<lambda>w. disk_content (fst w)) ''d/7-0'' s1 sample_schedule"
    "disk_content (fst (pl_world t)) ''d/7-0'' = None" "topic_of sample_producer b = ''c/datapoints/org/dev''"
proof -
  have "case pipe_step sample_parts sample_pipe (Convert sample_point (sample_ambient\<lparr>now_nano := 0\<rparr>) None) of
      None \<Rightarrow> False
    | Some s \<Rightarrow> (case p_queue s of [b] \<Rightarrow> has_fs b \<and> path b = ''d/7-0'' \<and> topic_of sample_producer b = ''c/datapoints/org/dev'' | _ \<Rightarrow> False)
        \<and> (case run (pipe_step sample_parts) s sample_schedule of
             None \<Rightarrow> False
           | Some u \<Rightarrow> Option.is_none (disk_content (fst (pl_world u)) ''d/7-0''))
        \<and> reads_ok sample_parts (\<lambda>w. disk_content (fst w)) ''d/7-0'' s sample_schedule"
    by code_simp
  then obtain s t b where "pipe_step sample_parts sample_pipe (Convert sample_point (sample_ambient\<lparr>now_nano := 0\<rparr>) None) = Some s"
    "p_queue s = [b]" "has_fs b" "path b = ''d/7-0''" "topic_of sample_producer b = ''c/datapoints/org/dev''"
    "run (pipe_step sample_parts) s sample_schedule = Some t" "disk_content (fst (pl_world t)) ''d/7-0'' = None"
    "reads_ok sample_parts (\<lambda>w. disk_content (fst w)) ''d/7-0'' s sample_schedule"
    by (simp only: Option.is_none_def split: option.splits list.splits) blast+
  then show ?thesis
    by (intro that [of s b t]) (simp_all add: sample_pipe_def)
qed

theorem stored_until_published_witness:
  "\<exists>t. \<exists>b::bytes. disk_content (fst (pl_world t)) ''d/7-0'' = None \<and> (''c/datapoints/org/dev'', b) \<in> set (snd (pl_world t))"
proof -
  obtain s1 t b where r: "pipe_step sample_parts sample_pipe (Convert sample_point (sample_ambient\<lparr>now_nano := 0\<rparr>) None) = Some s1"
    "p_queue s1 = p_queue sample_pipe @ [b]" "has_fs b" "path b = ''d/7-0''"
    "run (pipe_step sample_parts) s1 sample_schedule = Some t"
    "reads_ok sample_parts (\<lambda>w. disk_content (fst w)) ''d/7-0'' s1 sample_schedule"
    and gone: "disk_content (fst (pl_world t)) ''d/7-0'' = None" and topic: "topic_of sample_producer b = ''c/datapoints/org/dev''"
    by (rule sample_run)
  have site: "site (the_fs sample_parts) (\<lambda>w. disk_content (fst w)) (client (the_producer sample_parts)) snd"
    using log_site.site_axioms [of "\<lambda>_. None"] by (simp add: sample_parts_def client_sample_producer)
  have "\<forall>x. harmless (\<lambda>w. disk_content (fst w)) snd ''d/7-0'' (\<lambda>w. snd (Save (the_store sample_parts) x w))"
    using log_site.limiter_file_harmless by (simp add: sample_parts_def)
  from stored_until_published [OF site this r(1-4) _ r(5,6)] gone topic
  have "(''c/datapoints/org/dev'', Bytes b) \<in> set (snd (pl_world t))"
    by (simp add: sample_pipe_def waiting_def witness_conf_def sample_parts_def)
  with gone show ?thesis by blast
qed

lemma CreateMessage_refused:
  "limit p = Some n \<Longrightarrow> storage_size fs (msg_dir p) w = (used, None) \<Longrightarrow> over_limit n (int (length (Bytes m))) used \<Longrightarrow>
   CreateMessage fs pid p m w = (Some (ErrStorageFull n used), p, m, w)"
  by (simp add: CreateMessage_def limit_error_def)

text \<open>C37: The report of a message that could not be stored tells nobody why: the text of the error is in a field that is not
published. Whatever the error was, the producer sends the same empty payload, and the message itself is gone.\<close>

theorem rejected_message_reported_empty:
  assumes "\<not> dropped m" and "CreateMessage fs pid (p\<lparr>limit := l\<rparr>) (convert W msgpack cfg a m) w = (Some err, p1, b1, w1)"
  shows "convert_one W msgpack fs pid cfg (Some p, w) (m, a, l) = ([report err], Some p1, w1)
    \<and> Error (report err) = error_text err
    \<and> publish_one fs mp (report err) u = snd (Publish (client mp) (''c/logs/'' @ org mp @ ''/'' @ dev_id mp) 1 False [] u)"
  using assms
  by (auto simp: convert_one_def dropped_def publish_one_def topic_of_def report_def empty_message_def Log_def
      Remove_message_def split: prod.split option.split)

definition empty_site :: "disk \<times> (string \<times> bytes) list" where
  "empty_site = (empty_disk, [])"

theorem rejected_message_reported_empty_witness:
  "publish_one (on_fst disk_fs) sample_producer
     (hd (fst (convert_one 64 (\<lambda>_. (''abc'', None)) (on_fst disk_fs) 7 (sample_config\<lparr>cfg_Encoding := MsgPack\<rparr>)
        (Some (NewPersistor ''d''), empty_site) (sample_point, sample_ambient, Some 3)))) empty_site
   = (empty_disk, [(''c/logs/org/dev'', [])])"
proof -
  let ?cfg = "sample_config\<lparr>cfg_Encoding := MsgPack\<rparr>"
  let ?b = "convert 64 (\<lambda>_. (''abc'', None)) ?cfg sample_ambient sample_point"
  have "length (Bytes ?b) = 3"
    by (simp add: convert_def sample_point_def marshal_def sample_config_def empty_message_def)
  then have "over_limit 3 (int (length (Bytes ?b))) 0" using over_limit_iff [of 3 3 0] by (simp add: fits_def)
  moreover have "storage_size (on_fst disk_fs) ''d'' empty_site = (0, None)" by code_simp
  ultimately have c: "CreateMessage (on_fst disk_fs) 7 ((NewPersistor ''d'')\<lparr>limit := Some 3\<rparr>) ?b empty_site
    = (Some (ErrStorageFull 3 0), (NewPersistor ''d'')\<lparr>limit := Some 3\<rparr>, ?b, empty_site)"
    by (intro CreateMessage_refused) (simp_all add: NewPersistor_def)
  have d: "\<not> dropped sample_point" by (simp add: dropped_def sample_point_def)
  have "snd (Publish (client sample_producer) (''c/logs/'' @ org sample_producer @ ''/'' @ dev_id sample_producer) 1 False []
      empty_site) = (empty_disk, [(''c/logs/org/dev'', [])])"
    by (simp add: sample_producer_def logging_client_def empty_site_def)
  then show ?thesis
    using rejected_message_reported_empty [OF d c, where mp = sample_producer and u = "empty_site"]
    by (simp only: fst_conv list.sel)
qed

end
