(* ===== verification/Budget.thy ===== *)
theory Budget
  imports Limiter
begin

text \<open>
  The limiter (\<open>message/limiter.go\<close>) beyond one period: the invariant of its count under all inputs,
  timers and configurations included, and a reference function for what it sends of a stream of messages.
\<close>

section \<open>The count under all inputs\<close>

text \<open>
  \<open>B\<close> bounds the budgets in bytes and \<open>M\<close> the sizes of messages; an \<open>int\<close> of \<open>W\<close> bits holds what
  is computed from them.
\<close>

definition wide_enough :: "nat \<Rightarrow> int \<Rightarrow> int \<Rightarrow> bool" where
  "wide_enough W B M \<longleftrightarrow> 0 < W \<and> fits W (9 * B) \<and> fits W (B + M)"

definition input_ok :: "int \<Rightarrow> int \<Rightarrow> gotime \<times> lim_input \<Rightarrow> bool" where
  "input_ok B M e \<longleftrightarrow>
     (case snd e of
        Receive m \<Rightarrow> msg_len m \<le> M
      | Configure conf \<Rightarrow> Defined conf \<longrightarrow> 0 \<le> Limit conf \<and> 1000000 * Limit conf \<le> B
      | _ \<Rightarrow> True)"

definition within_budget :: "int \<Rightarrow> DataLimiter \<Rightarrow> bool" where
  "within_budget B l \<longleftrightarrow> (HasBudget l \<longrightarrow> 0 \<le> Count l \<and> Count l \<le> Budget l \<and> Budget l \<le> B)"

lemma fits_between: "fits W y \<Longrightarrow> 0 \<le> x \<Longrightarrow> x \<le> y \<Longrightarrow> fits W x"
  using zero_less_power [of "2::int" "W - 1"] unfolding fits_def by linarith

lemma wide_no_overflow:
  assumes "wide_enough W B M" "within_budget B l" "HasBudget l" "msg_len m \<le> M"
  shows "no_overflow W l m"
  using assms msg_len_nonneg [of m] fits_between [of W "9 * B" "9 * Budget l"]
    fits_between [of W "B + M" "Budget l + msg_len m"]
  by (simp add: wide_enough_def no_overflow_def within_budget_def)

lemma within_budget_step:
  assumes wide: "wide_enough W B M" and inv: "within_budget B (lim c)" and ok: "input_ok B M e"
    and step: "lim_step W store c e = Some c'"
  shows "within_budget B (lim c')"
proof -
  obtain now inp where e: "e = (now, inp)" by (cases e)
  from step have "lim_step W store c (now, inp) = Some c'" by (simp add: e)
  then show ?thesis
  proof (cases rule: lim_step_cases)
    case (config conf)
    have "fits W (1000000 * Limit conf)" if "Defined conf"
      using wide ok that fits_between [of W "9 * B" "1000000 * Limit conf"]
      by (simp add: e config(1) input_ok_def wide_enough_def)
    with config ok wide show ?thesis
      by (auto simp: e input_ok_def within_budget_def wide_enough_def dest!: apply_conf_Some)
  next
    case (pass m)
    show ?thesis
    proof (cases rule: handleMessage_cases [of c W m store])
      case drop
      with pass inv show ?thesis by simp
    next
      case (send w' s)
      show ?thesis
      proof (cases "HasBudget (lim c)")
        case True
        with wide inv ok have "no_overflow W (lim c) m"
          by (intro wide_no_overflow [OF wide]) (auto simp: e pass(1) input_ok_def)
        with total_exact [OF this] True inv send pass(3) msg_len_nonneg [of m] show ?thesis
          by (simp add: within_budget_def)
      qed (simp add: within_budget_def pass(3) send(2))
    qed
  qed (use inv in \<open>auto simp: initial_def cleanup_def Let_def within_budget_def dest!: timer_fires_Some\<close>)
qed

text \<open>A run whose inputs are all acceptable is a run of the guarded step.\<close>

definition guarded_step ::
  "nat \<Rightarrow> (DataLimiter, 'w) Store \<Rightarrow> int \<Rightarrow> int \<Rightarrow> 'w lconf \<Rightarrow> gotime \<times> lim_input \<Rightarrow> 'w lconf option"
where
  "guarded_step W store B M c e = (if input_ok B M e then lim_step W store c e else None)"

lemma guarded_run: "\<forall>e \<in> set es. input_ok B M e \<Longrightarrow> run (guarded_step W store B M) c es = lim_run W store c es"
  by (induction es arbitrary: c) (simp_all add: guarded_step_def split: option.split)

interpretation counting: step_invariant "guarded_step W store B M" "\<lambda>c. wide_enough W B M \<and> within_budget B (lim c)"
  for W and store :: "(DataLimiter, 'w) Store" and B M
  by unfold_locales (auto simp: guarded_step_def simp del: lim_step.simps split: if_splits intro: within_budget_step)

section \<open>A reference for what is sent\<close>

text \<open>
  The reference knows nothing of states: it adds up sizes, drops everything from the first message on that
  would pass the budget, and stops after the first one that passes nine tenths of it.
\<close>

fun meter :: "int \<Rightarrow> int \<Rightarrow> Message list \<Rightarrow> Message list" where
  "meter B n [] = []"
| "meter B n (m # ms) =
     (if n + msg_len m > B then []
      else m # (if 10 * (n + msg_len m) > 9 * B then [] else meter B (n + msg_len m) ms))"

lemma bytes_of_meter: "n \<le> B \<Longrightarrow> n + bytes_of (meter B n ms) \<le> B"
  by (induction B n ms rule: meter.induct) auto

lemma meter_run:
  assumes "\<And>l w. \<not> save_fails store l w" and "st c = UnderBudget"
    and "HasBudget (lim c)" "0 \<le> Count (lim c)" "Count (lim c) \<le> Budget (lim c)"
    and "\<forall>m \<in> snd ` set tms. no_overflow W (lim c) m"
  shows "\<exists>c'. lim_run W store c (map (\<lambda>(t, m). (t, Receive m)) tms) = Some c'
    \<and> sent c' = sent c @ meter (Budget (lim c)) (Count (lim c)) (map snd tms)"
  using assms(2-6)
proof (induction tms arbitrary: c)
  case Nil
  then show ?case by simp
next
  case (Cons tm tms)
  obtain t m where tm: "tm = (t, m)" by (cases tm)
  let ?n = "Count (lim c) + msg_len m" and ?c = "handleMessage W store m c"
  from Cons.prems have "no_overflow W (lim c) m" by (simp add: tm)
  note exact = handleMessage_exact [OF Cons.prems(2) this Cons.prems(3,4), of store, unfolded Let_def]
  have step: "lim_run W store c (map (\<lambda>(t, m). (t, Receive m)) (tm # tms)) = lim_run W store ?c (map (\<lambda>(t, m). (t, Receive m)) tms)"
    using Cons.prems(1) by (simp add: tm underBudget_def)
  consider "?n > Budget (lim c)" | "?n \<le> Budget (lim c)" "10 * ?n > 9 * Budget (lim c)" | "?n \<le> Budget (lim c)" "10 * ?n \<le> 9 * Budget (lim c)"
    by linarith
  then show ?case
  proof cases
    case 1
    with exact have "?c = c\<lparr>st := OverBudget\<rparr>" by simp
    with 1 overBudget_run [of ?c W store tms] step show ?thesis by (simp add: tm)
  next
    case 2
    with exact have "st ?c = OverBudget" "sent ?c = sent c @ [m]" by simp_all
    with 2 overBudget_run [of ?c W store tms] step show ?thesis by (simp add: tm)
  next
    case 3
    with exact assms(1) have c: "st ?c = UnderBudget" "sent ?c = sent c @ [m]" "lim ?c = (lim c)\<lparr>Count := ?n\<rparr>" by simp_all
    with Cons.prems 3 msg_len_nonneg [of m] obtain c' where
      "lim_run W store ?c (map (\<lambda>(t, m). (t, Receive m)) tms) = Some c'"
      "sent c' = sent ?c @ meter (Budget (lim c)) ?n (map snd tms)"
      using Cons.IH [of ?c] by (auto simp: no_overflow_def)
    with 3 c step show ?thesis by (simp add: tm)
  qed
qed

section \<open>Properties\<close>

text \<open>C17: The count never leaves the budget: through any number of messages, periods and configurations, with
whatever budgets of at most \<open>B\<close> bytes and messages of at most \<open>M\<close>, and however saving fails, a limiter with a
budget has a count between 0 and the budget.\<close>

theorem count_within_budget:
  assumes "wide_enough W B M" and "within_budget B (lim c)" and "\<forall>e \<in> set es. input_ok B M e"
    and "lim_run W store c es = Some c'"
  shows "HasBudget (lim c') \<longrightarrow> 0 \<le> Count (lim c') \<and> Count (lim c') \<le> Budget (lim c')"
  using counting.run_inv [of W B M c store es c'] assms guarded_run [OF assms(3), of W store c] by (simp add: within_budget_def)

theorem count_within_budget_witness:
  "\<exists>c'. lim_run 64 cell_store (witness_conf None 100 90) [(some_time, Receive sample), (some_time, InClosed), (some_time, Go)] = Some c'
     \<and> Count (lim c') \<le> 100 \<and> st c' = Terminal"
proof -
  let ?es = "[(some_time, Receive sample), (some_time, InClosed), (some_time, Go)]"
  let ?r = "lim_run 64 cell_store (witness_conf None 100 90) ?es"
  have "?r \<noteq> None \<and> (\<forall>c'. ?r = Some c' \<longrightarrow> st c' = Terminal \<and> HasBudget (lim c') \<and> Budget (lim c') = 100)"
    by (simp add: underBudget_def overBudget_def handleMessage_def increment_def witness_conf_def cell_store_def
        sample_def swrap_def ninetyPercent_def Let_def signed_divide_int_def cleanup_def)
  then obtain c' where c': "?r = Some c'" "st c' = Terminal" "HasBudget (lim c')" "Budget (lim c') = 100" by blast
  have "wide_enough 64 100 3" by (simp add: wide_enough_def fits_def)
  moreover have "within_budget 100 (lim (witness_conf None 100 90))" by (simp add: within_budget_def witness_conf_def)
  moreover have "\<forall>e \<in> set ?es. input_ok 100 3 e" by (simp add: input_ok_def sample_def msg_len_def)
  ultimately show ?thesis using count_within_budget [OF _ _ _ c'(1), of 100 3] c' by auto
qed

text \<open>C13: Of a stream of messages the limiter sends exactly what the reference selects, when its state can be
saved and nothing overflows; the selection stays within the rest of the budget.\<close>

theorem limiter_meets_meter:
  assumes "\<And>l w. \<not> save_fails store l w" and "st c = UnderBudget"
    and "HasBudget (lim c)" "0 \<le> Count (lim c)" "Count (lim c) \<le> Budget (lim c)"
    and "\<forall>m \<in> snd ` set tms. no_overflow W (lim c) m"
  shows "\<exists>c'. lim_run W store c (map (\<lambda>(t, m). (t, Receive m)) tms) = Some c'
    \<and> sent c' = sent c @ meter (Budget (lim c)) (Count (lim c)) (map snd tms)
    \<and> bytes_of (meter (Budget (lim c)) (Count (lim c)) (map snd tms)) \<le> Budget (lim c) - Count (lim c)"
  using meter_run [OF assms] bytes_of_meter [OF assms(5), of "map snd tms"] by auto

theorem limiter_meets_meter_witness:
  "\<exists>c'. lim_run 64 cell_store (witness_conf None 100 84) [(some_time, Receive sample), (some_time, Receive sample), (some_time, Receive sample)] = Some c'
     \<and> sent c' = [sample, sample, sample]"
proof -
  let ?tms = "[(some_time, sample), (some_time, sample), (some_time, sample)]"
  have "meter 100 84 [sample, sample, sample] = [sample, sample, sample]" by (simp add: msg_len_def sample_def)
  then show ?thesis
    using limiter_meets_meter [of cell_store "witness_conf None 100 84" ?tms 64]
    by (simp add: witness_conf_def save_fails_def cell_store_def no_overflow_def fits_def msg_len_def sample_def del: lim_step.simps)
qed

end
