(* ===== verification/Traffic.thy ===== *)
theory Traffic
  imports Pipeline Budget
begin

text \<open>
  The traffic of the whole pipeline (\<open>cmd/client/main.go\<close>, lines 322 to 347) within one period of the limiter: the
  bytes that the broker accepts are bounded by the bytes that the limiter counts.
\<close>

section \<open>The limiter within a period\<close>

lemma lim_step_counts:
  assumes wide: "wide_enough W B M" and inv: "within_budget B (lim c)" "HasBudget (lim c)"
    and step: "lim_step W store c (now, inp) = Some c'"
    and inp: "inp \<noteq> TimerFires" "\<nexists>conf. inp = Configure conf" "\<forall>m. inp = Receive m \<longrightarrow> msg_len m \<le> M"
  shows "HasBudget (lim c') \<and> Budget (lim c') = Budget (lim c) \<and> within_budget B (lim c')
    \<and> (sent c' = sent c \<and> Count (lim c') = Count (lim c)
       \<or> (\<exists>m. inp = Receive m \<and> sent c' = sent c @ [m] \<and> Count (lim c') = Count (lim c) + msg_len m))"
proof -
  have "input_ok B M (now, inp)" using inp by (cases inp) (auto simp: input_ok_def)
  note keeps = within_budget_step [OF wide inv(1) this step]
  from step show ?thesis
  proof (cases rule: lim_step_cases)
    case (pass m)
    show ?thesis
    proof (cases rule: handleMessage_cases [of c W m store])
      case drop
      with pass inv keeps show ?thesis by simp
    next
      case (send w' s)
      have "no_overflow W (lim c) m" using inp(3) pass(1) by (intro wide_no_overflow [OF wide inv]) simp
      with total_exact [OF this] inv pass send keeps show ?thesis by (simp add: within_budget_def)
    qed
  qed (use inp inv keeps in \<open>auto simp: initial_def cleanup_def Let_def within_budget_def\<close>)
qed

section \<open>The pipeline within a period\<close>

definition traffic :: "(string \<times> bytes) list \<Rightarrow> int" where
  "traffic ps = int (sum_list (map (length \<circ> snd) ps))"

lemma traffic_snoc [simp]: "traffic (ps @ [(t, Bytes m)]) = traffic ps + msg_len m"
  by (simp add: traffic_def msg_len_def)

text \<open>What the limiter has passed and the producer has not dealt with.\<close>

definition backlog :: "'w pipe \<Rightarrow> int" where
  "backlog s = bytes_of (drop (p_next s) (sent (p_lim s)))"

text \<open>Runs within a period: no timer fires, no configuration arrives, and the messages have at most \<open>M\<close> bytes.\<close>

definition period_event :: "int \<Rightarrow> 'w pipe \<Rightarrow> pipe_event \<Rightarrow> bool" where
  "period_event M s e \<longleftrightarrow>
     (case e of
        Limiter _ inp \<Rightarrow> (case inp of TimerFires \<Rightarrow> False | Configure _ \<Rightarrow> False | _ \<Rightarrow> True)
      | Pass _ i \<Rightarrow> i < length (p_queue s) \<longrightarrow> msg_len (p_queue s ! i) \<le> M
      | _ \<Rightarrow> True)"

definition in_period :: "('w, 'h) parts \<Rightarrow> int \<Rightarrow> 'w pipe \<Rightarrow> pipe_event list \<Rightarrow> bool" where
  "in_period k M = along (pipe_step k) (period_event M)"

definition limited :: "('w, 'h) parts \<Rightarrow> int \<Rightarrow> 'w pipe \<Rightarrow> bool" where
  "limited k B s \<longleftrightarrow> within_budget B (lim (p_lim s)) \<and> HasBudget (lim (p_lim s))"

text \<open>What is left of the budget, and what may still reach the broker, does not grow.\<close>

definition owed :: "('w \<Rightarrow> (string \<times> bytes) list) \<Rightarrow> 'w pipe \<Rightarrow> int" where
  "owed accepted s = traffic (accepted (pl_world s)) + backlog s - Count (lim (p_lim s))"

lemma bytes_of_drop_snoc: "bytes_of (drop n (ms @ [m])) \<le> bytes_of (drop n ms) + msg_len m"
  by (cases "n \<le> length ms") (simp_all add: not_le)

context site
begin

lemma lim_step_owed:
  assumes wide: "wide_enough (the_width k) B M" and s: "limited k B s"
    and store: "\<forall>x w. accepted (snd (Save (the_store k) x w)) = accepted w"
    and step: "lim_step (the_width k) (the_store k) (p_lim s) (now, inp) = Some l"
    and inp: "inp \<noteq> TimerFires" "\<nexists>conf. inp = Configure conf" "\<forall>m. inp = Receive m \<longrightarrow> msg_len m \<le> M"
    and t: "p_lim t = l" "p_next t = p_next s"
  shows "limited k B t \<and> Budget (lim (p_lim t)) = Budget (lim (p_lim s)) \<and> owed accepted t \<le> owed accepted s"
proof -
  have "accepted (world l) = accepted (world (p_lim s))" using lim_step_world [OF step] store by auto
  then show ?thesis
    using lim_step_counts [OF wide _ _ step inp] s bytes_of_drop_snoc [of "p_next s" "sent (p_lim s)"]
    by (auto simp: limited_def owed_def backlog_def pl_world_def t)
qed

lemma pipe_step_owed:
  assumes "the_fs k = fs" "client (the_producer k) = c"
    and wide: "wide_enough (the_width k) B M" and s: "limited k B s"
    and store: "\<forall>x w. accepted (snd (Save (the_store k) x w)) = accepted w"
    and step: "pipe_step k s e = Some t" and e: "period_event M s e"
  shows "limited k B t \<and> Budget (lim (p_lim t)) = Budget (lim (p_lim s)) \<and> owed accepted t \<le> owed accepted s"
proof (cases e)
  case (Convert m a l)
  from step Convert obtain out p' w' where
    conv: "convert_one (the_width k) (the_msgpack k) fs (the_pid k) (the_config k) (Some (p_pers s), world (p_lim s)) (m, a, l)
      = (out, Some p', w')" and t: "t = (set_world w' s)\<lparr>p_pers := p', p_queue := p_queue s @ out\<rparr>"
    by (auto simp: assms(1) pl_world_def split: prod.splits option.splits)
  with convert_one_effect [OF conv] s show ?thesis
    by (simp add: limited_def owed_def backlog_def pl_world_def set_world_def)
next
  case (Limiter now inp)
  with step e obtain l where l: "lim_step (the_width k) (the_store k) (p_lim s) (now, inp) = Some l" "t = s\<lparr>p_lim := l\<rparr>"
    "inp \<noteq> TimerFires" "\<nexists>conf. inp = Configure conf" "\<nexists>m. inp = Receive m"
    by (cases inp) (auto simp: period_event_def simp del: lim_step.simps)
  from lim_step_owed [OF wide s store l(1,3,4), of t] l(2,5) show ?thesis by simp
next
  case (Pass now i)
  with step e obtain l where l: "lim_step (the_width k) (the_store k) (p_lim s) (now, Receive (p_queue s ! i)) = Some l"
    "t = s\<lparr>p_lim := l, p_queue := without i (p_queue s)\<rparr>" "msg_len (p_queue s ! i) \<le> M"
    by (auto simp: period_event_def simp del: lim_step.simps split: if_splits)
  from lim_step_owed [OF wide s store l(1), of t] l(2,3) show ?thesis by simp
next
  case Publish_next
  let ?m = "sent (p_lim s) ! p_next s"
  let ?w = "publish_one fs (the_producer k) ?m (pl_world s)"
  from step Publish_next have n: "p_next s < length (sent (p_lim s))"
    and t: "t = (set_world ?w s)\<lparr>p_next := Suc (p_next s)\<rparr>" by (auto simp: assms(1) split: if_splits)
  have "traffic (accepted ?w) \<le> traffic (accepted (pl_world s)) + msg_len ?m"
    using publish_one_effect [OF assms(2), of ?m "pl_world s" "[]"] by auto
  moreover have "backlog s = msg_len ?m + backlog t"
    using n by (simp add: t backlog_def set_world_def flip: Cons_nth_drop_Suc)
  ultimately show ?thesis
    using s by (simp add: t limited_def owed_def pl_world_def set_world_def)
next
  case Finish
  with step s show ?thesis
    using Disconnect_frame [of 0 "pl_world s"] by (auto simp: limited_def owed_def backlog_def pl_world_def set_world_def assms(2))
qed (use step s in \<open>auto simp: limited_def owed_def backlog_def pl_world_def split: if_splits\<close>)

lemma run_owed:
  assumes "the_fs k = fs" "client (the_producer k) = c" "wide_enough (the_width k) B M"
    and "\<forall>x w. accepted (snd (Save (the_store k) x w)) = accepted w"
    and "limited k B s" and "run (pipe_step k) s es = Some t" and "in_period k M s es"
  shows "limited k B t \<and> Budget (lim (p_lim t)) = Budget (lim (p_lim s)) \<and> owed accepted t \<le> owed accepted s"
proof (rule run_keeps [where J = "\<lambda>t. limited k B t \<and> Budget (lim (p_lim t)) = Budget (lim (p_lim s)) \<and> owed accepted t \<le> owed accepted s",
      OF _ _ assms(6) assms(7) [unfolded in_period_def]])
  fix u e v
  assume "limited k B u \<and> Budget (lim (p_lim u)) = Budget (lim (p_lim s)) \<and> owed accepted u \<le> owed accepted s"
    and "period_event M u e" "pipe_step k u e = Some v"
  with pipe_step_owed [OF assms(1-3) _ assms(4), of u e v]
  show "limited k B v \<and> Budget (lim (p_lim v)) = Budget (lim (p_lim s)) \<and> owed accepted v \<le> owed accepted s" by auto
qed (simp add: assms(5))

end

section \<open>The bound\<close>

text \<open>Within a period of the limiter, under every schedule of the pipeline, the broker accepts at most what is left of
the budget, and the messages that were already past the limiter.\<close>

theorem published_within_budget:
  assumes "site (the_fs k) content (client (the_producer k)) accepted"
    and "\<forall>x w. accepted (snd (Save (the_store k) x w)) = accepted w"
    and "wide_enough (the_width k) B M" and "limited k B s"
    and "run (pipe_step k) s es = Some t" and "in_period k M s es"
  shows "traffic (accepted (pl_world t)) \<le> traffic (accepted (pl_world s)) + backlog s
    + (Budget (lim (p_lim s)) - Count (lim (p_lim s)))"
proof -
  from site.run_owed [OF assms(1) refl refl assms(3,2,4-6)] have
    "limited k B t" "Budget (lim (p_lim t)) = Budget (lim (p_lim s))" "owed accepted t \<le> owed accepted s" by auto
  moreover have "0 \<le> backlog t" by (simp add: backlog_def)
  ultimately show ?thesis by (auto simp: owed_def limited_def within_budget_def)
qed

definition period_schedule :: "pipe_event list" where
  "period_schedule = [Convert sample_point (sample_ambient\<lparr>now_nano := 0\<rparr>) None, Pass some_time 0, Publish_next]"

theorem published_within_budget_witness:
  "\<exists>t. run (pipe_step sample_parts) sample_pipe period_schedule = Some t
     \<and> traffic (snd (pl_world t)) = 3 \<and> traffic (snd (pl_world t)) \<le> 1000"
proof -
  have "case run (pipe_step sample_parts) sample_pipe period_schedule of
      None \<Rightarrow> False | Some t \<Rightarrow> traffic (snd (pl_world t)) = 3 \<and> in_period sample_parts 3 sample_pipe period_schedule"
    by code_simp
  then obtain t where t: "run (pipe_step sample_parts) sample_pipe period_schedule = Some t" "traffic (snd (pl_world t)) = 3"
    "in_period sample_parts 3 sample_pipe period_schedule"
    by (auto split: option.splits)
  have site: "site (the_fs sample_parts) (\<lambda>w. disk_content (fst w)) (client (the_producer sample_parts)) snd"
    using log_site.site_axioms [of "\<lambda>_. None"] by (simp add: sample_parts_def client_sample_producer)
  have store: "\<forall>x w. snd (snd (Save (the_store sample_parts) x w)) = snd w"
    using log_site.limiter_file_harmless [of "''q''" "''limits''" 64 UTC] by (simp add: sample_parts_def harmless_def)
  have "wide_enough (the_width sample_parts) 1000 3" by (simp add: sample_parts_def wide_enough_def fits_def)
  moreover have "limited sample_parts 1000 sample_pipe"
    by (simp add: limited_def within_budget_def sample_pipe_def witness_conf_def)
  ultimately have "traffic (snd (pl_world t)) \<le> traffic (snd (pl_world sample_pipe)) + backlog sample_pipe
      + (Budget (lim (p_lim sample_pipe)) - Count (lim (p_lim sample_pipe)))"
    by (rule published_within_budget [OF site store _ _ t(1,3)])
  with t show ?thesis
    by (simp add: sample_pipe_def witness_conf_def pl_world_def traffic_def backlog_def)
qed

end
