(* ===== verification/Ends.thy ===== *)
theory Ends
  imports Merge
begin

text \<open>
  Mergers as parts of a network: what each event does to the sources, the output and the consumer, when a merger can go
  on by itself, how much it has left to do, and what it has delivered when its output is closed.
\<close>

text \<open>The events of a merger that concern nobody else; its consumer takes part in the others.\<close>

fun internal :: "'m merge_event \<Rightarrow> bool" where
  "internal (Put _) = True"
| "internal (SeeClosed _) = True"
| "internal WaitOver = True"
| "internal _ = False"

section \<open>Mergers whose sources are open or closed\<close>

definition merger_ok :: "nat \<Rightarrow> nat \<Rightarrow> 'm merger \<Rightarrow> bool" where
  "merger_ok n c g \<longleftrightarrow> flow_ok g \<and> count_ok g \<and> length (workers g) = n \<and> cap g = c
     \<and> (\<forall>i < n. phase (workers g ! i) = Finished \<longrightarrow> src_closed (workers g ! i))"

lemma new_merger_merger_ok: "merger_ok n c (new_merger n c)"
  using new_merger_ok [of n c] by (simp add: merger_ok_def) (simp add: new_merger_def)

text \<open>What an event does to the sources, the output and the consumer.\<close>

lemma merge_step_frame:
  assumes "merge_step g e = Some t"
  shows "length (workers t) = length (workers g)" and "cap t = cap g"
    and "i < length (workers g) \<Longrightarrow> got (workers t ! i) = got (workers g ! i) @ arrived i [e]"
    and "i < length (workers g) \<Longrightarrow> src_closed (workers t ! i) \<longleftrightarrow> src_closed (workers g ! i) \<or> e = CloseSource i"
    and "closed t \<longleftrightarrow> closed g \<or> e = WaitOver"
    and "by_source e \<or> internal e \<Longrightarrow> taken t = taken g"
  using assms
  by (cases e; force simp: merge_step_defs Let_def nth_list_update split: if_splits phase.splits list.splits)+

lemma direct_taken:
  assumes "count_ok g" and "merge_step g (Direct i) = Some t"
  shows "\<not> closed g" and "taken t = taken g @ [last (taken t)]"
proof -
  show "\<not> closed g" using assms by (auto simp: count_ok_def running_0 merge_step_defs split: if_splits phase.splits)
  with assms(2) show "taken t = taken g @ [last (taken t)]" by (auto simp: merge_step_defs split: if_splits phase.splits)
qed

lemma taken_grows:
  assumes "count_ok g" and "merge_step g e = Some t" and "e = Take \<or> (\<exists>i. e = Direct i)"
  shows "\<exists>x. taken t = taken g @ [x]"
  using assms(3)
proof (elim disjE exE)
  assume "e = Take"
  with assms(2) show ?thesis by (auto simp: merge_step_defs split: list.splits)
next
  fix i assume "e = Direct i"
  with direct_taken(2) [OF assms(1), of i t] assms(2) show ?thesis by blast
qed

lemma merger_ok_step:
  assumes "merger_ok n c g" and "merge_step g e = Some t"
  shows "merger_ok n c t"
proof -
  from assms have "flow_ok t" "count_ok t" using flow_step count_step by (auto simp: merger_ok_def)
  moreover have "phase (workers t ! i) = Finished \<longrightarrow> src_closed (workers t ! i)" if "i < n" for i
    using assms that
    by (cases e) (auto simp: merger_ok_def merge_step_defs Let_def nth_list_update split: if_splits phase.splits list.splits)
  ultimately show ?thesis using assms merge_step_frame [OF assms(2)] by (simp add: merger_ok_def)
qed

interpretation merger_shape: step_invariant merge_step "merger_ok n c" for n c
  by unfold_locales (rule merger_ok_step)

lemma closed_all_closed: "merger_ok n c g \<Longrightarrow> closed g \<Longrightarrow> i < n \<Longrightarrow> src_closed (workers g ! i)"
  by (auto simp: merger_ok_def count_ok_def running_0)

lemma closed_all_taken:
  assumes "merger_ok n c g" "closed g" "buf g = []" "i < n"
  shows "from_source i (taken g) = got (workers g ! i)"
proof -
  from assms have "phase (workers g ! i) = Finished" by (auto simp: merger_ok_def count_ok_def running_0)
  with assms show ?thesis by (auto simp: merger_ok_def flow_ok_def held_def)
qed

text \<open>Nothing enters a merger that has closed its output.\<close>

lemma closed_buf:
  assumes "merger_ok n c g" and "closed g" and "buf g = []" and "merge_step g e = Some t"
  shows "buf t = []"
proof -
  from assms(1,2) have "\<forall>w \<in> set (workers g). phase w = Finished" by (simp add: merger_ok_def count_ok_def running_0)
  with assms(2-4) show ?thesis
    by (cases e) (auto simp: merge_step_defs Let_def split: if_splits phase.splits list.splits)
qed

lemma merger_progress:
  assumes "merger_ok n c g" and "\<not> closed g" and "buf g = []"
  obtains (inside) e t where "internal e" "merge_step g e = Some t"
  | (over) i t where "merge_step g (Direct i) = Some t"
  | (source) i where "i < n" "phase (workers g ! i) = Waiting" "\<not> src_closed (workers g ! i)"
proof -
  from assms(1) have c: "count_ok g" "length (workers g) = n" by (auto simp: merger_ok_def)
  show ?thesis
  proof (cases "running g = 0")
    case True
    with c assms(2) have "merge_step g WaitOver \<noteq> None" by (simp add: merge_step_defs count_ok_def)
    then show ?thesis using inside [of WaitOver] by auto
  next
    case False
    then obtain i where i: "i < n" "phase (workers g ! i) \<noteq> Finished" using c(2) by (auto simp: running_0 in_set_conv_nth)
    show ?thesis
    proof (cases "phase (workers g ! i)")
      case (Holding m)
      with i c assms have "merge_step g (Direct i) \<noteq> None" by (simp add: merge_step_defs)
      then show ?thesis using over by blast
    next
      case Waiting
      show ?thesis
      proof (cases "src_closed (workers g ! i)")
        case True
        with Waiting i c have "merge_step g (SeeClosed i) \<noteq> None" by (simp add: merge_step_defs Let_def)
        then show ?thesis using inside [of "SeeClosed i"] by auto
      qed (use source i Waiting in blast)
    qed (use i in simp)
  qed
qed

lemma arrive_enabled:
  "i < length (workers g) \<Longrightarrow> phase (workers g ! i) = Waiting \<Longrightarrow> \<not> src_closed (workers g ! i) \<Longrightarrow>
   \<exists>t. merge_step g (Arrive i m) = Some t"
  by (simp add: merge_step_defs Let_def)

lemma close_enabled: "i < length (workers g) \<Longrightarrow> \<not> src_closed (workers g ! i) \<Longrightarrow> \<exists>t. merge_step g (CloseSource i) = Some t"
  by (simp add: merge_step_defs)

lemma merger_len: "merger_ok n c g \<Longrightarrow> length (workers g) = n"
  by (simp add: merger_ok_def)

section \<open>How much is left to do\<close>

definition open_sources :: "'m merger \<Rightarrow> nat" where
  "open_sources g = sum_list (map (\<lambda>w. if src_closed w then 0 else 1) (workers g))"

lemma work_left_exact:
  assumes "count_ok g" and "merge_step g e = Some t"
  shows "work_left t + (case e of Arrive _ _ \<Rightarrow> 0 | CloseSource _ \<Rightarrow> 0 | Direct _ \<Rightarrow> 2 | _ \<Rightarrow> 1)
    = work_left g + (case e of Arrive _ _ \<Rightarrow> 2 | _ \<Rightarrow> 0)"
proof (cases e)
  case (Arrive i m)
  with assms(2) sum_list_update_add [of i "workers g" work "(workers g ! i)\<lparr>phase := Holding m, got := got (workers g ! i) @ [m]\<rparr>"]
  show ?thesis by (auto simp: merge_step_defs Let_def work_left_def work_def split: if_splits)
next
  case (CloseSource i)
  with assms(2) sum_list_update_add [of i "workers g" work "(workers g ! i)\<lparr>src_closed := True\<rparr>"]
  show ?thesis by (auto simp: merge_step_defs work_left_def work_def split: if_splits)
next
  case (Put i)
  with assms sum_list_update_add [of i "workers g" work "(workers g ! i)\<lparr>phase := Waiting\<rparr>"] running_pos [of i g] show ?thesis
    by (auto simp: count_ok_def merge_step_defs work_left_def work_def split: if_splits phase.splits)
next
  case (Direct i)
  with assms sum_list_update_add [of i "workers g" work "(workers g ! i)\<lparr>phase := Waiting\<rparr>"] running_pos [of i g] show ?thesis
    by (auto simp: count_ok_def merge_step_defs work_left_def work_def split: if_splits phase.splits)
next
  case (SeeClosed i)
  with assms sum_list_update_add [of i "workers g" work "(workers g ! i)\<lparr>phase := Finished\<rparr>"] show ?thesis
    by (auto simp: merge_step_defs Let_def work_left_def work_def split: if_splits)
qed (use assms in \<open>auto simp: merge_step_defs work_left_def split: list.splits if_splits\<close>)

lemma open_sources_step:
  assumes "merge_step g e = Some t"
  shows "open_sources t + (case e of CloseSource _ \<Rightarrow> 1 | _ \<Rightarrow> 0) = open_sources g"
proof -
  have same: "sum_list (map (\<lambda>w. if src_closed w then 0 else 1) (xs[i := w])) = (sum_list (map (\<lambda>w. if src_closed w then 0 else 1) xs) :: nat)"
    if "i < length xs" "src_closed w = src_closed (xs ! i)" for xs :: "'a worker list" and i w
    using sum_list_update_add [OF that(1), of "\<lambda>w. if src_closed w then 0 else (1::nat)" w] that(2) by simp
  show ?thesis
  proof (cases e)
    case (CloseSource i)
    with assms sum_list_update_add [of i "workers g" "\<lambda>w. if src_closed w then 0 else (1::nat)" "(workers g ! i)\<lparr>src_closed := True\<rparr>"]
    show ?thesis by (auto simp: merge_step_defs open_sources_def split: if_splits)
  qed (use assms in \<open>auto simp: merge_step_defs Let_def open_sources_def same split: if_splits phase.splits list.splits\<close>)
qed


lemma arrive_work:
  assumes "merge_step g (Arrive i m) = Some t" and "count_ok g"
  shows "work_left t = work_left g + 2" and "open_sources t = open_sources g"
  using work_left_exact [OF assms(2,1)] open_sources_step [OF assms(1)] by simp_all

lemma close_work:
  assumes "merge_step g (CloseSource i) = Some t" and "count_ok g"
  shows "work_left t = work_left g" and "open_sources g = Suc (open_sources t)"
  using work_left_exact [OF assms(2,1)] open_sources_step [OF assms(1)] by simp_all

section \<open>What has been delivered\<close>

lemma filter_by_source:
  "\<forall>x \<in> set xs. fst x < 2 \<Longrightarrow>
   length (filter (\<lambda>x. P (snd x)) xs) = length (filter P (from_source 0 xs)) + length (filter P (from_source 1 xs))"
  by (induction xs) (auto simp: less_2_cases_iff)

lemma taken_tags: "merger_ok n c g \<Longrightarrow> x \<in> set (taken g) \<Longrightarrow> fst x < n"
  by (auto simp: merger_ok_def flow_ok_def)

text \<open>What has come of two sources is an interleaving of what has come of each.\<close>

lemma shuffles_by_source: "\<forall>x \<in> set xs. fst x < 2 \<Longrightarrow> map snd xs \<in> shuffles (from_source 0 xs) (from_source 1 xs)"
proof (induction xs)
  case (Cons x xs)
  then consider "fst x = 0" | "fst x = 1" by (auto simp: less_2_cases_iff)
  then show ?case using Cons by cases (auto simp: from_source_def intro: Cons_in_shuffles_leftI Cons_in_shuffles_rightI)
qed simp

end
