(* ===== verification/Network.thy ===== *)
theory Network
  imports Pipeline Ends
begin

text \<open>
  The network of goroutines and channels that \<open>client.run\<close> builds (\<open>cmd/client/main.go\<close>, lines 319 to 347), with its two
  mergers, in the detail of \<open>Merge\<close>: which goroutine waits for which, what is in the hands of each, and in which
  order the channels close. It refines the pipeline of \<open>Pipeline\<close>, whose pool stands for all that is between the
  sources and the limiter.
\<close>

section \<open>State and steps\<close>

text \<open>
  \<open>n_srv\<close> and \<open>n_dps\<close> are what the two agent servers have still to send, \<open>n_done\<close> tells that \<open>server.Done\<close> is
  closed, \<open>n_conv\<close> and \<open>n_load\<close> are the messages that the converter and the loader are sending (none or one),
  \<open>n_listed\<close> is what the loader has found in the directory, which is the persistor's, once it has looked, \<open>n_paths\<close> the files it has still to read, and \<open>n_rsent\<close> counts the messages of \<open>r_out\<close> that
  the requester has sent. Source 0 of the second merger is the converter, 1 the loader, 2 the requester.
\<close>

record 'w net =
  n_srv :: "agent_Message list"
  n_dps :: "agent_Message list"
  n_done :: bool
  n_agents :: "agent_Message merger"
  n_pers :: Persistor
  n_conv :: "Message list"
  n_listed :: "(string list \<times> string option) option"
  n_paths :: "string list"
  n_load :: "Message list"
  n_req :: requester
  n_rsent :: nat
  n_merger :: "Message merger"
  n_lim :: "'w lconf"
  n_next :: nat
  n_ended :: bool

datatype net_event =
    Server_sends | Server_ends | Server_done | Points_send | Points_end
  | Agents "agent_Message merge_event"
  | Converts nat ambient "int option" | Converter_sends | Converter_ends
  | Loader_lists "string list" "string option" | Loader_reads | Loader_tears nat | Loader_sends | Loader_ends
  | Requests req_event | Requester_sends | Requester_ends
  | Merger "Message merge_event"
  | Limit_takes gotime | Limit_gets nat gotime | Limit_closes gotime | Limit_acts gotime lim_input
  | Publishes | Producer_ends

text \<open>
  At \<open>Converts\<close> the file of the message is there. It is being written as long as the converter has the message in its hands: until it
  sends it on, the loader, if it has found the file, may read a part of it, the first \<open>n\<close> bytes (\<open>Loader_tears n\<close>).
\<close>

text \<open>What is stored at this step is stored under the limit \<open>L\<close>.\<close>

fun stores_under :: "int option \<Rightarrow> net_event \<Rightarrow> bool" where
  "stores_under L (Converts _ _ l) = (l = L)"
| "stores_under L _ = True"

text \<open>The limiter waits in its send until the producer has taken what it sent before.\<close>

definition limiter_free :: "'w net \<Rightarrow> bool" where
  "limiter_free s \<longleftrightarrow> length (sent (n_lim s)) \<le> Suc (n_next s)"

definition limiter_receives ::
  "('w, 'h) parts \<Rightarrow> gotime \<Rightarrow> 'w net \<Rightarrow> Message merger option \<Rightarrow> 'w net option"
where
  "limiter_receives k now s r =
     (case r of
        None \<Rightarrow> None
      | Some g \<Rightarrow>
          if limiter_free s then
            map_option (\<lambda>l. s\<lparr>n_merger := g, n_lim := l\<rparr>)
              (lim_step (the_width k) (the_store k) (n_lim s) (now, Receive (snd (last (taken g)))))
          else None)"

fun net_step :: "('w, 'h) parts \<Rightarrow> 'w net \<Rightarrow> net_event \<Rightarrow> 'w net option" where
  "net_step k s Server_sends =
     (case n_srv s of
        [] \<Rightarrow> None
      | m # ms \<Rightarrow> map_option (\<lambda>g. s\<lparr>n_srv := ms, n_agents := g\<rparr>) (merge_step (n_agents s) (Arrive 0 m)))"
| "net_step k s Server_ends =
     (if n_srv s = [] then map_option (\<lambda>g. s\<lparr>n_agents := g\<rparr>) (merge_step (n_agents s) (CloseSource 0)) else None)"
| "net_step k s Server_done =
     (if src_closed (workers (n_agents s) ! 0) \<and> \<not> n_done s then Some (s\<lparr>n_done := True\<rparr>) else None)"
| "net_step k s Points_send =
     (case n_dps s of
        [] \<Rightarrow> None
      | m # ms \<Rightarrow> map_option (\<lambda>g. s\<lparr>n_dps := ms, n_agents := g\<rparr>) (merge_step (n_agents s) (Arrive 1 m)))"
| "net_step k s Points_end =
     (if n_dps s = [] then map_option (\<lambda>g. s\<lparr>n_agents := g\<rparr>) (merge_step (n_agents s) (CloseSource 1)) else None)"
| "net_step k s (Agents e) =
     (if internal e then map_option (\<lambda>g. s\<lparr>n_agents := g\<rparr>) (merge_step (n_agents s) e) else None)"
| "net_step k s (Converts i a l) =
     (if n_conv s = [] then
        (case merge_step (n_agents s) (Direct i) of
           None \<Rightarrow> None
         | Some g \<Rightarrow>
             (case convert_one (the_width k) (the_msgpack k) (the_fs k) (the_pid k) (the_config k)
                     (Some (n_pers s), world (n_lim s)) (snd (last (taken g)), a, l) of
                (out, Some p, w) \<Rightarrow>
                  Some (s\<lparr>n_agents := g, n_conv := out, n_pers := p, n_lim := (n_lim s)\<lparr>world := w\<rparr>\<rparr>)
              | (_, None, _) \<Rightarrow> None))
      else None)"
| "net_step k s Converter_sends =
     (case n_conv s of
        [] \<Rightarrow> None
      | b # bs \<Rightarrow> map_option (\<lambda>g. s\<lparr>n_conv := bs, n_merger := g\<rparr>) (merge_step (n_merger s) (Arrive 0 b)))"
| "net_step k s Converter_ends =
     (if closed (n_agents s) \<and> n_conv s = [] then
        map_option (\<lambda>g. s\<lparr>n_merger := g\<rparr>) (merge_step (n_merger s) (CloseSource 0))
      else None)"
| "net_step k s (Loader_lists paths err) =
     (if n_listed s = None \<and> filepaths (the_fs k) (msg_dir (n_pers s)) (world (n_lim s)) = (paths, err) then
        Some (s\<lparr>n_listed := Some (paths, err), n_paths := paths,
          n_load := (case err of None \<Rightarrow> [] | Some e \<Rightarrow> [empty_message\<lparr>Error := e, Topic := Log\<rparr>])\<rparr>)
      else None)"
| "net_step k s Loader_reads =
     (case (n_load s, n_paths s) of
        ([], q # qs) \<Rightarrow> Some (s\<lparr>n_paths := qs, n_load := [loadMessage (the_fs k) q (world (n_lim s))]\<rparr>)
      | _ \<Rightarrow> None)"
| "net_step k s (Loader_tears n) =
     (case (n_load s, n_paths s, n_conv s) of
        ([], q # qs, b # _) \<Rightarrow>
          if has_fs b \<and> path b = q then Some (s\<lparr>n_paths := qs, n_load := [file_message q (Inr (take n (marshal_message b)))]\<rparr>)
          else None
      | _ \<Rightarrow> None)"
| "net_step k s Loader_sends =
     (case n_load s of
        [] \<Rightarrow> None
      | b # bs \<Rightarrow> map_option (\<lambda>g. s\<lparr>n_load := bs, n_merger := g\<rparr>) (merge_step (n_merger s) (Arrive 1 b)))"
| "net_step k s Loader_ends =
     (if n_listed s \<noteq> None \<and> n_load s = [] \<and> n_paths s = [] then
        map_option (\<lambda>g. s\<lparr>n_merger := g\<rparr>) (merge_step (n_merger s) (CloseSource 1))
      else None)"
| "net_step k s (Requests e) =
     (if e = OnDone \<longrightarrow> n_done s then map_option (\<lambda>r. s\<lparr>n_req := r\<rparr>) (req_step (n_req s) e) else None)"
| "net_step k s Requester_sends =
     (if n_rsent s < length (r_out (n_req s)) then
        map_option (\<lambda>g. s\<lparr>n_rsent := Suc (n_rsent s), n_merger := g\<rparr>)
          (merge_step (n_merger s) (Arrive 2 (r_out (n_req s) ! n_rsent s)))
      else None)"
| "net_step k s Requester_ends =
     (if r_stopped (n_req s) \<and> \<not> r_panicked (n_req s) \<and> n_rsent s = length (r_out (n_req s)) then
        map_option (\<lambda>g. s\<lparr>n_merger := g\<rparr>) (merge_step (n_merger s) (CloseSource 2))
      else None)"
| "net_step k s (Merger e) =
     (if internal e then map_option (\<lambda>g. s\<lparr>n_merger := g\<rparr>) (merge_step (n_merger s) e) else None)"
| "net_step k s (Limit_takes now) = limiter_receives k now s (merge_step (n_merger s) Take)"
| "net_step k s (Limit_gets i now) = limiter_receives k now s (merge_step (n_merger s) (Direct i))"
| "net_step k s (Limit_closes now) =
     (if closed (n_merger s) \<and> buf (n_merger s) = [] \<and> limiter_free s then
        map_option (\<lambda>l. s\<lparr>n_lim := l\<rparr>) (lim_step (the_width k) (the_store k) (n_lim s) (now, InClosed))
      else None)"
| "net_step k s (Limit_acts now inp) =
     (if limiter_free s then
        (case inp of
           Receive _ \<Rightarrow> None
         | InClosed \<Rightarrow> None
         | _ \<Rightarrow> map_option (\<lambda>l. s\<lparr>n_lim := l\<rparr>) (lim_step (the_width k) (the_store k) (n_lim s) (now, inp)))
      else None)"
| "net_step k s Publishes =
     (if n_next s < length (sent (n_lim s)) then
        Some (s\<lparr>n_lim := (n_lim s)\<lparr>world := publish_one (the_fs k) (the_producer k) (sent (n_lim s) ! n_next s) (world (n_lim s))\<rparr>,
          n_next := Suc (n_next s)\<rparr>)
      else None)"
| "net_step k s Producer_ends =
     (if out_closed (n_lim s) \<and> n_next s = length (sent (n_lim s)) \<and> \<not> n_ended s then
        Some (s\<lparr>n_lim := (n_lim s)\<lparr>world := Disconnect (client (the_producer k)) 0 (world (n_lim s))\<rparr>, n_ended := True\<rparr>)
      else None)"

text \<open>The events that interrupt the limiter, and what it receives in an event.\<close>

fun interrupts :: "net_event \<Rightarrow> bool" where
  "interrupts (Limit_acts _ TimerFires) = True"
| "interrupts (Limit_acts _ (Configure _)) = True"
| "interrupts _ = False"

definition received :: "'w net \<Rightarrow> net_event \<Rightarrow> Message option" where
  "received s e =
     (case e of
        Limit_takes _ \<Rightarrow> map_option (\<lambda>g. snd (last (taken g))) (merge_step (n_merger s) Take)
      | Limit_gets i _ \<Rightarrow> map_option (\<lambda>g. snd (last (taken g))) (merge_step (n_merger s) (Direct i))
      | _ \<Rightarrow> None)"

text \<open>What each event needs and does.\<close>

lemma net_step_cases:
  assumes "net_step k s e = Some t"
  obtains (server_sends) m ms g where "e = Server_sends" "n_srv s = m # ms" "merge_step (n_agents s) (Arrive 0 m) = Some g"
      "t = s\<lparr>n_srv := ms, n_agents := g\<rparr>"
  | (server_ends) g where "e = Server_ends" "n_srv s = []" "merge_step (n_agents s) (CloseSource 0) = Some g"
      "t = s\<lparr>n_agents := g\<rparr>"
  | (server_done) "e = Server_done" "src_closed (workers (n_agents s) ! 0)" "\<not> n_done s" "t = s\<lparr>n_done := True\<rparr>"
  | (points_send) m ms g where "e = Points_send" "n_dps s = m # ms" "merge_step (n_agents s) (Arrive 1 m) = Some g"
      "t = s\<lparr>n_dps := ms, n_agents := g\<rparr>"
  | (points_end) g where "e = Points_end" "n_dps s = []" "merge_step (n_agents s) (CloseSource 1) = Some g"
      "t = s\<lparr>n_agents := g\<rparr>"
  | (agents) ev g where "e = Agents ev" "internal ev" "merge_step (n_agents s) ev = Some g" "t = s\<lparr>n_agents := g\<rparr>"
  | (converts) i a l g out p w where "e = Converts i a l" "n_conv s = []" "merge_step (n_agents s) (Direct i) = Some g"
      "convert_one (the_width k) (the_msgpack k) (the_fs k) (the_pid k) (the_config k)
        (Some (n_pers s), world (n_lim s)) (snd (last (taken g)), a, l) = (out, Some p, w)"
      "t = s\<lparr>n_agents := g, n_conv := out, n_pers := p, n_lim := (n_lim s)\<lparr>world := w\<rparr>\<rparr>"
  | (converter_sends) m ms g where "e = Converter_sends" "n_conv s = m # ms" "merge_step (n_merger s) (Arrive 0 m) = Some g"
      "t = s\<lparr>n_conv := ms, n_merger := g\<rparr>"
  | (converter_ends) g where "e = Converter_ends" "closed (n_agents s)" "n_conv s = []"
      "merge_step (n_merger s) (CloseSource 0) = Some g" "t = s\<lparr>n_merger := g\<rparr>"
  | (loader_lists) paths err where "e = Loader_lists paths err" "n_listed s = None"
      "filepaths (the_fs k) (msg_dir (n_pers s)) (world (n_lim s)) = (paths, err)"
      "t = s\<lparr>n_listed := Some (paths, err), n_paths := paths,
         n_load := (case err of None \<Rightarrow> [] | Some e \<Rightarrow> [empty_message\<lparr>Error := e, Topic := Log\<rparr>])\<rparr>"
  | (loader_reads) q qs where "e = Loader_reads" "n_load s = []" "n_paths s = q # qs"
      "t = s\<lparr>n_paths := qs, n_load := [loadMessage (the_fs k) q (world (n_lim s))]\<rparr>"
  | (loader_tears) n q qs b bs where "e = Loader_tears n" "n_load s = []" "n_paths s = q # qs" "n_conv s = b # bs" "has_fs b" "path b = q"
      "t = s\<lparr>n_paths := qs, n_load := [file_message q (Inr (take n (marshal_message b)))]\<rparr>"
  | (loader_sends) m ms g where "e = Loader_sends" "n_load s = m # ms" "merge_step (n_merger s) (Arrive 1 m) = Some g"
      "t = s\<lparr>n_load := ms, n_merger := g\<rparr>"
  | (loader_ends) g where "e = Loader_ends" "n_listed s \<noteq> None" "n_load s = []" "n_paths s = []"
      "merge_step (n_merger s) (CloseSource 1) = Some g" "t = s\<lparr>n_merger := g\<rparr>"
  | (requests) ev r where "e = Requests ev" "req_step (n_req s) ev = Some r" "t = s\<lparr>n_req := r\<rparr>"
  | (requester_sends) g where "e = Requester_sends" "n_rsent s < length (r_out (n_req s))"
      "merge_step (n_merger s) (Arrive 2 (r_out (n_req s) ! n_rsent s)) = Some g"
      "t = s\<lparr>n_rsent := Suc (n_rsent s), n_merger := g\<rparr>"
  | (requester_ends) g where "e = Requester_ends" "r_stopped (n_req s)" "n_rsent s = length (r_out (n_req s))"
      "merge_step (n_merger s) (CloseSource 2) = Some g" "t = s\<lparr>n_merger := g\<rparr>"
  | (merger) ev g where "e = Merger ev" "internal ev" "merge_step (n_merger s) ev = Some g" "t = s\<lparr>n_merger := g\<rparr>"
  | (limit_receives) ev g l now where "e = Limit_takes now \<and> ev = Take \<or> (\<exists>i. e = Limit_gets i now \<and> ev = Direct i)" "merge_step (n_merger s) ev = Some g" "limiter_free s"
      "lim_step (the_width k) (the_store k) (n_lim s) (now, Receive (snd (last (taken g)))) = Some l"
      "t = s\<lparr>n_merger := g, n_lim := l\<rparr>"
  | (limit_closes) now l where "e = Limit_closes now" "closed (n_merger s)" "buf (n_merger s) = []"
      "lim_step (the_width k) (the_store k) (n_lim s) (now, InClosed) = Some l" "t = s\<lparr>n_lim := l\<rparr>"
  | (limit_acts) now inp l where "e = Limit_acts now inp" "\<nexists>m. inp = Receive m" "inp \<noteq> InClosed"
      "lim_step (the_width k) (the_store k) (n_lim s) (now, inp) = Some l" "t = s\<lparr>n_lim := l\<rparr>"
  | (publishes) "e = Publishes" "n_next s < length (sent (n_lim s))"
      "t = s\<lparr>n_lim := (n_lim s)\<lparr>world := publish_one (the_fs k) (the_producer k) (sent (n_lim s) ! n_next s) (world (n_lim s))\<rparr>,
         n_next := Suc (n_next s)\<rparr>"
  | (producer_ends) "e = Producer_ends" "out_closed (n_lim s)" "n_next s = length (sent (n_lim s))" "\<not> n_ended s"
      "t = s\<lparr>n_lim := (n_lim s)\<lparr>world := Disconnect (client (the_producer k)) 0 (world (n_lim s))\<rparr>, n_ended := True\<rparr>"
proof (cases e)
  case (Converts i a l)
  with assms converts show ?thesis by (auto simp del: merge_step.simps split: if_splits option.splits prod.splits)
next
  case (Limit_takes now)
  with assms limit_receives [where ev = Take and now = now] show ?thesis
    by (auto simp: limiter_receives_def simp del: lim_step.simps merge_step.simps split: option.splits if_splits)
next
  case (Limit_gets i now)
  with assms limit_receives [where ev = "Direct i" and now = now] show ?thesis
    by (auto simp: limiter_receives_def simp del: lim_step.simps merge_step.simps split: option.splits if_splits)
next
  case (Limit_acts now inp)
  with assms limit_acts show ?thesis by (cases inp) (auto simp del: lim_step.simps split: if_splits)
next
  case Server_sends
  with assms server_sends show ?thesis
    by (auto simp del: merge_step.simps req_step.simps lim_step.simps split: list.splits if_splits)
next
  case Server_ends
  with assms server_ends show ?thesis
    by (auto simp del: merge_step.simps req_step.simps lim_step.simps split: list.splits if_splits)
next
  case Server_done
  with assms server_done show ?thesis
    by (auto simp del: merge_step.simps req_step.simps lim_step.simps split: list.splits if_splits)
next
  case Points_send
  with assms points_send show ?thesis
    by (auto simp del: merge_step.simps req_step.simps lim_step.simps split: list.splits if_splits)
next
  case Points_end
  with assms points_end show ?thesis
    by (auto simp del: merge_step.simps req_step.simps lim_step.simps split: list.splits if_splits)
next
  case (Agents ev)
  with assms agents show ?thesis
    by (auto simp del: merge_step.simps req_step.simps lim_step.simps split: list.splits if_splits)
next
  case Converter_sends
  with assms converter_sends show ?thesis
    by (auto simp del: merge_step.simps req_step.simps lim_step.simps split: list.splits if_splits)
next
  case Converter_ends
  with assms converter_ends show ?thesis
    by (auto simp del: merge_step.simps req_step.simps lim_step.simps split: list.splits if_splits)
next
  case (Loader_lists paths err)
  with assms loader_lists show ?thesis by (auto split: if_splits)
next
  case Loader_reads
  with assms loader_reads show ?thesis
    by (auto simp del: merge_step.simps req_step.simps lim_step.simps split: list.splits if_splits)
next
  case (Loader_tears n)
  with assms loader_tears show ?thesis by (auto split: list.splits if_splits)
next
  case Loader_sends
  with assms loader_sends show ?thesis
    by (auto simp del: merge_step.simps req_step.simps lim_step.simps split: list.splits if_splits)
next
  case Loader_ends
  with assms loader_ends show ?thesis
    by (auto simp del: merge_step.simps req_step.simps lim_step.simps split: list.splits if_splits)
next
  case (Requests ev)
  with assms requests show ?thesis
    by (auto simp del: merge_step.simps req_step.simps lim_step.simps split: list.splits if_splits)
next
  case Requester_sends
  with assms requester_sends show ?thesis
    by (auto simp del: merge_step.simps req_step.simps lim_step.simps split: list.splits if_splits)
next
  case Requester_ends
  with assms requester_ends show ?thesis
    by (auto simp del: merge_step.simps req_step.simps lim_step.simps split: list.splits if_splits)
next
  case (Merger ev)
  with assms merger show ?thesis
    by (auto simp del: merge_step.simps req_step.simps lim_step.simps split: list.splits if_splits)
next
  case (Limit_closes now)
  with assms limit_closes show ?thesis
    by (auto simp del: merge_step.simps req_step.simps lim_step.simps split: list.splits if_splits)
next
  case Publishes
  with assms publishes show ?thesis
    by (auto simp del: merge_step.simps req_step.simps lim_step.simps split: list.splits if_splits)
next
  case Producer_ends
  with assms producer_ends show ?thesis
    by (auto simp del: merge_step.simps req_step.simps lim_step.simps split: list.splits if_splits)
qed

section \<open>What is in a merger\<close>

definition contents :: "'m merger \<Rightarrow> 'm multiset" where
  "contents g = mset (map snd (buf g)) + sum_list (map (mset \<circ> held) (workers g))"

lemma contents_update:
  assumes "i < length (workers g)"
  shows "contents (g\<lparr>workers := (workers g)[i := w]\<rparr>) + mset (held (workers g ! i)) = contents g + mset (held w)"
  using sum_list_update_add [OF assms, of "mset \<circ> held" w] by (simp add: contents_def ac_simps)

lemma contents_other [simp]:
  "contents (g\<lparr>taken := xs\<rparr>) = contents g" "contents (g\<lparr>wg := n\<rparr>) = contents g"
  "contents (g\<lparr>closed := c\<rparr>) = contents g" "contents (g\<lparr>panicked := p\<rparr>) = contents g"
  by (simp_all add: contents_def)

lemma contents_buf: "contents (g\<lparr>buf := b\<rparr>) + mset (map snd (buf g)) = contents g + mset (map snd b)"
  by (simp add: contents_def ac_simps)

lemma contents_arrive: "merge_step g (Arrive i m) = Some t \<Longrightarrow> contents t = add_mset m (contents g)"
  using contents_update [of i g "(workers g ! i)\<lparr>phase := Holding m, got := got (workers g ! i) @ [m]\<rparr>"]
  by (auto simp: merge_step_defs Let_def held_def split: if_splits)

lemma contents_close: "merge_step g (CloseSource i) = Some t \<Longrightarrow> contents t = contents g"
  using contents_update [of i g "(workers g ! i)\<lparr>src_closed := True\<rparr>"]
  by (auto simp: merge_step_defs held_def split: if_splits)

lemma contents_put:
  assumes "merge_step g (Put i) = Some t"
  shows "contents t = contents g"
proof (cases "closed g")
  case True
  with assms show ?thesis by (auto simp: merge_step_defs split: if_splits phase.splits)
next
  case False
  let ?g = "g\<lparr>workers := (workers g)[i := (workers g ! i)\<lparr>phase := Waiting\<rparr>]\<rparr>"
  from assms False obtain m where m: "i < length (workers g)" "phase (workers g ! i) = Holding m"
    "t = ?g\<lparr>buf := buf g @ [(i, m)]\<rparr>"
    by (auto simp: merge_step_defs split: if_splits phase.splits)
  from contents_update [OF m(1), of "(workers g ! i)\<lparr>phase := Waiting\<rparr>"] m(2)
  have "contents ?g + {#m#} = contents g" by (simp add: held_def)
  with contents_buf [where g = ?g and b = "buf g @ [(i, m)]"] show ?thesis by (simp add: m(3))
qed

lemma contents_internal:
  assumes "internal e" and "merge_step g e = Some t"
  shows "contents t = contents g"
proof (cases e)
  case (Put i)
  with assms show ?thesis by (intro contents_put) simp
next
  case (SeeClosed i)
  with assms contents_update [of i g "(workers g ! i)\<lparr>phase := Finished\<rparr>"] show ?thesis
    by (auto simp: merge_step_defs Let_def held_def split: if_splits)
next
  case WaitOver
  with assms show ?thesis by (auto simp: merge_step_defs split: if_splits)
qed (use assms(1) in auto)

text \<open>What the consumer receives is what leaves.\<close>

lemma contents_take:
  assumes "merge_step g Take = Some t"
  shows "contents g = add_mset (snd (last (taken t))) (contents t)"
  using assms by (auto simp: merge_step_defs contents_def split: list.splits)

lemma contents_direct:
  assumes "count_ok g" and "merge_step g (Direct i) = Some t"
  shows "contents g = add_mset (snd (last (taken t))) (contents t)"
proof -
  from assms(2) obtain m where m: "i < length (workers g)" "phase (workers g ! i) = Holding m"
    by (auto simp: merge_step_defs split: if_splits phase.splits)
  with assms(1) running_pos [OF m(1)] have "\<not> closed g" by (auto simp: count_ok_def)
  with assms(2) m have t: "t = g\<lparr>workers := (workers g)[i := (workers g ! i)\<lparr>phase := Waiting\<rparr>], taken := taken g @ [(i, m)]\<rparr>"
    by (auto simp: merge_step_defs split: if_splits)
  from contents_update [OF m(1), of "(workers g ! i)\<lparr>phase := Waiting\<rparr>"] m(2) show ?thesis
    by (simp add: t held_def)
qed

section \<open>The network refines the pipeline\<close>

definition pool :: "'w net \<Rightarrow> Message multiset" where
  "pool s = mset (n_conv s) + mset (n_load s) + mset (drop (n_rsent s) (r_out (n_req s))) + contents (n_merger s)"

definition net_ok :: "'w net \<Rightarrow> bool" where
  "net_ok s \<longleftrightarrow> count_ok (n_agents s) \<and> count_ok (n_merger s) \<and> n_rsent s \<le> length (r_out (n_req s))
     \<and> (n_listed s = None \<longrightarrow> n_load s = [] \<and> n_paths s = [])"

definition abstracts :: "'w net \<Rightarrow> 'w pipe \<Rightarrow> bool" where
  "abstracts s a \<longleftrightarrow> p_lim a = n_lim s \<and> p_pers a = n_pers s \<and> p_next a = n_next s \<and> mset (p_queue a) = pool s"

lemma mset_without: "i < length ms \<Longrightarrow> mset ms = add_mset (ms ! i) (mset (without i ms))"
  by (subst id_take_nth_drop [of i ms]) (simp_all add: without_def)

lemma req_step_out:
  assumes "req_step r e = Some r'"
  shows "r_out r' = r_out r \<or> (\<exists>err. r_out r' = r_out r @ [lost_connection err])"
  using assms
  by (cases e) (auto simp: write_fails_def on_conf_def lost_connection_def Let_def split: if_splits option.splits)

text \<open>A message that the limiter receives is one of the pool.\<close>

lemma limiter_receives_pipe:
  assumes "abstracts s a" and "contents (n_merger s) = add_mset m (contents g)"
    and l: "lim_step (the_width k) (the_store k) (n_lim s) (now, Receive m) = Some l"
  shows "\<exists>i a'. i < length (p_queue a) \<and> p_queue a ! i = m \<and> pipe_step k a (Pass now i) = Some a'
    \<and> abstracts (s\<lparr>n_merger := g, n_lim := l\<rparr>) a'"
proof -
  let ?t = "s\<lparr>n_merger := g, n_lim := l\<rparr>"
  from assms(1,2) have pool: "mset (p_queue a) = add_mset m (pool ?t)" by (simp add: abstracts_def pool_def)
  then have "m \<in> set (p_queue a)" by (metis set_mset_mset union_single_eq_member)
  then obtain i where i: "i < length (p_queue a)" "p_queue a ! i = m" by (auto simp: in_set_conv_nth)
  with l assms(1) have "pipe_step k a (Pass now i) = Some (a\<lparr>p_lim := l, p_queue := without i (p_queue a)\<rparr>)"
    by (simp add: abstracts_def del: lim_step.simps)
  moreover have "abstracts ?t (a\<lparr>p_lim := l, p_queue := without i (p_queue a)\<rparr>)"
    using assms(1) pool mset_without [OF i(1)] i(2) by (simp add: abstracts_def pool_def)
  ultimately show ?thesis using i by blast
qed

lemma net_ok_step:
  assumes "net_ok s" and "net_step k s e = Some t"
  shows "net_ok t"
  using assms(2)
proof (cases rule: net_step_cases)
  case (requests ev r)
  with assms(1) req_step_out [of "n_req s" ev r] show ?thesis by (auto simp: net_ok_def)
qed (use assms(1) in \<open>auto simp: net_ok_def simp del: merge_step.simps dest: count_step\<close>)

text \<open>
  The network stutters when a message or an end moves between goroutines, and takes the pipeline's step when the converter,
  the loader, the requester, the limiter or the producer acts: \<open>matches\<close> tells which. The files that are loaded are those
  that the loader has listed, the limiter gets the same inputs and receives the same messages.
\<close>

definition matches :: "'w net \<Rightarrow> net_event \<Rightarrow> 'w pipe \<Rightarrow> pipe_event \<Rightarrow> bool" where
  "matches s e a f \<longleftrightarrow>
     (case f of
        Load_file q \<Rightarrow> e = Loader_reads \<and> (\<exists>qs. n_paths s = q # qs)
      | Load_part j n \<Rightarrow> e = Loader_tears n \<and> (\<exists>qs. n_paths s = path (p_queue a ! j) # qs)
      | Limiter now inp \<Rightarrow> e = Limit_acts now inp \<or> e = Limit_closes now \<and> inp = InClosed
      | Pass now i \<Rightarrow> i < length (p_queue a) \<and> received s e = Some (p_queue a ! i)
      | _ \<Rightarrow> True)"

lemma net_step_simulates:
  assumes ok: "net_ok s" and a: "abstracts s a" and step: "net_step k s e = Some t"
  shows "abstracts t a \<or> (\<exists>f b. matches s e a f \<and> pipe_step k a f = Some b \<and> abstracts t b)"
  (is "_ \<or> (\<exists>f b. ?Q f b)")
proof -
  have steps: "?Q f b \<Longrightarrow> ?thesis" for f b by blast
  from step show ?thesis
  proof (cases rule: net_step_cases)
    case (converts i am l g out p w)
    with a show ?thesis
      by (intro steps [of "Convert (snd (last (taken g))) am l"]) (auto simp: matches_def abstracts_def pool_def pl_world_def set_world_def)
  next
    case (loader_lists paths err)
    with ok have "n_load s = []" by (simp add: net_ok_def)
    show ?thesis
    proof (cases err)
      case None
      with a loader_lists(4) \<open>n_load s = []\<close> show ?thesis by (simp add: abstracts_def pool_def)
    next
      case (Some er)
      with a loader_lists(4) \<open>n_load s = []\<close> show ?thesis
        by (intro steps [of "Request_report er"]) (auto simp: matches_def abstracts_def pool_def lost_connection_def)
    qed
  next
    case (loader_reads q qs)
    with a show ?thesis by (intro steps [of "Load_file q"]) (auto simp: matches_def abstracts_def pool_def pl_world_def)
  next
    case (loader_tears n q qs b bs)
    from a loader_tears(4) have "mset (p_queue a) = pool s" "b \<in># pool s" by (simp_all add: abstracts_def pool_def)
    then have "b \<in> set (p_queue a)" by (metis set_mset_mset)
    then obtain j where "j < length (p_queue a)" "p_queue a ! j = b" by (auto simp: in_set_conv_nth)
    with a loader_tears show ?thesis by (intro steps [of "Load_part j n"]) (auto simp: matches_def abstracts_def pool_def)
  next
    case (requests ev r)
    from req_step_out [OF requests(2)] consider (same) "r_out r = r_out (n_req s)"
      | (new) err where "r_out r = r_out (n_req s) @ [lost_connection err]" by blast
    then show ?thesis
    proof cases
      case same
      with a requests(3) show ?thesis by (simp add: abstracts_def pool_def)
    next
      case new
      with a ok requests(3) show ?thesis
        by (intro steps [of "Request_report err"]) (auto simp: matches_def abstracts_def pool_def net_ok_def)
    qed
  next
    case (requester_sends g)
    from a contents_arrive [OF requester_sends(3)] show ?thesis
      by (simp add: requester_sends(4) abstracts_def pool_def flip: Cons_nth_drop_Suc [OF requester_sends(2)])
  next
    case (limit_receives ev g l now)
    from ok have "count_ok (n_merger s)" by (simp add: net_ok_def)
    with limit_receives(1,2) have "contents (n_merger s) = add_mset (snd (last (taken g))) (contents g)"
      using contents_take contents_direct by blast
    from limiter_receives_pipe [OF a this limit_receives(4)] obtain i b where
      b: "i < length (p_queue a)" "p_queue a ! i = snd (last (taken g))" "pipe_step k a (Pass now i) = Some b" "abstracts t b"
      unfolding limit_receives(5) by blast
    with limit_receives(1,2) have "matches s e a (Pass now i)" by (auto simp: matches_def received_def)
    with b(3,4) steps [of "Pass now i" b] show ?thesis by blast
  next
    case (limit_closes now l)
    with a show ?thesis
      by (intro steps [of "Limiter now InClosed"]) (auto simp: matches_def abstracts_def pool_def simp del: lim_step.simps)
  next
    case (limit_acts now inp l)
    with a show ?thesis
      by (intro steps [of "Limiter now inp"]) (cases inp; auto simp: matches_def abstracts_def pool_def simp del: lim_step.simps)+
  next
    case publishes
    with a show ?thesis by (intro steps [of Publish_next]) (auto simp: matches_def abstracts_def pool_def pl_world_def set_world_def)
  next
    case producer_ends
    with a show ?thesis by (intro steps [of Finish]) (auto simp: matches_def abstracts_def pool_def pl_world_def set_world_def)
  qed (use a in \<open>simp add: abstracts_def pool_def contents_arrive contents_close contents_internal del: merge_step.simps\<close>)+
qed

interpretation net: simulation "net_step k" "pipe_step k" abstracts net_ok matches for k
  by unfold_locales (use net_ok_step net_step_simulates in blast)+

section \<open>The start\<close>

text \<open>
  \<open>client.run\<close> starts with empty mergers and the persistor and the limiter as they were made: the limiter has loaded
  its state, which nobody else writes, and the loader has still to look into the directory.
\<close>

definition new_net :: "('w, 'h) parts \<Rightarrow> agent_Message list \<Rightarrow> agent_Message list \<Rightarrow> string \<Rightarrow> 'w \<Rightarrow> 'w net" where
  "new_net k srv dps dir w =
     \<lparr>n_srv = srv, n_dps = dps, n_done = False, n_agents = Merge_agent 2, n_pers = NewPersistor dir, n_conv = [],
      n_listed = None, n_paths = [], n_load = [], n_req = NewPeriodicRequester, n_rsent = 0, n_merger = Merge_messages 3,
      n_lim = NewDataLimiter (the_store k) w, n_next = 0, n_ended = False\<rparr>"

definition new_pipe :: "('w, 'h) parts \<Rightarrow> string \<Rightarrow> 'w \<Rightarrow> 'w pipe" where
  "new_pipe k dir w = \<lparr>p_lim = NewDataLimiter (the_store k) w, p_pers = NewPersistor dir, p_queue = [], p_next = 0\<rparr>"

lemma new_net_ok: "net_ok (new_net k srv dps dir w)"
  by (simp add: new_merger_ok net_ok_def new_net_def Merge_agent_def Merge_messages_def split: prod.split)

lemma new_net_abstracts: "abstracts (new_net k srv dps dir w) (new_pipe k dir w)"
  by (simp add: abstracts_def pool_def contents_def new_net_def new_pipe_def Merge_messages_def new_merger_def held_def
      NewPeriodicRequester_def eval_nat_numeral split: prod.split)


section \<open>Properties\<close>

text \<open>C11: The network of goroutines refines the pipeline: whatever the goroutines of the servers, the two mergers, the
converter, the loader, the requester, the limiter and the producer do, in whatever order, the pipeline can do with the same
limiter, the same persistor and the same messages published, and what is in the hands of the goroutines between the
sources and the limiter is what the pipeline has in its pool. So what holds of every run of the pipeline holds of
every run of the network.\<close>

theorem network_refines_pipeline:
  assumes "run (net_step k) (new_net k srv dps dir w) es = Some t"
  shows "\<exists>as b. run (pipe_step k) (new_pipe k dir w) as = Some b
    \<and> p_lim b = n_lim t \<and> p_pers b = n_pers t \<and> p_next b = n_next t \<and> mset (p_queue b) = pool t"
proof -
  from net.run_sim [OF new_net_ok new_net_abstracts assms] show ?thesis by (auto simp: abstracts_def)
qed

definition sample_net :: "(disk \<times> (string \<times> bytes) list) net" where
  "sample_net = new_net sample_parts [sample_point] [] ''d'' empty_site"

definition sample_net_events :: "net_event list" where
  "sample_net_events = [Server_sends, Server_ends, Converts 0 (sample_ambient\<lparr>now_nano := 0\<rparr>) None, Server_done, Requests OnDone]"

theorem network_refines_pipeline_witness:
  "\<exists>as b. run (pipe_step sample_parts) (new_pipe sample_parts ''d'' empty_site) as = Some b
     \<and> length (p_queue b) = 1 \<and> p_next b = 0"
proof -
  let ?r = "run (net_step sample_parts) sample_net sample_net_events"
  have "case ?r of None \<Rightarrow> False
    | Some t \<Rightarrow> length (n_conv t) = 1 \<and> n_load t = [] \<and> r_out (n_req t) = [] \<and> buf (n_merger t) = []
        \<and> map phase (workers (n_merger t)) = [Waiting, Waiting, Waiting] \<and> n_next t = 0"
    by code_simp
  then obtain t where t: "?r = Some t" "length (n_conv t) = 1" "n_load t = []" "r_out (n_req t) = []" "buf (n_merger t) = []"
    "map phase (workers (n_merger t)) = [Waiting, Waiting, Waiting]" "n_next t = 0"
    by (auto split: option.splits)
  from t(6) have "map (mset \<circ> held) (workers (n_merger t)) = [{#}, {#}, {#}]" by (auto simp: held_def)
  with t have "size (pool t) = 1" by (simp add: pool_def contents_def)
  with network_refines_pipeline [OF t(1) [unfolded sample_net_def]] t(7) show ?thesis by (metis size_mset)
qed

end
