(* ===== verification/Delivery.thy ===== *)
theory Delivery
  imports Network
begin

text \<open>
  What becomes of a stored message, in the network of goroutines that \<open>client.run\<close> starts: from the moment it is
  stored it is on the disk until the broker has it, if the loader does not read its file half written; and what becomes of it otherwise. The first statement
  rests on the one of \<open>Pipeline\<close>; that nothing else waits under the name of the message, which \<open>Pipeline\<close> assumes, is proved here.
\<close>

section \<open>The names of the messages that wait\<close>

text \<open>No message that waits has a name that this process has still to give.\<close>

definition past :: "('w, 'h) parts \<Rightarrow> string \<Rightarrow> int \<Rightarrow> string \<Rightarrow> bool" where
  "past k dir c q \<longleftrightarrow> (\<forall>n \<ge> c. q \<noteq> message_path dir (the_pid k) n)"

definition own_names :: "('w, 'h) parts \<Rightarrow> string \<Rightarrow> 'w pipe \<Rightarrow> bool" where
  "own_names k dir s \<longleftrightarrow> msg_dir (p_pers s) = dir \<and> (\<forall>m \<in> set (waiting s). past k dir (msg_count (p_pers s)) (path m))"

lemma past_Nil [simp]: "past k dir c []"
  by (simp add: past_def message_path_def)

lemma past_own: "past k dir c (message_path dir (the_pid k) n) \<longleftrightarrow> n < c"
  by (simp add: past_def message_path_inj) (metis linorder_not_le)

lemma past_mono: "past k dir c q \<Longrightarrow> c \<le> d \<Longrightarrow> past k dir d q"
  by (auto simp: past_def)

lemma own_names_mono:
  "own_names k dir s \<Longrightarrow> p_pers t = p_pers s \<Longrightarrow>
   \<forall>m \<in> set (waiting t). m \<in> set (waiting s) \<or> past k dir (msg_count (p_pers s)) (path m) \<Longrightarrow> own_names k dir t"
  unfolding own_names_def by metis

lemma converted_path:
  assumes "convert_one W msgpack fs pid cfg (Some p, w) x = (out, Some p', w')" and "b \<in> set out"
  shows "path b = [] \<or> has_fs b"
proof -
  obtain m a l where x: "x = (m, a, l)" by (cases x)
  from assms(1) show ?thesis unfolding x
  proof (cases rule: convert_one_cases)
    case (failed q q' b' err)
    with assms(2) show ?thesis by (simp add: report_def empty_message_def)
  next
    case (stored q q' b')
    from stored(5) have "has_fs b'" by (cases rule: CreateMessage_cases) auto
    with stored(3) assms(2) show ?thesis by simp
  qed (use assms(2) in auto)
qed

context site
begin

lemma own_names_step:
  assumes fs: "the_fs k = fs" and names: "own_names k dir s" and load: "\<forall>q. e = Load_file q \<longrightarrow> past k dir (msg_count (p_pers s)) q"
    and step: "pipe_step k s e = Some t"
  shows "own_names k dir t"
proof (cases e)
  case (Convert m a l)
  from step Convert obtain out p' w' where
    conv: "convert_one (the_width k) (the_msgpack k) fs (the_pid k) (the_config k) (Some (p_pers s), world (p_lim s)) (m, a, l)
      = (out, Some p', w')" and t: "t = (set_world w' s)\<lparr>p_pers := p', p_queue := p_queue s @ out\<rparr>"
    by (auto simp: fs pl_world_def split: prod.splits option.splits)
  note eff = convert_one_effect [OF conv]
  have "past k dir (msg_count p') (path b)" if "b \<in> set out" for b
    using that eff converted_path [OF conv that] names by (auto simp: own_names_def past_own)
  moreover from eff names have "msg_dir p' = dir" "msg_count (p_pers s) \<le> msg_count p'" by (auto simp: own_names_def)
  ultimately show ?thesis using names by (auto simp: own_names_def t waiting_def set_world_def intro: past_mono)
next
  case (Limiter now inp)
  with step obtain l where l: "lim_step (the_width k) (the_store k) (p_lim s) (now, inp) = Some l" "t = s\<lparr>p_lim := l\<rparr>"
    "\<nexists>m. inp = Receive m" by (cases inp) (auto simp del: lim_step.simps)
  with lim_step_world [OF l(1)] show ?thesis by (intro own_names_mono [OF names]) (auto simp: waiting_def)
next
  case (Pass now i)
  with step obtain l where m: "i < length (p_queue s)" "t = s\<lparr>p_lim := l, p_queue := without i (p_queue s)\<rparr>"
    and l: "lim_step (the_width k) (the_store k) (p_lim s) (now, Receive (p_queue s ! i)) = Some l"
    by (auto split: if_splits)
  have "set (waiting t) \<subseteq> set (waiting s)"
    using lim_step_world [OF l] set_without [of i "p_queue s"] nth_mem [OF m(1)]
    by (auto simp: m(2) waiting_def dest: set_drop_single)
  then show ?thesis by (intro own_names_mono [OF names]) (auto simp: m(2))
next
  case (Load_part j n)
  with step have "p_queue s ! j \<in> set (waiting s)" by (auto simp: waiting_def split: if_splits)
  then show ?thesis using step names Load_part
    by (intro own_names_mono [OF names]) (auto simp: waiting_def own_names_def split: if_splits)
next
  case Publish_next
  with step have "p_pers t = p_pers s" "waiting t = drop (Suc (p_next s)) (sent (p_lim s)) @ p_queue s"
    by (auto simp: waiting_def set_world_def split: if_splits)
  moreover from this(2) have "set (waiting t) \<subseteq> set (waiting s)"
    using set_drop_subset_set_drop [of "p_next s" "Suc (p_next s)" "sent (p_lim s)"] by (auto simp: waiting_def)
  ultimately show ?thesis by (intro own_names_mono [OF names]) auto
qed (use names step load in \<open>auto intro!: own_names_mono [OF names] simp: waiting_def set_world_def lost_connection_def empty_message_def\<close>)

end


lemma new_pipe_names: "own_names k dir (new_pipe k dir w)"
  by (simp add: own_names_def new_pipe_def waiting_def NewPersistor_def NewDataLimiter_def split: prod.splits)

text \<open>The converter's step, in the network and in the pipeline.\<close>

lemma converts_pipe:
  assumes "net_step k s (Converts i am l) = Some t" and "abstracts s a"
  shows "\<exists>m b. pipe_step k a (Convert m am l) = Some b \<and> abstracts t b \<and> p_queue b = p_queue a @ n_conv t"
  using assms(1)
proof (cases rule: net_step_cases)
  case (converts i' am' l' g out p w)
  with assms(2) show ?thesis
    by (intro exI [of _ "snd (last (taken g))"]) (auto simp: abstracts_def pool_def pl_world_def set_world_def)
qed auto

context site
begin

lemma stored_name:
  assumes "the_fs k = fs" and "pipe_step k s (Convert m a l) = Some t" and "p_queue t = p_queue s @ [b]" and "has_fs b"
  shows "path b = message_path (msg_dir (p_pers s)) (the_pid k) (msg_count (p_pers s))"
proof -
  from assms(1,2) obtain out p' w' where
    conv: "convert_one (the_width k) (the_msgpack k) fs (the_pid k) (the_config k) (Some (p_pers s), world (p_lim s)) (m, a, l)
      = (out, Some p', w')" and "t = (set_world w' s)\<lparr>p_pers := p', p_queue := p_queue s @ out\<rparr>"
    by (auto simp: pl_world_def split: prod.splits option.splits)
  with convert_one_effect [OF conv] assms(3,4) show ?thesis by (simp add: set_world_def)
qed

end

text \<open>What the loader lists, it reads later: nothing in its list has a name that is still to be given.\<close>

definition list_past :: "('w, 'h) parts \<Rightarrow> string \<Rightarrow> 'w net \<Rightarrow> bool" where
  "list_past k dir s \<longleftrightarrow> msg_dir (n_pers s) = dir \<and> (\<forall>q \<in> set (n_paths s). past k dir (msg_count (n_pers s)) q)"

definition lists_past :: "('w, 'h) parts \<Rightarrow> 'w net \<Rightarrow> net_event \<Rightarrow> bool" where
  "lists_past k s e \<longleftrightarrow>
     (case e of
        Loader_lists paths _ \<Rightarrow> \<forall>q \<in> set paths. past k (msg_dir (n_pers s)) (msg_count (n_pers s)) q
      | _ \<Rightarrow> True)"

text \<open>When the loader comes to the file \<open>q\<close> while it is there, it can read it, and it does not read it half written.\<close>

definition loads :: "('w, 'h) Fs \<Rightarrow> ('w \<Rightarrow> string \<Rightarrow> bytes option) \<Rightarrow> string \<Rightarrow> 'w net \<Rightarrow> net_event \<Rightarrow> bool" where
  "loads fs content q s e \<longleftrightarrow>
     (case e of
        Loader_reads \<Rightarrow>
          (case n_paths s of
             [] \<Rightarrow> True
           | p # _ \<Rightarrow> p = q \<longrightarrow> content (world (n_lim s)) q \<noteq> None \<longrightarrow> \<not> isl (readFile fs q (world (n_lim s))))
      | Loader_tears _ \<Rightarrow> (case n_paths s of [] \<Rightarrow> True | p # _ \<Rightarrow> p \<noteq> q)
      | _ \<Rightarrow> True)"

lemma list_past_step:
  assumes "list_past k dir s" and "lists_past k s e" and "net_step k s e = Some t"
  shows "list_past k dir t"
  using assms(3)
proof (cases rule: net_step_cases)
  case (converts i am l g out p w)
  obtain m a l' where "snd (last (taken g)) = m" by simp
  with converts(4) have "msg_dir p = msg_dir (n_pers s) \<and> msg_count (n_pers s) \<le> msg_count p"
    by (auto elim!: convert_one_cases CreateMessage_cases)
  with assms(1) converts(5) show ?thesis by (auto simp: list_past_def intro: past_mono)
qed (use assms(1,2) in \<open>auto simp: list_past_def lists_past_def\<close>)

context site
begin

text \<open>A message that is on its way stays so, if its file can be read.\<close>

lemma net_on_its_way:
  assumes fs: "the_fs k = fs" and c: "client (the_producer k) = c"
    and store: "\<forall>x. harmless content accepted q (\<lambda>w. snd (Save (the_store k) x w))"
    and s: "net_ok s" "abstracts s a" "on_its_way k content accepted q m a"
    and r: "run (net_step k) s es = Some t" and reads: "along (net_step k) (loads fs content q) s es"
  shows "(topic_of (the_producer k) m, Bytes m) \<in> set (accepted (world (n_lim t)))
    \<or> content (world (n_lim t)) q = Some (marshal_message m)"
proof -
  let ?I = "on_its_way k content accepted q m"
  have keeps: "?I v" if "?I u" "loads fs content q s e" "matches s e u f" "abstracts s u" "pipe_step k u f = Some v" for s e u f v
  proof (rule on_its_way_step [OF fs c store that(1,5)])
    show "f = Load_file q \<longrightarrow> content (pl_world u) q \<noteq> None \<longrightarrow> \<not> isl (readFile fs q (pl_world u))"
      using that(2-4) by (auto simp: matches_def loads_def abstracts_def pl_world_def)
    show "\<forall>j n. f = Load_part j n \<longrightarrow> path (p_queue u ! j) \<noteq> q"
      using that(2,3) by (auto simp: matches_def loads_def)
  qed
  have "net_ok t \<and> (\<exists>a. abstracts t a \<and> ?I a)"
    by (rule net.transfer [where I = ?I, OF _ s r reads]) (use keeps in blast)
  then show ?thesis by (auto simp: on_its_way_def abstracts_def pl_world_def)
qed

lemma reachable_names:
  assumes fs: "the_fs k = fs" and r: "run (net_step k) (new_net k srv dps dir w) es = Some s"
    and lists: "along (net_step k) (lists_past k) (new_net k srv dps dir w) es"
  shows "net_ok s \<and> (\<exists>a. abstracts s a \<and> own_names k dir a)"
proof -
  have start: "list_past k dir (new_net k srv dps dir w) \<and> own_names k dir (new_pipe k dir w)"
    by (simp add: list_past_def new_net_def NewPersistor_def new_pipe_names)
  have "net_ok s \<and> (\<exists>a. abstracts s a \<and> list_past k dir s \<and> own_names k dir a)"
  proof (rule net.transfer_both [where I = "\<lambda>s a. list_past k dir s \<and> own_names k dir a", OF _ new_net_ok new_net_abstracts start r lists])
    fix s t :: "'w net" and e a b
    assume a: "abstracts s a" "lists_past k s e" "list_past k dir s \<and> own_names k dir a" "net_step k s e = Some t"
      and b: "b = a \<or> (\<exists>f. matches s e a f \<and> pipe_step k a f = Some b)"
    from b have "own_names k dir b"
    proof (elim disjE exE conjE)
      fix f assume f: "matches s e a f" "pipe_step k a f = Some b"
      have "\<forall>q. f = Load_file q \<longrightarrow> past k dir (msg_count (p_pers a)) q"
        using a(1,3) f(1) by (auto simp: matches_def list_past_def abstracts_def)
      from own_names_step [OF fs _ this f(2)] a(3) show ?thesis by blast
    qed (use a(3) in simp)
    with list_past_step [OF _ a(2,4)] a(3) show "list_past k dir t \<and> own_names k dir b" by blast
  qed
  then show ?thesis by blast
qed

lemma net_stored:
  assumes fs: "the_fs k = fs" and c: "client (the_producer k) = c"
    and store: "\<forall>n x. harmless content accepted (message_path dir (the_pid k) n) (\<lambda>w. snd (Save (the_store k) x w))"
    and r1: "run (net_step k) (new_net k srv dps dir w) es = Some s"
    and lists: "along (net_step k) (lists_past k) (new_net k srv dps dir w) es"
    and conv: "net_step k s (Converts i am l) = Some s1" and b: "n_conv s1 = [b]" "has_fs b"
    and r2: "run (net_step k) s1 es' = Some t" and reads: "along (net_step k) (loads fs content (path b)) s1 es'"
  shows "((topic_of (the_producer k) b, Bytes b) \<in> set (accepted (world (n_lim t)))
      \<or> content (world (n_lim t)) (path b) = Some (marshal_message b))
    \<and> (\<exists>n. path b = message_path dir (the_pid k) n)"
proof -
  from reachable_names [OF fs r1 lists] obtain a where s: "net_ok s" "abstracts s a" "own_names k dir a" by blast
  from converts_pipe [OF conv s(2)] b(1) obtain m a1 where
    a1: "pipe_step k a (Convert m am l) = Some a1" "abstracts s1 a1" "p_queue a1 = p_queue a @ [b]" by auto
  from stored_name [OF fs a1(1,3) b(2)] s(3) have q: "path b = message_path dir (the_pid k) (msg_count (p_pers a))"
    by (simp add: own_names_def)
  have "\<forall>m \<in> set (waiting a). path m \<noteq> path b" using s(3) by (auto simp: own_names_def q past_def)
  from converted_on_its_way [OF fs a1(1,3) b(2) this] have way: "on_its_way k content accepted (path b) b a1" .
  have "\<forall>x. harmless content accepted (path b) (\<lambda>w. snd (Save (the_store k) x w))" using store q by simp
  from net_on_its_way [OF fs c this net.cinv_step [OF s(1) conv] a1(2) way r2 reads] q show ?thesis by blast
qed

end

section \<open>Properties\<close>

text \<open>C1: A stored message is not lost while the client runs, but for what the loader may do to it. Whatever the goroutines that the client starts have done
before, under every schedule: from the moment the converter has stored a message and its file is complete, whatever they do then and whatever fails, the message is in its file
on the disk until the broker has accepted its topic and its bytes. It is assumed that when the loader looks into the directory no file
there has a name that this process has still to give; that whenever it comes to the file of the message while that is there, it can
read it, and does not read it half written (\<open>Loader_tears\<close>: the goroutines do not exclude it, and C38 shows what it costs); and that the limiter's file is elsewhere.\<close>

theorem stored_never_lost:
  assumes "site (the_fs k) content (client (the_producer k)) accepted"
    and "\<forall>n x. harmless content accepted (message_path dir (the_pid k) n) (\<lambda>w. snd (Save (the_store k) x w))"
    and "run (net_step k) (new_net k srv dps dir w) es = Some s"
    and "along (net_step k) (lists_past k) (new_net k srv dps dir w) es"
    and "net_step k s (Converts i a l) = Some s1" and "n_conv s1 = [b]" and "has_fs b"
    and "run (net_step k) s1 es' = Some t" and "along (net_step k) (loads (the_fs k) content (path b)) s1 es'"
  shows "(topic_of (the_producer k) b, Bytes b) \<in> set (accepted (world (n_lim t)))
    \<or> content (world (n_lim t)) (path b) = Some (marshal_message b)"
  by (rule conjunct1 [OF site.net_stored [OF assms(1) refl refl assms(2-9)]])

definition before_storing :: "net_event list" where
  "before_storing = [Server_sends, Server_ends]"

definition after_storing :: "net_event list" where
  "after_storing = [Loader_lists [''d/7-0''] None, Loader_reads, Converter_sends, Merger (Put 0), Loader_sends, Merger (Put 1),
     Limit_acts some_time Go, Limit_takes some_time, Publishes]"

theorem stored_never_lost_witness:
  "\<exists>t::(disk \<times> (string \<times> bytes) list) net. \<exists>b::bytes.
     disk_content (fst (world (n_lim t))) ''d/7-0'' = None \<and> (''c/datapoints/org/dev'', b) \<in> set (snd (world (n_lim t)))"
proof -
  let ?e = "Converts 0 (sample_ambient\<lparr>now_nano := 0\<rparr>) None"
  have "case run (net_step sample_parts) sample_net before_storing of None \<Rightarrow> False
    | Some s \<Rightarrow> (case net_step sample_parts s ?e of None \<Rightarrow> False
        | Some s1 \<Rightarrow> (case n_conv s1 of [b] \<Rightarrow> has_fs b \<and> path b = ''d/7-0'' \<and> topic_of sample_producer b = ''c/datapoints/org/dev'' | _ \<Rightarrow> False)
          \<and> along (net_step sample_parts) (loads (on_fst disk_fs) (\<lambda>w. disk_content (fst w)) ''d/7-0'') s1 after_storing
          \<and> (case run (net_step sample_parts) s1 after_storing of None \<Rightarrow> False
             | Some t \<Rightarrow> Option.is_none (disk_content (fst (world (n_lim t))) ''d/7-0'')))"
    by code_simp
  then obtain s s1 b t where r: "run (net_step sample_parts) sample_net before_storing = Some s"
    "net_step sample_parts s ?e = Some s1" "n_conv s1 = [b]" "has_fs b" "path b = ''d/7-0''"
    "along (net_step sample_parts) (loads (on_fst disk_fs) (\<lambda>w. disk_content (fst w)) ''d/7-0'') s1 after_storing"
    "run (net_step sample_parts) s1 after_storing = Some t" "disk_content (fst (world (n_lim t))) ''d/7-0'' = None"
    "topic_of sample_producer b = ''c/datapoints/org/dev''"
    by (simp only: Option.is_none_def split: option.splits list.splits) blast+
  have site: "site (the_fs sample_parts) (\<lambda>w. disk_content (fst w)) (client (the_producer sample_parts)) snd"
    using log_site.site_axioms [of "\<lambda>_. None"] by (simp add: sample_parts_def client_sample_producer)
  have store: "\<forall>n x. harmless (\<lambda>w. disk_content (fst w)) snd (message_path ''d'' (the_pid sample_parts) n) (\<lambda>w. snd (Save (the_store sample_parts) x w))"
    using log_site.limiter_file_harmless [of _ "''limits''" 64 UTC] by (simp add: sample_parts_def message_path_def)
  have lists: "along (net_step sample_parts) (lists_past sample_parts) (new_net sample_parts [sample_point] [] ''d'' empty_site) before_storing"
    by (rule along_all) (auto simp: before_storing_def lists_past_def)
  have "the_fs sample_parts = on_fst disk_fs" by (simp add: sample_parts_def)
  with stored_never_lost [OF site store r(1) [unfolded sample_net_def] lists r(2,3,4,7)] r(5,6,8,9)
  have "(''c/datapoints/org/dev'', Bytes b) \<in> set (snd (world (n_lim t)))" by (simp add: sample_parts_def)
  with r(8) show ?thesis by blast
qed

section \<open>Across a restart\<close>

context site
begin

lemma found_on_its_way:
  assumes fs: "the_fs k = fs" and c: "client (the_producer k) = c"
    and store: "\<forall>x. harmless content accepted q (\<lambda>w. snd (Save (the_store k) x w))"
    and q: "q \<noteq> []" "\<forall>n. q \<noteq> message_path dir (the_pid k) n"
    and there: "(topic_of (the_producer k) m, Bytes m) \<in> set (accepted w) \<or> content w q = Some (marshal_message m)"
    and load: "\<forall>x. snd (snd (Load (the_store k) x w)) = w"
    and r: "run (net_step k) (new_net k srv dps dir w) es = Some t"
    and reads: "along (net_step k) (loads fs content q) (new_net k srv dps dir w) es"
  shows "(topic_of (the_producer k) m, Bytes m) \<in> set (accepted (world (n_lim t)))
    \<or> content (world (n_lim t)) q = Some (marshal_message m)"
proof -
  have "snd (snd (Load (the_store k) x w)) = w" for x using load by simp
  then have "world (NewDataLimiter (the_store k) w) = w" by (simp add: NewDataLimiter_def case_prod_unfold)
  moreover have "sent (NewDataLimiter (the_store k) w) = []" by (simp add: NewDataLimiter_def split: prod.split)
  ultimately have "on_its_way k content accepted q m (new_pipe k dir w)"
    using q there by (auto simp: on_its_way_def new_pipe_def pl_world_def waiting_def past_names_def NewPersistor_def)
  from net_on_its_way [OF fs c store new_net_ok new_net_abstracts this r reads] show ?thesis .
qed

end





section \<open>The loader and the converter at once\<close>

definition half_reading :: "net_event list" where
  "half_reading = [Loader_sends, Merger (Put 1), Limit_acts some_time Go, Limit_takes some_time]"

lemma file_message_broken: "parse bs = None \<Longrightarrow> \<exists>err. file_message q (Inr bs) = empty_message\<lparr>path := q, has_fs := True, Error := err\<rparr>"
  by (auto simp: file_message_def unmarshal_def Let_def)

text \<open>C38: The race that the last condition of C1 excludes: the loader, which lists the directory while the converter already stores, finds the
file of a message that is being written and reads a part of it that is no JSON text yet, or nothing. Whatever happens then, when the producer comes to what the
loader made of it and the broker takes that, the file is removed, and what was published is an empty payload: a message that the broker
does not have by then is no longer on the disk.\<close>

theorem half_read_message_lost:
  assumes "site (the_fs k) content (client (the_producer k)) accepted"
    and "net_step k s (Loader_tears n) = Some s1" and "n_conv s = [b]" and "Bytes b \<noteq> []" and "parse (take n (marshal_message b)) = None"
    and "run (net_step k) s1 es = Some t" and "n_next t < length (sent (n_lim t))" and "sent (n_lim t) ! n_next t = hd (n_load s1)"
    and "Publish (client (the_producer k)) (topic_of (the_producer k) empty_message) 1 False [] (world (n_lim t)) = (None, w1)"
    and "Remove (the_fs k) (path b) w1 = (None, w2)"
    and "(topic_of (the_producer k) b, Bytes b) \<notin> set (accepted (world (n_lim t)))"
  shows "\<exists>u. net_step k t Publishes = Some u \<and> content (world (n_lim u)) (path b) = None
    \<and> (topic_of (the_producer k) b, Bytes b) \<notin> set (accepted (world (n_lim u)))"
proof -
  let ?p = "the_producer k" let ?w = "world (n_lim t)"
  from assms(2,3) have "path b = hd (n_paths s)" "n_load s1 = [file_message (path b) (Inr (take n (marshal_message b)))]"
    by (auto split: list.splits if_splits)
  with file_message_broken [OF assms(5)] obtain err where
    m: "sent (n_lim t) ! n_next t = empty_message\<lparr>path := path b, has_fs := True, Error := err\<rparr>" (is "_ = ?m") using assms(8) by auto
  have w1: "Publish (client ?p) (topic_of ?p ?m) 1 False [] ?w = (None, w1)" using assms(9) by (simp add: topic_of_def)
  note w2 = assms(10)
  have "mqtt_broker (the_fs k) content (client ?p) accepted" using assms(1) by (simp add: site_def)
  note broker = mqtt_broker.Publish_ok [OF this w1] mqtt_broker.Remove_accepted [OF this, of "path b" w1]
  have "file_system (the_fs k) content" using \<open>mqtt_broker _ _ _ _\<close> by (simp add: mqtt_broker_def)
  from file_system.Remove_removes [OF this w2] have "content w2 (path b) = None" by simp
  moreover have "publish_one (the_fs k) ?p ?m ?w = w2"
    using w1 w2 by (simp add: publish_one_def empty_message_def Remove_message_def)
  moreover have "accepted w2 = accepted ?w @ [(topic_of ?p ?m, [])]" using broker w2 by simp
  ultimately show ?thesis using assms(4,7,11) m by simp
qed

theorem half_read_message_lost_witness:
  "\<exists>t u. \<exists>b::Message. run (net_step sample_parts) sample_net (before_storing @ [Converts 0 (sample_ambient\<lparr>now_nano := 0\<rparr>) None,
        Loader_lists [''d/7-0''] None, Loader_tears 0] @ half_reading) = Some t
     \<and> net_step sample_parts t Publishes = Some u \<and> path b = ''d/7-0'' \<and> Bytes b \<noteq> []
     \<and> n_conv t = [b] \<and> disk_content (fst (world (n_lim u))) ''d/7-0'' = None
     \<and> (topic_of sample_producer b, Bytes b) \<notin> set (snd (world (n_lim u)))"
proof -
  let ?k = sample_parts
  let ?es = "before_storing @ [Converts 0 (sample_ambient\<lparr>now_nano := 0\<rparr>) None, Loader_lists [''d/7-0''] None]"
  have "case run (net_step ?k) sample_net ?es of None \<Rightarrow> False
    | Some s \<Rightarrow> (case n_conv s of [b] \<Rightarrow> path b = ''d/7-0'' \<and> Bytes b \<noteq> [] | _ \<Rightarrow> False)
        \<and> (case net_step ?k s (Loader_tears 0) of None \<Rightarrow> False
           | Some s1 \<Rightarrow> (case run (net_step ?k) s1 half_reading of None \<Rightarrow> False
               | Some t \<Rightarrow> n_next t < length (sent (n_lim t)) \<and> sent (n_lim t) ! n_next t = hd (n_load s1) \<and> n_conv t = n_conv s
                   \<and> snd (world (n_lim t)) = [] \<and> Option.is_none (fst (Remove disk_fs ''d/7-0'' (fst (world (n_lim t)))))))"
    by code_simp
  then obtain s s1 t b where r: "run (net_step ?k) sample_net ?es = Some s" "net_step ?k s (Loader_tears 0) = Some s1"
    "run (net_step ?k) s1 half_reading = Some t" "n_conv s = [b]" "path b = ''d/7-0''" "Bytes b \<noteq> []"
    "n_next t < length (sent (n_lim t))" "sent (n_lim t) ! n_next t = hd (n_load s1)" "n_conv t = n_conv s" "snd (world (n_lim t)) = []"
    "fst (Remove disk_fs ''d/7-0'' (fst (world (n_lim t)))) = None"
    by (simp only: Option.is_none_def split: option.splits list.splits) blast+
  have site: "site (the_fs ?k) (\<lambda>w. disk_content (fst w)) (client (the_producer ?k)) snd"
    using log_site.site_axioms [of "\<lambda>_. None"] by (simp add: sample_parts_def client_sample_producer)
  have empty: "parse (take 0 (marshal_message b)) = None" by code_simp
  let ?t = "topic_of (the_producer ?k) empty_message" and ?d = "fst (world (n_lim t))"
  have p: "Publish (client (the_producer ?k)) ?t 1 False [] (world (n_lim t)) = (None, (?d, [(?t, [])]))"
    using r(10) by (cases "world (n_lim t)") (simp add: sample_parts_def client_sample_producer logging_client_def)
  obtain d where "Remove (the_fs ?k) (path b) (?d, [(?t, [])]) = (None, (d, [(?t, [])]))"
    using r(5,11) by (cases "Remove disk_fs ''d/7-0'' ?d") (auto simp: sample_parts_def on_fst_def)
  from half_read_message_lost [OF site r(2,4,6) empty r(3,7,8) p this] r(10) obtain u where
    "net_step ?k t Publishes = Some u" "disk_content (fst (world (n_lim u))) (path b) = None"
    "(topic_of (the_producer ?k) b, Bytes b) \<notin> set (snd (world (n_lim u)))" by auto
  moreover have "run (net_step ?k) sample_net (?es @ [Loader_tears 0] @ half_reading) = Some t"
    using r(1-3) by (subst run_append) (simp del: net_step.simps)
  moreover have "the_producer ?k = sample_producer" by (simp add: sample_parts_def)
  ultimately show ?thesis using r(4-6,9) by (intro exI [of _ t] exI [of _ u] exI [of _ b]) (simp del: net_step.simps)
qed

end
