(* ===== verification/Shutdown.thy ===== *)
theory Shutdown
  imports Network
begin

text \<open>
  How the client ends (\<open>cmd/client/main.go\<close>, lines 319 to 347): the application closes its streams, the two servers close their channels, and
  the ends travel through the mergers, the converter, the loader, the requester and the limiter to the producer, which
  disconnects. Nothing is left behind, no state is stuck, and no run goes on for ever unless the ticker, the timer
  or a configuration arrives for ever.
\<close>

section \<open>Steps of the limiter, by what they do to the ends\<close>

abbreviation waits :: "'w lconf \<Rightarrow> bool" where
  "waits c \<equiv> st c \<in> {UnderBudget, OverBudget}"

lemma lim_receive:
  assumes "lim_step W store c (now, Receive m) = Some c'"
  shows "waits c \<and> waits c' \<and> out_closed c' = out_closed c \<and> (sent c' = sent c \<or> sent c' = sent c @ [m])"
  using assms
proof (cases rule: lim_step_cases)
  case (pass n)
  then show ?thesis by (auto simp: handleMessage_def Let_def split: prod.split)
qed auto

lemma lim_shut: "lim_step W store c (now, InClosed) = Some c' \<longleftrightarrow> waits c \<and> c' = c\<lparr>st := Cleanup\<rparr>"
  by (cases "st c") (auto simp: underBudget_def overBudget_def)

lemma lim_other:
  assumes "lim_step W store c (now, inp) = Some c'" and "\<nexists>m. inp = Receive m" and "inp \<noteq> InClosed"
  shows "sent c' = sent c \<and>
    (inp = Go \<and> st c = Initial \<and> waits c' \<and> out_closed c' = out_closed c \<or>
     inp = Go \<and> st c = Cleanup \<and> st c' = Terminal \<and> out_closed c' \<or>
     inp \<noteq> Go \<and> waits c \<and> st c' = Initial \<and> out_closed c' = out_closed c)"
  using assms(1)
proof (cases rule: lim_step_cases)
  case timer
  with assms show ?thesis by (auto dest!: timer_fires_Some)
next
  case (config conf)
  with assms show ?thesis by (auto dest!: apply_conf_Some)
qed (use assms in \<open>auto simp: initial_def cleanup_def Let_def\<close>)

lemma req_stopped: "r_stopped r \<Longrightarrow> req_step r e = None"
  by (cases e) auto

section \<open>Invariant of the ends\<close>

text \<open>
  A channel is closed only by its sender, when that has nothing more to send: this is what the ends of
  the channels tell about what is upstream.
\<close>

definition ends_ok :: "'w net \<Rightarrow> bool" where
  "ends_ok s \<longleftrightarrow> merger_ok 2 0 (n_agents s) \<and> merger_ok 3 10 (n_merger s)
     \<and> n_rsent s \<le> length (r_out (n_req s)) \<and> n_next s \<le> length (sent (n_lim s)) \<and> closed_inv (n_lim s)
     \<and> (src_closed (workers (n_agents s) ! 0) \<longrightarrow> n_srv s = []) \<and> (n_done s \<longrightarrow> src_closed (workers (n_agents s) ! 0))
     \<and> (src_closed (workers (n_agents s) ! 1) \<longrightarrow> n_dps s = [])
     \<and> (src_closed (workers (n_merger s) ! 0) \<longrightarrow> closed (n_agents s) \<and> n_conv s = [])
     \<and> (src_closed (workers (n_merger s) ! 1) \<longrightarrow> n_listed s \<noteq> None \<and> n_load s = [] \<and> n_paths s = [])
     \<and> (src_closed (workers (n_merger s) ! 2) \<longrightarrow> r_stopped (n_req s) \<and> n_rsent s = length (r_out (n_req s)))
     \<and> (st (n_lim s) \<in> {Cleanup, Terminal} \<longrightarrow> closed (n_merger s) \<and> buf (n_merger s) = [])
     \<and> (n_ended s \<longrightarrow> out_closed (n_lim s) \<and> n_next s = length (sent (n_lim s)))"

text \<open>What has passed each end, of what the sources have.\<close>

definition found :: "(string list \<times> string option) option \<Rightarrow> nat" where
  "found listing = (case listing of None \<Rightarrow> 0 | Some (paths, err) \<Rightarrow> length paths + (if err = None then 0 else 1))"

lemma found_simps [simp]:
  "found None = 0" "found (Some (paths, None)) = length paths" "found (Some (paths, Some e)) = length paths + 1"
  by (simp_all add: found_def)

definition accounts :: "agent_Message list \<Rightarrow> agent_Message list \<Rightarrow> 'w net \<Rightarrow> bool" where
  "accounts srv dps s \<longleftrightarrow>
     got (workers (n_agents s) ! 0) @ n_srv s = srv \<and> got (workers (n_agents s) ! 1) @ n_dps s = dps
     \<and> length (got (workers (n_merger s) ! 0)) + length (n_conv s)
         = length (filter (\<lambda>x. \<not> dropped (snd x)) (taken (n_agents s)))
     \<and> length (got (workers (n_merger s) ! 1)) + length (n_load s) + length (n_paths s) = found (n_listed s)
     \<and> got (workers (n_merger s) ! 2) = take (n_rsent s) (r_out (n_req s))"

lemma convert_one_count:
  assumes "convert_one W msgpack fs pid c (Some p, w) (m, a, l) = (out, Some p', w')"
  shows "length out = (if dropped m then 0 else 1)"
  using assms by (cases rule: convert_one_cases) auto

lemma requests_ends:
  assumes "req_step r e = Some r'"
  shows "\<not> r_stopped r \<and> (\<exists>ms. r_out r' = r_out r @ ms)"
  using req_stopped [of r e] req_step_out [OF assms] assms by auto

lemma limiter_receives_ends:
  assumes ok: "ends_ok s \<and> accounts srv dps s" and g: "merge_step (n_merger s) e = Some g"
    and l: "lim_step W store (n_lim s) (now, Receive m) = Some l" and e: "e = Take \<or> e = Direct i"
  shows "ends_ok (s\<lparr>n_merger := g, n_lim := l\<rparr>) \<and> accounts srv dps (s\<lparr>n_merger := g, n_lim := l\<rparr>)"
proof -
  from lim_receive [OF l] obtain ms where "st l \<noteq> Cleanup" "st l \<noteq> Terminal" "sent l = sent (n_lim s) @ ms"
    and o: "out_closed l = out_closed (n_lim s)" "st (n_lim s) \<noteq> Terminal" by force
  moreover from ok o(2) have "\<not> out_closed (n_lim s)" "\<not> n_ended s"
    unfolding ends_ok_def closed_inv_def by (elim conjE, simp)+
  moreover from ok have mm: "merger_ok 3 10 (n_merger s)" by (simp add: ends_ok_def)
  moreover note merge_step_frame(3-5) [OF g] merger_ok_step [OF mm g] merger_len [OF mm]
  ultimately show ?thesis using ok o(1) e unfolding ends_ok_def accounts_def closed_inv_def
    by (elim conjE disjE; simp)
qed

lemma ends_ok_step:
  assumes ok: "ends_ok s \<and> accounts srv dps s" and step: "net_step k s e = Some t"
  shows "ends_ok t \<and> accounts srv dps t"
proof -
  from ok have am: "merger_ok 2 0 (n_agents s)" and mm: "merger_ok 3 10 (n_merger s)" by (auto simp: ends_ok_def)
  note len = merger_len [OF am] merger_len [OF mm]
  note defs = ends_ok_def accounts_def
  note up = merger_ok_step [OF am] merger_ok_step [OF mm] closed_buf [OF mm]
  from step show ?thesis
  proof (cases rule: net_step_cases)
    case (agents ev g)
    then show ?thesis using ok unfolding defs
      by (cases ev; elim conjE; simp add: len merge_step_frame [OF agents(3)] up(1) [OF agents(3)])
  next
    case (converts i a l g out p w)
    from am have "count_ok (n_agents s)" by (simp add: merger_ok_def)
    from direct_taken [OF this converts(3)] obtain x where
      c: "\<not> closed (n_agents s)" and x: "taken g = taken (n_agents s) @ [x]" by blast
    from convert_one_count [OF converts(4)] have out: "length out = (if dropped (snd x) then 0 else 1)" by (simp add: x)
    show ?thesis using ok unfolding defs
      by (elim conjE, simp add: converts(2,5) len closed_inv_def c x out merge_step_frame(1-5) [OF converts(3)] up(1) [OF converts(3)])
  next
    case (requests ev r)
    from requests_ends [OF requests(2)] obtain ms where "\<not> r_stopped (n_req s)" "r_out r = r_out (n_req s) @ ms" by blast
    with ok show ?thesis unfolding defs by (elim conjE, simp add: requests(3))
  next
    case (requester_sends g)
    from ok requester_sends(2) have "\<not> src_closed (workers (n_merger s) ! 2)" unfolding ends_ok_def by (elim conjE) linarith
    note new = this take_Suc_conv_app_nth [OF requester_sends(2)] Suc_leI [OF requester_sends(2)]
    show ?thesis using ok unfolding defs
      by (elim conjE, simp add: requester_sends(4) len new merge_step_frame [OF requester_sends(3)] up(2) [OF requester_sends(3)] up(3) [OF _ _ requester_sends(3)])
  next
    case (merger ev g)
    then show ?thesis using ok unfolding defs
      by (cases ev; elim conjE; simp add: len merge_step_frame [OF merger(3)] up(2) [OF merger(3)] up(3) [OF _ _ merger(3)])
  next
    case (limit_receives ev g l now)
    from limit_receives(1) have "ev = Take \<or> ev = Direct (case e of Limit_gets i _ \<Rightarrow> i)" by auto
    from limiter_receives_ends [OF ok limit_receives(2,4) this] show ?thesis by (simp add: limit_receives(5))
  next
    case (limit_closes now l)
    from limit_closes(4) have w: "st (n_lim s) \<noteq> Terminal" "l = (n_lim s)\<lparr>st := Cleanup\<rparr>" by (auto simp only: lim_shut)
    with ok limit_closes(2,3) show ?thesis unfolding defs closed_inv_def by (elim conjE, simp add: limit_closes(5))
  next
    case (limit_acts now inp l)
    note o = lim_other [OF limit_acts(4,2,3)]
    from ok have "closed_inv (n_lim s)" by (simp add: ends_ok_def)
    with o have "closed_inv l" "st l \<in> {Cleanup, Terminal} \<longrightarrow> st (n_lim s) = Cleanup" "out_closed (n_lim s) \<longrightarrow> out_closed l"
      unfolding closed_inv_def by (elim conjE disjE; force)+
    with ok conjunct1 [OF o] show ?thesis unfolding defs by (elim conjE, simp add: limit_acts(5))
  next
    case (server_sends m ms g)
    show ?thesis using ok unfolding defs
      by (elim conjE, simp add: server_sends(2,4) len merge_step_frame [OF server_sends(3)] up(1) [OF server_sends(3)])
  next
    case (server_ends g)
    show ?thesis using ok unfolding defs
      by (elim conjE, simp add: server_ends(2,4) len merge_step_frame [OF server_ends(3)] up(1) [OF server_ends(3)])
  next
    case (points_send m ms g)
    show ?thesis using ok unfolding defs
      by (elim conjE, simp add: points_send(2,4) len merge_step_frame [OF points_send(3)] up(1) [OF points_send(3)])
  next
    case (points_end g)
    show ?thesis using ok unfolding defs
      by (elim conjE, simp add: points_end(2,4) len merge_step_frame [OF points_end(3)] up(1) [OF points_end(3)])
  next
    case (converter_sends m ms g)
    show ?thesis using ok unfolding defs
      by (elim conjE, simp add: converter_sends(2,4) len merge_step_frame [OF converter_sends(3)] up(2) [OF converter_sends(3)] up(3) [OF _ _ converter_sends(3)])
  next
    case (converter_ends g)
    show ?thesis using ok unfolding defs
      by (elim conjE, simp add: converter_ends(2,3,5) len merge_step_frame [OF converter_ends(4)] up(2) [OF converter_ends(4)] up(3) [OF _ _ converter_ends(4)])
  next
    case (loader_sends m ms g)
    show ?thesis using ok unfolding defs
      by (elim conjE, simp add: loader_sends(2,4) len merge_step_frame [OF loader_sends(3)] up(2) [OF loader_sends(3)] up(3) [OF _ _ loader_sends(3)])
  next
    case (loader_ends g)
    show ?thesis using ok unfolding defs
      by (elim conjE, simp add: loader_ends(2,3,4,6) len merge_step_frame [OF loader_ends(5)] up(2) [OF loader_ends(5)] up(3) [OF _ _ loader_ends(5)])
  next
    case (requester_ends g)
    show ?thesis using ok unfolding defs
      by (elim conjE, simp add: requester_ends(2,3,5) len merge_step_frame [OF requester_ends(4)] up(2) [OF requester_ends(4)] up(3) [OF _ _ requester_ends(4)])
  next
    case server_done
    show ?thesis using ok unfolding defs by (elim conjE, simp add: server_done(2,4))
  next
    case (loader_lists paths err)
    show ?thesis using ok unfolding defs by (cases err; elim conjE; simp add: loader_lists(2,4))
  next
    case (loader_reads q qs)
    show ?thesis using ok unfolding defs by (elim conjE, simp add: loader_reads(2,3,4))
  next
    case (loader_tears n q qs b bs)
    show ?thesis using ok unfolding defs by (elim conjE, simp add: loader_tears(2,3,7))
  next
    case publishes
    show ?thesis using ok publishes(2) unfolding defs closed_inv_def by (elim conjE, simp add: publishes(3))
  next
    case producer_ends
    show ?thesis using ok unfolding defs closed_inv_def by (elim conjE, simp add: producer_ends(2,3,5))
  qed
qed

interpretation ending: step_invariant "net_step k" "\<lambda>s. ends_ok s \<and> accounts srv dps s" for k srv dps
  by unfold_locales (rule ends_ok_step)

section \<open>Nothing gets stuck\<close>

text \<open>
  The events that the client brings about by itself; the others wait for the ticker, for the agent's connection, for the timer
  or for a configuration. An interrupted limiter starts again, which is one more step.
\<close>

fun productive :: "net_event \<Rightarrow> bool" where
  "productive (Requests e) = (e = OnDone)"
| "productive e = (\<not> interrupts e)"

text \<open>It can go on whatever the limit is under which messages are stored.\<close>

definition proceeds :: "('w, 'h) parts \<Rightarrow> int option \<Rightarrow> 'w net \<Rightarrow> bool" where
  "proceeds k L s \<longleftrightarrow> (\<exists>e t. productive e \<and> stores_under L e \<and> net_step k s e = Some t)"

lemma proceedsI: "productive e \<Longrightarrow> stores_under L e \<Longrightarrow> net_step k s e \<noteq> None \<Longrightarrow> proceeds k L s"
  unfolding proceeds_def by blast

lemma convert_one_stores: "\<exists>out p' w'. convert_one W msgpack fs pid c (Some p, w) x = (out, Some p', w')"
proof -
  obtain m a l where x: "x = (m, a, l)" by (cases x)
  obtain out q w' where c: "convert_one W msgpack fs pid c (Some p, w) (m, a, l) = (out, q, w')"
    by (cases "convert_one W msgpack fs pid c (Some p, w) (m, a, l)")
  then show ?thesis by (cases rule: convert_one_cases) (auto simp: x c)
qed

lemma agents_progress:
  assumes ok: "ends_ok s" and conv: "n_conv s = []" and busy: "\<not> closed (n_agents s) \<or> \<not> n_done s"
  shows "proceeds k L s"
proof (cases "closed (n_agents s)")
  case True
  from ok have "merger_ok 2 0 (n_agents s)" by (simp add: ends_ok_def)
  from closed_all_closed [OF this True, of 0] True busy show ?thesis by (intro proceedsI [of Server_done]) simp_all
next
  case False
  from ok have am: "merger_ok 2 0 (n_agents s)" by (simp add: ends_ok_def)
  then have buf: "buf (n_agents s) = []" by (auto simp: merger_ok_def count_ok_def)
  from am False buf show ?thesis
  proof (cases rule: merger_progress)
    case (inside e t)
    then show ?thesis by (intro proceedsI [of "Agents e"]) simp_all
  next
    case (over i t)
    fix a :: ambient
    from convert_one_stores [of "the_width k" "the_msgpack k" "the_fs k" "the_pid k" "the_config k" "n_pers s" "world (n_lim s)" "(snd (last (taken t)), a, L)"]
    show ?thesis using conv over by (intro proceedsI [of "Converts i a L"]) (auto simp del: merge_step.simps)
  next
    case (source i)
    then consider "i = 0" | "i = 1" by linarith
    then show ?thesis
    proof cases
      case 1
      show ?thesis
      proof (cases "n_srv s")
        case Nil
        then show ?thesis using close_enabled [of 0 "n_agents s"] source(3) merger_len [OF am]
          by (intro proceedsI [of Server_ends]) (auto simp: 1 simp del: merge_step.simps)
      next
        case (Cons m ms)
        then show ?thesis using arrive_enabled [of 0 "n_agents s" m] source(2,3) merger_len [OF am]
          by (intro proceedsI [of Server_sends]) (auto simp: 1 simp del: merge_step.simps)
      qed
    next
      case 2
      show ?thesis
      proof (cases "n_dps s")
        case Nil
        then show ?thesis using close_enabled [of 1 "n_agents s"] source(3) merger_len [OF am]
          by (intro proceedsI [of Points_end]) (auto simp: 2 simp del: merge_step.simps)
      next
        case (Cons m ms)
        then show ?thesis using arrive_enabled [of 1 "n_agents s" m] source(2,3) merger_len [OF am]
          by (intro proceedsI [of Points_send]) (auto simp: 2 simp del: merge_step.simps)
      qed
    qed
  qed
qed

text \<open>A source of the second merger that waits has something to send or to close, or waits for what is upstream.\<close>

lemma source_progress:
  assumes ok: "ends_ok s" and "i < 3" and wait: "phase (workers (n_merger s) ! i) = Waiting"
    and opn: "\<not> src_closed (workers (n_merger s) ! i)" and "\<not> r_panicked (n_req s)"
    and idle: "\<forall>j < 3. phase (workers (n_merger s) ! j) = Waiting \<or> src_closed (workers (n_merger s) ! j)"
  shows "proceeds k L s"
proof -
  from ok have len: "length (workers (n_merger s)) = 3" and "n_rsent s \<le> length (r_out (n_req s))"
    by (simp_all add: ends_ok_def merger_ok_def)
  note close = close_enabled [of i "n_merger s"] and arrive = arrive_enabled [of i "n_merger s"]
  note en = close arrive wait opn len assms(2)
  have conv: "proceeds k L s" if "n_conv s = m # ms" for m ms
  proof -
    from ok that have "\<not> src_closed (workers (n_merger s) ! 0)" by (auto simp: ends_ok_def)
    moreover from this idle [rule_format, of 0] have "phase (workers (n_merger s) ! 0) = Waiting" by simp
    ultimately show ?thesis using that arrive_enabled [of 0 "n_merger s" m] len
      by (intro proceedsI [of Converter_sends]) (auto simp del: merge_step.simps)
  qed
  consider "i = 0" | "i = 1" | "i = 2" using assms(2) by linarith
  then show ?thesis
  proof cases
    case 1
    show ?thesis
    proof (cases "n_conv s")
      case Nil
      then show ?thesis
      proof (cases "closed (n_agents s)")
        case True
        with Nil en show ?thesis by (intro proceedsI [of Converter_ends]) (auto simp: 1 simp del: merge_step.simps)
      qed (use agents_progress [OF ok] in blast)
    qed (rule conv)
  next
    case 2
    show ?thesis
    proof (cases "n_listed s")
      case None
      obtain paths err where "filepaths (the_fs k) (msg_dir (n_pers s)) (world (n_lim s)) = (paths, err)" by fastforce
      with None show ?thesis by (intro proceedsI [of "Loader_lists paths err"]) simp_all
    next
      case listed: (Some l)
      show ?thesis
      proof (cases "n_load s")
        case Nil
        with listed show ?thesis
          using en by (cases "n_paths s"; intro proceedsI [of "if n_paths s = [] then Loader_ends else Loader_reads"])
            (auto simp: 2 simp del: merge_step.simps)
      next
        case (Cons m ms)
        with en show ?thesis by (intro proceedsI [of Loader_sends]) (auto simp: 2 simp del: merge_step.simps)
      qed
    qed
  next
    case 3
    show ?thesis
    proof (cases "n_rsent s = length (r_out (n_req s))")
      case False
      with \<open>n_rsent s \<le> _\<close> en show ?thesis by (intro proceedsI [of Requester_sends]) (auto simp: 3 simp del: merge_step.simps)
    next
      case True
      show ?thesis
      proof (cases "r_stopped (n_req s)")
        case True
        with \<open>n_rsent s = _\<close> assms(5) en show ?thesis by (intro proceedsI [of Requester_ends]) (auto simp: 3 simp del: merge_step.simps)
      next
        case False
        show ?thesis
        proof (cases "n_done s")
          case True
          with False show ?thesis by (intro proceedsI [of "Requests OnDone"]) simp_all
        next
          case False
          with agents_progress [OF ok] conv show ?thesis by (cases "n_conv s") blast+
        qed
      qed
    qed
  qed
qed

lemma merger_progress_net:
  assumes ok: "ends_ok s" and "\<not> r_panicked (n_req s)" and "\<not> closed (n_merger s)" and "buf (n_merger s) = []"
    and "waits (n_lim s)" and "limiter_free s"
  shows "proceeds k L s"
proof (cases "\<exists>j < 3. \<exists>m. phase (workers (n_merger s) ! j) = Holding m")
  case True
  then obtain j m where j: "j < 3" "phase (workers (n_merger s) ! j) = Holding m" by blast
  from ok have "length (workers (n_merger s)) = 3" by (simp add: ends_ok_def merger_ok_def)
  with j assms(3,4) obtain g where g: "merge_step (n_merger s) (Direct j) = Some g" by (auto simp: merge_step_defs)
  fix now :: gotime
  have "lim_step (the_width k) (the_store k) (n_lim s) (now, Receive (snd (last (taken g)))) \<noteq> None"
    using assms(5) by (auto simp: underBudget_def overBudget_def)
  with g assms(6) show ?thesis
    by (intro proceedsI [of "Limit_gets j now"]) (auto simp: limiter_receives_def simp del: merge_step.simps lim_step.simps)
next
  case False
  from ok have mm: "merger_ok 3 10 (n_merger s)" by (simp add: ends_ok_def)
  from mm assms(3,4) show ?thesis
  proof (cases rule: merger_progress)
    case (inside e t)
    then show ?thesis by (intro proceedsI [of "Merger e"]) simp_all
  next
    case (over i t)
    then have "i < 3 \<and> (\<exists>m. phase (workers (n_merger s) ! i) = Holding m)"
      using merger_len [OF mm] by (auto simp: merge_step_defs split: if_splits phase.splits)
    with False show ?thesis by blast
  next
    case (source i)
    have "\<forall>j < 3. phase (workers (n_merger s) ! j) = Waiting \<or> src_closed (workers (n_merger s) ! j)"
      using False mm by (metis merger_ok_def phase.exhaust)
    with source_progress [OF ok source assms(2)] show ?thesis by blast
  qed
qed

lemma net_progress:
  assumes ok: "ends_ok s" and "\<not> r_panicked (n_req s)" and "\<not> n_ended s"
  shows "proceeds k L s"
proof (cases "n_next s < length (sent (n_lim s))")
  case True
  then show ?thesis by (intro proceedsI [of Publishes]) simp_all
next
  case False
  with ok have dealt: "n_next s = length (sent (n_lim s))" by (simp add: ends_ok_def)
  then have free: "limiter_free s" by (simp add: limiter_free_def)
  fix now :: gotime
  consider "st (n_lim s) \<in> {Initial, Cleanup}" | "st (n_lim s) = Terminal" | "waits (n_lim s)" by (cases "st (n_lim s)") auto
  then show ?thesis
  proof cases
    case 1
    with free show ?thesis by (intro proceedsI [of "Limit_acts now Go"]) auto
  next
    case 2
    with ok dealt assms(3) show ?thesis by (intro proceedsI [of Producer_ends]) (simp_all add: ends_ok_def closed_inv_def)
  next
    case 3
    consider (full) x xs where "buf (n_merger s) = x # xs" | (over) "closed (n_merger s)" "buf (n_merger s) = []"
      | (opn) "\<not> closed (n_merger s)" "buf (n_merger s) = []" by (cases "buf (n_merger s)") auto
    then show ?thesis
    proof cases
      case full
      with 3 free show ?thesis
        by (intro proceedsI [of "Limit_takes now"]) (auto simp: limiter_receives_def merge_step_defs underBudget_def overBudget_def)
    next
      case over
      with 3 free show ?thesis by (intro proceedsI [of "Limit_closes now"]) (auto simp: underBudget_def overBudget_def)
    next
      case opn
      with merger_progress_net [OF ok assms(2) _ _ 3 free] show ?thesis by blast
    qed
  qed
qed


section \<open>How much is left to do\<close>

text \<open>
  A bound on what the client still does by itself, but for what the loader will find: every message on its way counts for the steps that it
  may cause until it is published, every channel for its end, and the limiter for its states.
\<close>

definition limiter_work :: "'w lconf \<Rightarrow> nat" where
  "limiter_work c = (case st c of Initial \<Rightarrow> 3 | UnderBudget \<Rightarrow> 2 | OverBudget \<Rightarrow> 2 | Cleanup \<Rightarrow> 1 | Terminal \<Rightarrow> 0)"

definition net_work :: "'w net \<Rightarrow> nat" where
  "net_work s =
     9 * length (n_srv s) + 9 * length (n_dps s) + (if n_done s then 0 else 1)
     + 4 * work_left (n_agents s) + open_sources (n_agents s)
     + 5 * length (n_conv s) + (if n_listed s = None then 1 else 0) + 6 * length (n_paths s) + 5 * length (n_load s)
     + (if r_stopped (n_req s) then 0 else 6) + 5 * (length (r_out (n_req s)) - n_rsent s)
     + 2 * work_left (n_merger s) + open_sources (n_merger s)
     + limiter_work (n_lim s) + (length (sent (n_lim s)) - n_next s) + (if n_ended s then 0 else 1)"

lemma req_step_work:
  assumes "req_step r e = Some r'" and "n \<le> length (r_out r)"
  shows "(if r_stopped r' then 0 else 6) + 5 * (length (r_out r') - n) + (if e = OnDone then 1 else 0)
    \<le> (if r_stopped r then 0 else 6) + 5 * (length (r_out r) - n)"
  using assms
  by (cases e) (auto simp: write_fails_def on_conf_def Let_def split: if_splits option.splits)

lemma limiter_receives_work:
  assumes g: "merge_step (n_merger s) e = Some g" and "ends_ok s" and e: "e = Take \<or> e = Direct i"
    and l: "lim_step W store (n_lim s) (now, Receive m) = Some l"
  shows "net_work (s\<lparr>n_merger := g, n_lim := l\<rparr>) < net_work s"
proof -
  from assms(2) have "count_ok (n_merger s)" by (simp add: ends_ok_def merger_ok_def)
  from work_left_exact [OF this g] open_sources_step [OF g] e have
    "work_left g + 1 \<le> work_left (n_merger s)" "open_sources g = open_sources (n_merger s)" by auto
  moreover from lim_receive [OF l] have "limiter_work l = limiter_work (n_lim s)"
    "length (sent l) - n_next s \<le> length (sent (n_lim s)) - n_next s + 1" by (auto simp: limiter_work_def)
  ultimately show ?thesis by (simp add: net_work_def)
qed

text \<open>What an event adds to it: an interrupted limiter starts again, and the files that the loader finds are to be read.\<close>

definition adds :: "net_event \<Rightarrow> nat" where
  "adds e = (case e of
       Loader_lists paths err \<Rightarrow> 6 * length paths + (if err = None then 0 else 5)
     | _ \<Rightarrow> if interrupts e then 1 else 0)"

lemma net_work_step:
  assumes ok: "ends_ok s" and step: "net_step k s e = Some t"
  shows "net_work t + (if productive e then 1 else 0) \<le> net_work s + adds e"
proof -
  from ok have am: "count_ok (n_agents s)" and mm: "count_ok (n_merger s)" by (simp_all add: ends_ok_def merger_ok_def)
  note wa = work_left_exact [OF am] and wm = work_left_exact [OF mm] and op = open_sources_step
  from step show ?thesis
  proof (cases rule: net_step_cases)
    case (agents ev g)
    with wa [OF agents(3)] op [OF agents(3)] show ?thesis by (cases ev) (simp_all add: net_work_def adds_def)
  next
    case (converts i a l g out p w)
    from convert_one_count [OF converts(4)] have "length out \<le> 1" by simp
    with converts(1,2,5) wa [OF converts(3)] op [OF converts(3)] show ?thesis by (simp add: net_work_def limiter_work_def adds_def)
  next
    case (requests ev r)
    from ok req_step_work [OF requests(2), of "n_rsent s"] show ?thesis by (simp add: net_work_def requests(1,3) ends_ok_def adds_def)
  next
    case (merger ev g)
    with wm [OF merger(3)] op [OF merger(3)] show ?thesis by (cases ev) (simp_all add: net_work_def adds_def)
  next
    case (limit_receives ev g l now)
    from limit_receives(1) have "ev = Take \<or> ev = Direct (case e of Limit_gets i _ \<Rightarrow> i)" by auto
    from limiter_receives_work [OF limit_receives(2) ok this limit_receives(4)] limit_receives(1,5) show ?thesis by (auto simp: adds_def)
  next
    case (limit_closes now l)
    from limit_closes(4) have "waits (n_lim s)" "l = (n_lim s)\<lparr>st := Cleanup\<rparr>" by (simp_all only: lim_shut)
    with limit_closes(1,5) show ?thesis by (auto simp: net_work_def limiter_work_def adds_def)
  next
    case (limit_acts now inp l)
    from lim_other [OF limit_acts(4,2,3)] limit_acts(2,3) have "sent l = sent (n_lim s)"
      "limiter_work l + (if productive e then 1 else 0) \<le> limiter_work (n_lim s) + (if interrupts e then 1 else 0)"
      unfolding limit_acts(1) by (cases inp; auto simp: limiter_work_def)+
    then show ?thesis by (simp add: net_work_def limit_acts(1,5) adds_def)
  next
    case (loader_lists paths err)
    then show ?thesis by (cases err) (simp_all add: net_work_def adds_def)
  qed (simp_all add: net_work_def limiter_work_def adds_def am mm arrive_work close_work del: merge_step.simps)
qed

section \<open>Runs\<close>

lemma new_net_ends_ok: "ends_ok (new_net k srv dps dir w) \<and> accounts srv dps (new_net k srv dps dir w)"
proof -
  have "merger_ok 2 0 (new_merger 2 0 :: agent_Message merger)" "merger_ok 3 10 (new_merger 3 10 :: Message merger)"
    by (rule new_merger_merger_ok)+
  then show ?thesis
  by (auto simp: ends_ok_def accounts_def new_net_def Merge_agent_def Merge_messages_def new_merger_def closed_inv_def
      NewDataLimiter_def NewPeriodicRequester_def split: prod.split)
qed

lemmas reachable_ends = ending.run_inv [OF new_net_ends_ok]

lemma req_step_productive: "productive (Requests e) \<Longrightarrow> req_step r e = Some r' \<Longrightarrow> r_panicked r' = r_panicked r"
  by (auto split: if_splits)

lemma productive_panic: "productive e \<Longrightarrow> net_step k s e = Some t \<Longrightarrow> r_panicked (n_req t) = r_panicked (n_req s)"
  by (erule net_step_cases) (auto split: if_splits)

text \<open>Once the loader has looked into the directory, nothing that the client does by itself adds to its work.\<close>

definition settled :: "'w net \<Rightarrow> bool" where
  "settled s \<longleftrightarrow> \<not> r_panicked (n_req s) \<and> n_listed s \<noteq> None"

lemma listed_stays: "net_step k s e = Some t \<Longrightarrow> n_listed s \<noteq> None \<Longrightarrow> n_listed t = n_listed s"
  by (erule net_step_cases) auto

lemma settled_adds: "settled s \<Longrightarrow> productive e \<Longrightarrow> net_step k s e = Some t \<Longrightarrow> adds e = 0"
  by (cases e) (auto simp: adds_def settled_def split: if_splits)

interpretation shutdown: winding_down "net_step k" "\<lambda>s. ends_ok s \<and> accounts srv dps s" productive adds net_work settled n_ended
  for k srv dps
proof unfold_locales
  fix s t :: "'a net" and e
  assume "ends_ok s \<and> accounts srv dps s" "net_step k s e = Some t"
  then show "net_work t + (if productive e then 1 else 0) \<le> net_work s + adds e" using net_work_step by blast
next
  fix s :: "'a net"
  assume "ends_ok s \<and> accounts srv dps s" "settled s" "\<not> n_ended s"
  then show "\<exists>e t. productive e \<and> net_step k s e = Some t" using net_progress [of s k None] by (auto simp: proceeds_def settled_def)
next
  fix s t :: "'a net" and e
  assume "settled s" "productive e" "net_step k s e = Some t"
  then show "settled t" "adds e = 0"
    using productive_panic [of e k s t] listed_stays [of k s e t] settled_adds [of s e k t] by (simp_all add: settled_def del: net_step.simps)
qed

lemma shuts_down:
  assumes ok: "ends_ok s \<and> accounts srv dps s" and alive: "\<not> r_panicked (n_req s)"
  shows "\<exists>es t. run (net_step k) s es = Some t \<and> n_ended t \<and> list_all productive es \<and> length es \<le> net_work s + sum_list (map adds es)"
proof (cases "n_listed s")
  case (Some l)
  with alive have "settled s" by (simp add: settled_def)
  from shutdown.finishes [OF ok this, of k] show ?thesis by (meson trans_le_add1)
next
  case None
  obtain paths err where found: "filepaths (the_fs k) (msg_dir (n_pers s)) (world (n_lim s)) = (paths, err)" by fastforce
  let ?e = "Loader_lists paths err"
  from None found obtain u where u: "net_step k s ?e = Some u" by simp
  from alive u have "settled u" using None by (auto simp: settled_def split: if_splits)
  from shutdown.finishes [OF ends_ok_step [OF ok u] this, of k] obtain es t where
    t: "run (net_step k) u es = Some t" "n_ended t" "list_all productive es" "length es \<le> net_work u" by blast
  from net_work_step [OF conjunct1 [OF ok] u] t(4) have "length (?e # es) \<le> net_work s + sum_list (map adds (?e # es))" by simp
  with t u show ?thesis by (intro exI [of _ "?e # es"] exI [of _ t]) (simp del: net_step.simps)
qed

section \<open>What has arrived at the end\<close>

lemma ended_upstream:
  assumes "ends_ok s" and "n_ended s"
  shows "closed (n_merger s)" "buf (n_merger s) = []" "closed (n_agents s)" "buf (n_agents s) = []"
    and "n_srv s = []" "n_dps s = []" "n_conv s = []" "n_load s = []" "n_paths s = []"
    and "n_rsent s = length (r_out (n_req s))" "n_next s = length (sent (n_lim s))"
proof -
  from assms have "st (n_lim s) = Terminal" unfolding ends_ok_def closed_inv_def by (elim conjE) simp
  with assms show mm: "closed (n_merger s)" "buf (n_merger s) = []" by (simp_all add: ends_ok_def)
  from assms(1) have ok: "merger_ok 2 0 (n_agents s)" "merger_ok 3 10 (n_merger s)" by (simp_all add: ends_ok_def)
  from closed_all_closed [OF ok(2) mm(1), of 0] closed_all_closed [OF ok(2) mm(1), of 1] closed_all_closed [OF ok(2) mm(1), of 2] assms
  show am: "closed (n_agents s)" and "n_conv s = []" "n_load s = []" "n_paths s = []"
    and "n_rsent s = length (r_out (n_req s))" "n_next s = length (sent (n_lim s))"
    by (simp_all add: ends_ok_def)
  from closed_all_closed [OF ok(1) am, of 0] closed_all_closed [OF ok(1) am, of 1] assms(1)
  show "n_srv s = []" "n_dps s = []" by (simp_all add: ends_ok_def)
  from ok(1) show "buf (n_agents s) = []" by (auto simp: merger_ok_def count_ok_def)
qed

lemma ended_pool:
  assumes "ends_ok s" and "n_ended s"
  shows "pool s = {#}"
proof -
  note e = ended_upstream [OF assms]
  from assms(1) have "\<forall>w \<in> set (workers (n_merger s)). phase w = Finished"
    using e(1) by (simp add: ends_ok_def merger_ok_def count_ok_def running_0)
  then have "sum_list (map (mset \<circ> held) (workers (n_merger s))) = {#}"
    by (simp add: held_def cong: map_cong)
  with e show ?thesis by (simp add: pool_def contents_def)
qed

text \<open>What the loader has found is what one of its events tells.\<close>

interpretation listing: step_history "net_step k" "\<lambda>s es t. \<forall>l. n_listed t = Some l \<longrightarrow> n_listed s = Some l \<or> Loader_lists (fst l) (snd l) \<in> set es"
  for k
proof unfold_locales
  fix s t u :: "'a net" and e es
  assume e: "net_step k s e = Some t" and es: "\<forall>l. n_listed u = Some l \<longrightarrow> n_listed t = Some l \<or> Loader_lists (fst l) (snd l) \<in> set es"
  have "n_listed t = n_listed s \<or> (\<exists>paths err. e = Loader_lists paths err \<and> n_listed t = Some (paths, err))"
    using e by (cases rule: net_step_cases) auto
  with es show "\<forall>l. n_listed u = Some l \<longrightarrow> n_listed s = Some l \<or> Loader_lists (fst l) (snd l) \<in> set (e # es)" by fastforce
qed simp

lemma net_drained:
  assumes "run (net_step k) (new_net k srv dps dir w) es = Some s" and "n_ended s"
  shows "from_source 0 (taken (n_agents s)) = srv \<and> from_source 1 (taken (n_agents s)) = dps
    \<and> length (from_source 0 (taken (n_merger s))) = length (filter (\<lambda>m. \<not> dropped m) (srv @ dps))
    \<and> (\<exists>paths err. Loader_lists paths err \<in> set es
        \<and> length (from_source 1 (taken (n_merger s))) = length paths + (if err = None then 0 else 1))
    \<and> from_source 2 (taken (n_merger s)) = r_out (n_req s)
    \<and> pool s = {#} \<and> n_next s = length (sent (n_lim s))"
proof -
  from reachable_ends [OF assms(1)] have ok: "ends_ok s"
    and acc: "accounts srv dps s" by auto
  note e = ended_upstream [OF ok assms(2)]
  from ok have am: "merger_ok 2 0 (n_agents s)" and mm: "merger_ok 3 10 (n_merger s)" by (simp_all add: ends_ok_def)
  note a = closed_all_taken [OF am e(3,4)] and m = closed_all_taken [OF mm e(1,2)]
  from acc e a [of 0] a [of 1] have src: "from_source 0 (taken (n_agents s)) = srv" "from_source 1 (taken (n_agents s)) = dps"
    by (simp_all add: accounts_def)
  from am have "flow_ok (n_agents s)" "length (workers (n_agents s)) = 2" by (simp_all add: merger_ok_def)
  then have "\<forall>x \<in> set (taken (n_agents s)). fst x < 2" unfolding flow_ok_def by (metis UnCI set_append)
  from filter_by_source [OF this, of "\<lambda>m. \<not> dropped m"] src acc e m [of 0]
  have conv: "length (from_source 0 (taken (n_merger s))) = length (filter (\<lambda>m. \<not> dropped m) (srv @ dps))"
    by (simp add: accounts_def)
  from closed_all_closed [OF mm e(1), of 1] ok obtain paths err where l: "n_listed s = Some (paths, err)"
    by (auto simp: ends_ok_def)
  with acc e m [of 1] have count: "length (from_source 1 (taken (n_merger s))) = length paths + (if err = None then 0 else 1)"
    by (simp add: accounts_def found_def)
  from listing.run_rel [OF assms(1)] l have "Loader_lists paths err \<in> set es" by (simp add: new_net_def)
  with count have files: "\<exists>paths err. Loader_lists paths err \<in> set es
      \<and> length (from_source 1 (taken (n_merger s))) = length paths + (if err = None then 0 else 1)" by blast
  from acc e(10) m [of 2] have reports: "from_source 2 (taken (n_merger s)) = r_out (n_req s)" by (simp add: accounts_def)
  show ?thesis using src conv files reports e(11) ended_pool [OF ok assms(2)] by blast
qed

section \<open>Properties\<close>

text \<open>C6: The client ends by itself, under every schedule, once the application has closed its streams. Whatever the goroutines have done,
as long as the producer has not disconnected, the client can go on by itself to the end, in a number of steps
that is bounded by what is on its way and what the loader finds; and no run has more steps of its own than this bound, but for one more for each
time the timer or a configuration interrupts the limiter. The requester must not have panicked on its configuration.\<close>

theorem client_shuts_down:
  assumes "run (net_step k) (new_net k srv dps dir w) es = Some s" and "\<not> r_panicked (n_req s)"
  shows "(\<exists>es' t. run (net_step k) s es' = Some t \<and> n_ended t \<and> list_all productive es'
      \<and> length es' \<le> net_work s + sum_list (map adds es'))
    \<and> net_work s + length (filter productive es) \<le> net_work (new_net k srv dps dir w) + sum_list (map adds es)"
  using shuts_down [OF reachable_ends [OF assms(1)] assms(2)] shutdown.run_work [OF new_net_ends_ok assms(1)] by blast

theorem client_shuts_down_witness:
  "\<exists>s es' t. run (net_step sample_parts) sample_net sample_net_events = Some s \<and>
     run (net_step sample_parts) s es' = Some t \<and> n_ended t \<and> list_all productive es'"
proof -
  let ?r = "run (net_step sample_parts) sample_net sample_net_events"
  have "case ?r of None \<Rightarrow> False | Some s \<Rightarrow> \<not> r_panicked (n_req s)" by code_simp
  then obtain s where s: "?r = Some s" "\<not> r_panicked (n_req s)" by (auto split: option.splits)
  from client_shuts_down [OF s(1) [unfolded sample_net_def] s(2)] s(1) show ?thesis by blast
qed

text \<open>C5: Nothing is left behind: when the producer disconnects, the converter has taken all that the two servers sent, in the
order of each, and has sent one message for each that is not a dropped log; the limiter has taken these, one for each file that
the loader found (and its error, if it had one), and every report of the requester; and what the limiter has passed has all been taken by the producer, which has tried to publish it.\<close>

theorem client_drained:
  assumes "run (net_step k) (new_net k srv dps dir w) es = Some s" and "n_ended s"
  shows "from_source 0 (taken (n_agents s)) = srv \<and> from_source 1 (taken (n_agents s)) = dps
    \<and> length (from_source 0 (taken (n_merger s))) = length (filter (\<lambda>m. \<not> dropped m) (srv @ dps))
    \<and> (\<exists>paths err. Loader_lists paths err \<in> set es
        \<and> length (from_source 1 (taken (n_merger s))) = length paths + (if err = None then 0 else 1))
    \<and> from_source 2 (taken (n_merger s)) = r_out (n_req s)
    \<and> pool s = {#} \<and> n_next s = length (sent (n_lim s))"
  by (rule net_drained [OF assms])

text \<open>A whole run: one data point of the application, stored, passed and published.\<close>

definition full_run :: "net_event list" where
  "full_run =
     [Loader_lists [] None, Server_sends, Server_ends, Converts 0 (sample_ambient\<lparr>now_nano := 0\<rparr>) None, Points_end, Agents (SeeClosed 0), Server_done,
      Loader_ends, Limit_acts some_time Go, Converter_sends, Requests OnDone, Requester_ends, Merger (Put 0),
      Agents (SeeClosed 1), Merger (SeeClosed 2), Agents WaitOver, Limit_takes some_time, Converter_ends, Publishes,
      Merger (SeeClosed 0), Merger (SeeClosed 1), Merger WaitOver, Limit_closes some_time, Limit_acts some_time Go, Producer_ends]"

theorem client_drained_witness:
  "\<exists>s. run (net_step sample_parts) sample_net full_run = Some s \<and> n_ended s \<and>
     from_source 0 (taken (n_agents s)) = [sample_point] \<and> pool s = {#} \<and> n_next s = length (sent (n_lim s))"
proof -
  let ?r = "run (net_step sample_parts) sample_net full_run"
  have "case ?r of None \<Rightarrow> False | Some s \<Rightarrow> n_ended s" by code_simp
  then obtain s where s: "?r = Some s" "n_ended s" by (auto split: option.splits)
  from client_drained [OF s(1) [unfolded sample_net_def] s(2)] s show ?thesis by blast
qed

end
