(* ===== verification/Complete.thy ===== *)
theory Complete
  imports Shutdown
begin

text \<open>
  What the broker has when the client has ended, if nothing was withheld: no data budget, and a broker that accepts all. Then
  the client is a pipe: what the limiter receives leaves, once, and what it receives is what the application wrote, what the loader read and what the
  requester reported. What the broker is to get for a message of the application is defined on its own (\<open>publication\<close>), and shown to be what the converter sends.
\<close>

declare lim_step.simps [simp del] merge_step.simps [simp del] net_step.simps [simp del]

section \<open>A limiter without a budget\<close>

text \<open>It passes what it receives.\<close>

lemma unlimited_step:
  assumes "lim_step W store c (now, inp) = Some c'" and "\<not> HasBudget (lim c)" "st c \<noteq> OverBudget"
    and "\<forall>conf. inp = Configure conf \<longrightarrow> \<not> Defined conf"
  shows "\<not> HasBudget (lim c') \<and> st c' \<noteq> OverBudget \<and> sent c' = sent c @ (case inp of Receive m \<Rightarrow> [m] | _ \<Rightarrow> [])"
  using assms(1)
proof (cases rule: lim_step_cases)
  case (pass m)
  with assms(2) show ?thesis by (cases rule: handleMessage_cases [of c W m store]) auto
next
  case timer
  then show ?thesis using assms(2)
    by (auto simp: timer_fires_def startThisPeriod_def reset_def Let_def case_prod_unfold split: option.splits if_splits)
next
  case (config conf)
  then show ?thesis using assms(4)
    by (auto simp: apply_conf_def reset_def setBudget_def Let_def case_prod_unfold)
qed (use assms(2,3) in \<open>auto simp: initial_def cleanup_def Let_def\<close>)

section \<open>What the broker has\<close>

definition post :: "('w, 'h) parts \<Rightarrow> Message \<Rightarrow> string \<times> bytes" where
  "post k m = (topic_of (the_producer k) m, Bytes m)"

definition undefined_conf :: "net_event \<Rightarrow> bool" where
  "undefined_conf e \<longleftrightarrow> (case e of Limit_acts _ (Configure conf) \<Rightarrow> \<not> Defined conf | _ \<Rightarrow> True)"

definition passed_on ::
  "('w, 'h) parts \<Rightarrow> ('w \<Rightarrow> (string \<times> bytes) list) \<Rightarrow> (string \<times> bytes) list \<Rightarrow> 'w net \<Rightarrow> bool"
where
  "passed_on k accepted before s \<longleftrightarrow> net_ok s \<and> \<not> HasBudget (lim (n_lim s)) \<and> st (n_lim s) \<noteq> OverBudget
     \<and> sent (n_lim s) = map snd (taken (n_merger s)) \<and> n_next s \<le> length (sent (n_lim s))
     \<and> accepted (world (n_lim s)) = before @ map (post k) (take (n_next s) (sent (n_lim s)))"

context site
begin

lemma passed_on_limiter:
  assumes ok: "passed_on k accepted before s" and store: "\<forall>x w. accepted (snd (Save (the_store k) x w)) = accepted w"
    and l: "lim_step (the_width k) (the_store k) (n_lim s) (now, inp) = Some l"
    and inp: "\<forall>conf. inp = Configure conf \<longrightarrow> \<not> Defined conf"
    and g: "net_ok (s\<lparr>n_merger := g, n_lim := l\<rparr>)" "taken g = taken (n_merger s) @ (case inp of Receive m \<Rightarrow> [(i, m)] | _ \<Rightarrow> [])"
  shows "passed_on k accepted before (s\<lparr>n_merger := g, n_lim := l\<rparr>)"
proof -
  from ok have "\<not> HasBudget (lim (n_lim s))" "st (n_lim s) \<noteq> OverBudget" by (simp_all add: passed_on_def)
  note u = unlimited_step [OF l this inp]
  have "accepted (world l) = accepted (world (n_lim s))" using lim_step_world [OF l] store by auto
  with u ok g show ?thesis by (cases inp) (auto simp: passed_on_def)
qed

lemma passed_on_step:
  assumes fs: "the_fs k = fs" and c: "client (the_producer k) = c"
    and store: "\<forall>x w. accepted (snd (Save (the_store k) x w)) = accepted w"
    and sound: "\<forall>t b w. fst (Publish c t 1 False b w) = None"
    and ok: "passed_on k accepted before s" and e: "undefined_conf e" and step: "net_step k s e = Some t"
  shows "passed_on k accepted before t"
proof -
  from ok have n: "net_ok s" by (simp add: passed_on_def)
  then have m: "count_ok (n_merger s)" by (simp add: net_ok_def)
  note okt = net_ok_step [OF n step]
  from step show ?thesis
  proof (cases rule: net_step_cases)
    case (converts i a l g out p w)
    from convert_one_effect [of _ _ _ _ "n_pers s"] converts(4) have "accepted w = accepted (world (n_lim s))" by (simp add: fs)
    with ok okt converts(5) show ?thesis by (auto simp: passed_on_def)
  next
    case (limit_receives ev g l now)
    have "\<exists>x. taken g = taken (n_merger s) @ [x]" using taken_grows [OF m limit_receives(2)] limit_receives(1) by auto
    then obtain i b where x: "taken g = taken (n_merger s) @ [(i, b)]" by auto
    from okt have g: "net_ok (s\<lparr>n_merger := g, n_lim := l\<rparr>)" unfolding limit_receives(5) .
    have l: "lim_step (the_width k) (the_store k) (n_lim s) (now, Receive b) = Some l" using limit_receives(4) unfolding x last_snoc snd_conv .
    show ?thesis unfolding limit_receives(5) by (rule passed_on_limiter [OF ok store l _ g, of i]) (simp_all add: x)
  next
    case (limit_closes now l)
    from passed_on_limiter [OF ok store limit_closes(4), of "n_merger s"] okt show ?thesis by (simp add: limit_closes(5))
  next
    case (limit_acts now inp l)
    from e limit_acts(1) have "\<forall>conf. inp = Configure conf \<longrightarrow> \<not> Defined conf" by (auto simp: undefined_conf_def)
    from passed_on_limiter [OF ok store limit_acts(4) this, of "n_merger s"] limit_acts(2) okt
    show ?thesis by (cases inp) (simp_all add: limit_acts(5))
  next
    case publishes
    let ?m = "sent (n_lim s) ! n_next s"
    obtain w' where w': "Publish c (topic_of (the_producer k) ?m) 1 False (Bytes ?m) (world (n_lim s)) = (None, w')"
      using sound by (metis prod.collapse)
    then have "accepted (publish_one fs (the_producer k) ?m (world (n_lim s))) = accepted (world (n_lim s)) @ [post k ?m]"
      using Publish_ok [OF w'] Remove_message_accepted by (simp add: publish_one_def c post_def)
    with ok okt publishes(2) show ?thesis by (auto simp: passed_on_def publishes(3) fs take_Suc_conv_app_nth)
  next
    case producer_ends
    with ok okt Disconnect_frame show ?thesis by (auto simp: passed_on_def c)
  qed (use ok okt in \<open>auto simp: passed_on_def merge_step_frame(6) simp del: merge_step.simps\<close>)
qed

end

lemma reachable_passed_on:
  assumes "site (the_fs k) content (client (the_producer k)) accepted"
    and "\<forall>x w. accepted (snd (Save (the_store k) x w)) = accepted w"
    and "\<forall>t b w. fst (Publish (client (the_producer k)) t 1 False b w) = None"
    and "\<not> HasBudget (lim (NewDataLimiter (the_store k) w))" and "list_all undefined_conf es"
    and "run (net_step k) (new_net k srv dps dir w) es = Some s"
  shows "passed_on k accepted (accepted (world (NewDataLimiter (the_store k) w))) s"
proof -
  let ?A = "accepted (world (NewDataLimiter (the_store k) w))"
  have start: "passed_on k accepted ?A (new_net k srv dps dir w)"
    using assms(4) new_net_ok [of k srv dps dir w]
    by (simp add: passed_on_def) (simp add: new_net_def Merge_messages_def new_merger_def NewDataLimiter_def split: prod.splits)
  have "along (net_step k) (\<lambda>_. undefined_conf) (new_net k srv dps dir w) es"
    using assms(5) by (intro along_all) (simp add: list_all_iff)
  from run_keeps [where J = "passed_on k accepted ?A", OF site.passed_on_step [OF assms(1) refl refl assms(2,3)] start assms(6) this]
  show ?thesis by simp
qed

text \<open>When the client has ended, all of it has been published.\<close>

lemma ended_accepted:
  assumes "passed_on k accepted before s" and "run (net_step k) (new_net k srv dps dir w) es = Some s" and "n_ended s"
  shows "accepted (world (n_lim s)) = before @ map (post k) (map snd (taken (n_merger s)))"
  using assms(1) net_drained [OF assms(2,3)] by (simp add: passed_on_def)

section \<open>What the converter makes of its messages\<close>

text \<open>What the broker is to get for a message of the application, that is no log: the topic goes by the type, the bytes are the encoded payload, as the machine is
when the message is converted (\<open>a\<close>). A message of an unknown type is published without bytes.\<close>

definition payload_of :: "nat \<Rightarrow> Schema.Config \<Rightarrow> ambient \<Rightarrow> agent_Message \<Rightarrow> (string \<times> payload) option" where
  "payload_of W cfg a m =
     (if Type m = ''profile'' then Some (''profiler'', P_profile (to_profile W cfg a (Data m)))
      else if Type m = ''event'' then Some (''events'', P_errorSig (to_errorSig W cfg a (Data m)))
      else if Type m = ''cleanExit'' then Some (''events'', P_exit (to_exit cfg a))
      else if Type m = ''datapoint'' then Some (''datapoints'', P_dataPoint (to_dataPoint cfg a (Data m)))
      else None)"

definition addressed :: "('w, 'h) parts \<Rightarrow> string \<Rightarrow> string" where
  "addressed k topic = ''c/'' @ topic @ ''/'' @ org (the_producer k) @ ''/'' @ dev_id (the_producer k)"

definition publication :: "('w, 'h) parts \<Rightarrow> agent_Message \<times> ambient \<Rightarrow> string \<times> bytes" where
  "publication k x =
     (case payload_of (the_width k) (the_config k) (snd x) (fst x) of
        None \<Rightarrow> (addressed k ''logs'', [])
      | Some (topic, v) \<Rightarrow>
          (addressed k topic, fst (case cfg_Encoding (the_config k) of MsgPack \<Rightarrow> the_msgpack k v | JSON \<Rightarrow> json_marshal v)))"

definition publications :: "('w, 'h) parts \<Rightarrow> agent_Message list \<Rightarrow> ambient list \<Rightarrow> (string \<times> bytes) list" where
  "publications k ms as = map (publication k) (filter (\<lambda>x. \<not> dropped (fst x)) (zip ms as))"

lemma post_convert:
  assumes "\<not> dropped m"
  shows "post k (convert (the_width k) (the_msgpack k) (the_config k) a m) = publication k (m, a)"
  using assms
  by (simp add: post_def publication_def payload_of_def convert_def marshal_def topic_of_def addressed_def dropped_def
      Profile_def Event_def Log_def DataPoint_def empty_message_def split: prod.split Encoding.split)

text \<open>When a message is stored, the storage can be measured and has room for it, and its file can be written.\<close>

definition has_room :: "int option \<Rightarrow> int \<Rightarrow> int \<Rightarrow> bool" where
  "has_room l len used =
     (case l of
        None \<Rightarrow> True
      | Some L \<Rightarrow> 0 \<le> L \<and> fits 64 (9 * L) \<and> fits 64 (len + used) \<and> 10 * (len + used) \<le> 9 * L)"

definition can_store :: "('w, 'h) parts \<Rightarrow> Persistor \<Rightarrow> 'w \<Rightarrow> agent_Message \<Rightarrow> ambient \<Rightarrow> int option \<Rightarrow> bool" where
  "can_store k p w m a l \<longleftrightarrow>
     (case storage_size (the_fs k) (msg_dir p) w of
        (used, None) \<Rightarrow> has_room l (int (length (snd (publication k (m, a))))) used
      | (_, Some _) \<Rightarrow> False)
     \<and> fst (save (the_fs k) ((convert (the_width k) (the_msgpack k) (the_config k) a m)
            \<lparr>path := message_path (msg_dir p) (the_pid k) (msg_count p), has_fs := True\<rparr>) w) = None"

definition stores_well :: "('w, 'h) parts \<Rightarrow> 'w net \<Rightarrow> net_event \<Rightarrow> bool" where
  "stores_well k s e =
     (case e of
        Converts i a l \<Rightarrow>
          (case merge_step (n_agents s) (Direct i) of
             None \<Rightarrow> True
           | Some g \<Rightarrow> (let m = snd (last (taken g)) in dropped m \<or> can_store k (n_pers s) (world (n_lim s)) m a l))
      | _ \<Rightarrow> True)"

lemma can_store_converts:
  assumes "can_store k p w m a l \<or> dropped m"
    and "convert_one (the_width k) (the_msgpack k) (the_fs k) (the_pid k) (the_config k) (Some p, w) (m, a, l) = (out, p', w')"
  shows "map (post k) out = publications k [m] [a]"
proof (cases "dropped m")
  case True
  with assms(2) show ?thesis by (cases rule: convert_one_cases) (simp_all add: publications_def)
next
  case False
  let ?b = "convert (the_width k) (the_msgpack k) (the_config k) a m"
  let ?b' = "?b\<lparr>path := message_path (msg_dir p) (the_pid k) (msg_count p), has_fs := True\<rparr>"
  have len: "length (snd (publication k (m, a))) = length (Bytes ?b)" by (simp add: post_def flip: post_convert [OF False])
  from assms(1) False obtain used where used: "storage_size (the_fs k) (msg_dir p) w = (used, None)"
    "has_room l (int (length (Bytes ?b))) used" and saves: "fst (save (the_fs k) ?b' w) = None"
    by (auto simp: can_store_def len split: prod.splits option.splits)
  from used(2) have "limit_error l (int (length (Bytes ?b))) used = None"
    by (auto simp: has_room_def limit_error_def over_limit_iff split: option.splits)
  with used(1) saves have "CreateMessage (the_fs k) (the_pid k) (p\<lparr>limit := l\<rparr>) ?b w
      = (None, p\<lparr>limit := l, msg_count := msg_count p + 1\<rparr>, ?b', snd (save (the_fs k) ?b' w))"
    by (cases "save (the_fs k) ?b' w") (simp add: CreateMessage_def Let_def)
  with assms(2) False have "out = [?b']" by (cases rule: convert_one_cases) auto
  then show ?thesis using False post_convert [OF False, of k a] by (simp add: publications_def post_def topic_of_def)
qed

text \<open>The state of the machine at each message that the converter has taken.\<close>

definition ambient_of :: "net_event \<Rightarrow> ambient list" where
  "ambient_of e = (case e of Converts _ a _ \<Rightarrow> [a] | _ \<Rightarrow> [])"

definition ambients :: "net_event list \<Rightarrow> ambient list" where
  "ambients es = concat (map ambient_of es)"

definition converted :: "('w, 'h) parts \<Rightarrow> 'w net \<Rightarrow> ambient list \<Rightarrow> bool" where
  "converted k s as \<longleftrightarrow> length as = length (taken (n_agents s))
     \<and> map (post k) (got (workers (n_merger s) ! 0) @ n_conv s) = publications k (map snd (taken (n_agents s))) as"

lemma publications_append:
  "length ms = length as \<Longrightarrow> publications k (ms @ ms') (as @ as') = publications k ms as @ publications k ms' as'"
  by (simp add: publications_def)

lemma got_arrived:
  assumes "ends_ok s" and "merge_step (n_merger s) ev = Some g" and "i < 3"
  shows "got (workers g ! i) = got (workers (n_merger s) ! i) @ arrived i [ev]"
proof -
  from assms(1) have "merger_ok 3 10 (n_merger s)" by (simp add: ends_ok_def)
  from merge_step_frame(3) [OF assms(2), of i] merger_len [OF this] assms(3) show ?thesis by simp
qed

lemma converted_step:
  assumes ok: "ends_ok s" and c: "converted k s as" and good: "stores_well k s e" and step: "net_step k s e = Some t"
  shows "converted k t (as @ ambient_of e)"
proof -
  from ok have am: "count_ok (n_agents s)" by (auto simp: ends_ok_def merger_ok_def)
  note got = got_arrived [OF ok]
  from step show ?thesis
  proof (cases rule: net_step_cases)
    case (converts i a l g out p w)
    from direct_taken(2) [OF am converts(3)] obtain x where x: "taken g = taken (n_agents s) @ [x]" by blast
    with good converts(1,3) have "can_store k (n_pers s) (world (n_lim s)) (snd x) a l \<or> dropped (snd x)"
      by (auto simp: stores_well_def Let_def)
    from can_store_converts [OF this] converts(4) x have "map (post k) out = publications k [snd x] [a]" by simp
    with c converts(2) show ?thesis
      by (simp add: converted_def converts(1,5) x ambient_of_def publications_append)
  next
    case (limit_receives ev g l now)
    then have "arrived 0 [ev] = []" "ambient_of e = []" by (auto simp: ambient_of_def)
    with c got [OF limit_receives(2)] show ?thesis by (simp add: converted_def limit_receives(5))
  next
    case (merger ev g)
    then have "arrived 0 [ev] = []" by (cases ev) simp_all
    with c got [OF merger(3)] show ?thesis by (simp add: converted_def merger(1,4) ambient_of_def)
  qed (use c in \<open>auto simp: converted_def ambient_of_def got merge_step_frame(6)\<close>)
qed

section \<open>What the loader makes of its files\<close>

text \<open>The files that the loader reads, and what it reads: all of the file, an error, or a part of the file that the converter is writing.\<close>

definition file_read :: "('w, 'h) parts \<Rightarrow> 'w net \<Rightarrow> net_event \<Rightarrow> (string \<times> (string + bytes)) list" where
  "file_read k s e =
     (case (e, n_paths s, n_conv s) of
        (Loader_reads, q # _, _) \<Rightarrow> [(q, readFile (the_fs k) q (world (n_lim s)))]
      | (Loader_tears n, q # _, b # _) \<Rightarrow> [(q, Inr (take n (marshal_message b)))]
      | _ \<Rightarrow> [])"

definition listing_error :: "string option \<Rightarrow> Message list" where
  "listing_error err = (case err of None \<Rightarrow> [] | Some e \<Rightarrow> [empty_message\<lparr>Error := e, Topic := Log\<rparr>])"

definition read_from :: "'w net \<Rightarrow> (string \<times> (string + bytes)) list \<Rightarrow> bool" where
  "read_from s rs \<longleftrightarrow>
     (case n_listed s of
        None \<Rightarrow> rs = [] \<and> n_paths s = [] \<and> got (workers (n_merger s) ! 1) @ n_load s = []
      | Some (paths, err) \<Rightarrow> map fst rs @ n_paths s = paths
          \<and> got (workers (n_merger s) ! 1) @ n_load s = listing_error err @ map (\<lambda>(q, r). file_message q r) rs)"

lemma read_from_step:
  assumes ok: "ends_ok s" and rs: "read_from s rs" and step: "net_step k s e = Some t"
  shows "read_from t (rs @ file_read k s e)"
proof -
  note got = got_arrived [OF ok]
  from step show ?thesis
  proof (cases rule: net_step_cases)
    case (loader_lists paths err)
    then show ?thesis using rs by (cases err) (simp_all add: read_from_def file_read_def listing_error_def)
  next
    case (loader_reads q qs)
    then show ?thesis using rs by (auto simp: read_from_def file_read_def loadMessage_def split: option.splits)
  next
    case (loader_tears n q qs b bs)
    then show ?thesis using rs by (auto simp: read_from_def file_read_def split: option.splits)
  next
    case (limit_receives ev g l now)
    then have "arrived 1 [ev] = []" "file_read k s e = []" by (auto simp: file_read_def)
    with rs got [OF limit_receives(2)] show ?thesis by (simp add: read_from_def limit_receives(5) split: option.splits prod.splits)
  next
    case (merger ev g)
    then have "arrived 1 [ev] = []" by (cases ev) simp_all
    with rs got [OF merger(3)] show ?thesis by (simp add: read_from_def merger(1,4) file_read_def split: option.splits prod.splits)
  next
    case (loader_sends m ms g)
    with rs got [OF loader_sends(3)] show ?thesis by (simp add: read_from_def file_read_def split: option.splits prod.splits)
  qed (use rs in \<open>simp_all add: read_from_def file_read_def got split: option.splits prod.splits\<close>)
qed

section \<open>What has been published\<close>

text \<open>What the limiter has received by the end of the client, by its sources: of the converter, of the loader, and of the requester.\<close>

definition came_from ::
  "('w, 'h) parts \<Rightarrow> agent_Message list \<Rightarrow> ambient list \<Rightarrow> string option \<Rightarrow> (string \<times> (string + bytes)) list \<Rightarrow> Message list
   \<Rightarrow> (nat \<times> Message) list \<Rightarrow> bool"
where
  "came_from k ms as err rs reports xs \<longleftrightarrow>
     length as = length ms \<and> map (post k) (from_source 0 xs) = publications k ms as
     \<and> from_source 1 xs = listing_error err @ map (\<lambda>(q, r). file_message q r) rs
     \<and> from_source 2 xs = reports \<and> length xs = length (from_source 0 xs) + length (from_source 1 xs) + length (from_source 2 xs)"

lemma three_sources: "\<forall>x \<in> set xs. fst x < 3 \<Longrightarrow>
  length xs = length (from_source 0 xs) + length (from_source 1 xs) + length (from_source 2 xs)"
  by (induction xs) (auto simp: from_source_def less_Suc_eq numeral_3_eq_3 numeral_2_eq_2)

lemma drained_sources:
  assumes r: "run (net_step k) (new_net k srv dps dir w) es = Some s" and "n_ended s"
    and good: "along (net_step k) (stores_well k) (new_net k srv dps dir w) es"
  shows "\<exists>ms \<in> shuffles srv dps. \<exists>paths err. Loader_lists paths err \<in> set es
    \<and> map fst (collect (net_step k) (file_read k) (new_net k srv dps dir w) es) = paths
    \<and> came_from k ms (ambients es) err (collect (net_step k) (file_read k) (new_net k srv dps dir w) es) (r_out (n_req s)) (taken (n_merger s))"
proof -
  let ?s = "new_net k srv dps dir w" let ?rs = "collect (net_step k) (file_read k) ?s es"
  note start = new_net_ends_ok [of k srv dps dir w]
  have "converted k ?s []" "read_from ?s []"
    by (simp_all add: converted_def read_from_def publications_def new_net_def Merge_agent_def Merge_messages_def new_merger_def)
  have "(ends_ok s \<and> accounts srv dps s) \<and> converted k s ([] @ collect (net_step k) (\<lambda>_. ambient_of) ?s es)"
    by (rule run_collects [where J = "\<lambda>s as. (ends_ok s \<and> accounts srv dps s) \<and> converted k s as", OF _ _ r good])
      (use ends_ok_step converted_step start \<open>converted k ?s []\<close> in blast)+
  then have ok: "ends_ok s" "accounts srv dps s" and c: "converted k s (ambients es)"
    by (simp_all add: collect_events [OF r] ambients_def)
  have "(ends_ok s \<and> accounts srv dps s) \<and> read_from s ([] @ ?rs)"
    by (rule run_collects [where J = "\<lambda>s rs. (ends_ok s \<and> accounts srv dps s) \<and> read_from s rs", OF _ _ r along_True])
      (use ends_ok_step read_from_step start \<open>read_from ?s []\<close> in blast)+
  then have rs: "read_from s ?rs" by simp
  note e = ended_upstream [OF ok(1) assms(2)]
  from ok(1) have am: "merger_ok 2 0 (n_agents s)" and mm: "merger_ok 3 10 (n_merger s)" by (simp_all add: ends_ok_def)
  note taken = closed_all_taken [OF mm e(1,2)]
  from closed_all_closed [OF mm e(1), of 1] ok(1) obtain paths err where l: "n_listed s = Some (paths, err)" by (auto simp: ends_ok_def)
  with listing.run_rel [OF r] have "Loader_lists paths err \<in> set es" by (simp add: new_net_def)
  moreover from rs l taken [of 1] e have "map fst ?rs = paths"
    "from_source 1 (taken (n_merger s)) = listing_error err @ map (\<lambda>(q, r). file_message q r) ?rs" by (simp_all add: read_from_def)
  moreover from c taken [of 0] e have "length (ambients es) = length (map snd (taken (n_agents s)))"
    "map (post k) (from_source 0 (taken (n_merger s))) = publications k (map snd (taken (n_agents s))) (ambients es)"
    by (simp_all add: converted_def)
  moreover have "map snd (taken (n_agents s)) \<in> shuffles srv dps"
    using shuffles_by_source [of "taken (n_agents s)"] taken_tags [OF am] net_drained [OF r assms(2)] by simp
  moreover have "\<forall>x \<in> set (taken (n_merger s)). fst x < 3" using taken_tags [OF mm] by blast
  note three_sources [OF this]
  moreover note net_drained [OF r assms(2)]
  ultimately show ?thesis unfolding came_from_def by blast
qed

text \<open>The loader may find and read a file that this very client has just stored. Then the broker gets the message twice: once
from the converter, once from the loader.\<close>

lemma count_by_source:
  "count_list (map f (from_source 0 xs)) y + count_list (map f (from_source 1 xs)) y \<le> count_list (map f (map snd xs)) y"
  by (induction xs) (auto simp: from_source_def)

lemma in_count_list: "y \<in> set xs \<Longrightarrow> 1 \<le> count_list xs y"
  using count_list_0_iff [of xs y] by (cases "count_list xs y") auto

theorem loader_repeats_stored:
  assumes "came_from k ms as err reads reports xs" and "(q, Inr (marshal_message b)) \<in> set reads"
    and "post k b \<in> set (publications k ms as)"
  shows "2 \<le> count_list (map (post k) (map snd xs)) (post k b)"
proof -
  from assms(1,3) have "post k b \<in> set (map (post k) (from_source 0 xs))" by (simp add: came_from_def)
  note conv = in_count_list [OF this]
  have "post k (file_message q (Inr (marshal_message b))) = post k b" by (simp add: file_message_marshal post_def topic_of_def)
  moreover from assms(1,2) have "file_message q (Inr (marshal_message b)) \<in> set (from_source 1 xs)" by (force simp: came_from_def)
  ultimately have "post k b \<in> set (map (post k) (from_source 1 xs))" by (metis image_eqI set_map)
  from conv in_count_list [OF this] count_by_source [of "post k" xs "post k b"] show ?thesis by linarith
qed

section \<open>Properties\<close>

text \<open>C8: Nothing is withheld and nothing is changed without a reason: when the limiter has no budget, neither from its file nor by a configuration, the
broker accepts what it is sent, and the storage can be measured and written and has room for what is stored, then, under every schedule, by the end of the client the broker has got, in their order, exactly
the messages that the limiter received. They are: for each message of the two servers that is no log, in the order in which an interleaving of
their streams was converted, its publication, whose topic goes by its type and whose bytes are its encoded payload; for each file that
the loader listed, what it read of it, after its error, if it had one; and the requester's report. A file that was read whole is published with the topic and the bytes of the message that was stored in it.\<close>

theorem everything_published:
  assumes "site (the_fs k) content (client (the_producer k)) accepted"
    and "\<forall>x w. accepted (snd (Save (the_store k) x w)) = accepted w"
    and "\<forall>t b w. fst (Publish (client (the_producer k)) t 1 False b w) = None"
    and "\<not> HasBudget (lim (NewDataLimiter (the_store k) w))" and "list_all undefined_conf es"
    and "run (net_step k) (new_net k srv dps dir w) es = Some s" and "n_ended s"
    and "along (net_step k) (stores_well k) (new_net k srv dps dir w) es"
    and "reads = collect (net_step k) (file_read k) (new_net k srv dps dir w) es"
  shows "\<exists>ms \<in> shuffles srv dps. \<exists>paths err passed.
      accepted (world (n_lim s)) = accepted (world (NewDataLimiter (the_store k) w)) @ map (post k) (map snd passed)
    \<and> came_from k ms (ambients es) err reads (r_out (n_req s)) passed
    \<and> Loader_lists paths err \<in> set es \<and> map fst reads = paths
    \<and> (\<forall>q m. (q, Inr (marshal_message m)) \<in> set reads \<longrightarrow> post k (file_message q (Inr (marshal_message m))) = post k m)"
proof -
  note ended_accepted [OF reachable_passed_on [OF assms(1-6)] assms(6,7)]
  moreover have "\<forall>q m. post k (file_message q (Inr (marshal_message m))) = post k m"
    by (simp add: file_message_marshal post_def topic_of_def)
  moreover note drained_sources [OF assms(6-8)]
  ultimately show ?thesis unfolding assms(9) by blast
qed

theorem everything_published_witness:
  "\<exists>s passed. run (net_step sample_parts) sample_net full_run = Some s \<and> n_ended s
     \<and> snd (world (n_lim s)) = map (post sample_parts) (map snd passed)
     \<and> map (post sample_parts) (from_source 0 passed) = [(''c/datapoints/org/dev'', ''abc'')] \<and> from_source 1 passed = []"
proof -
  let ?k = sample_parts let ?r = "run (net_step ?k) sample_net full_run"
  have "case ?r of None \<Rightarrow> False | Some s \<Rightarrow> n_ended s" by code_simp
  then obtain s where s: "?r = Some s" "n_ended s" by (auto split: option.splits)
  have site: "site (the_fs ?k) (\<lambda>w. disk_content (fst w)) (client (the_producer ?k)) snd"
    using log_site.site_axioms [of "\<lambda>_. None"] by (simp add: sample_parts_def client_sample_producer)
  have store: "\<forall>x w. snd (snd (Save (the_store ?k) x w)) = snd w"
    using log_site.limiter_file_harmless [of "''q''" "''limits''" 64 UTC] by (simp add: sample_parts_def harmless_def)
  have sound: "\<forall>t b w. fst (Publish (client (the_producer ?k)) t 1 False b w) = None"
    by (simp add: sample_parts_def client_sample_producer logging_client_def)
  have unlimited: "\<not> HasBudget (lim (NewDataLimiter (the_store ?k) empty_site))" by code_simp
  have events: "list_all undefined_conf full_run" by (simp add: full_run_def undefined_conf_def)
  have room: "along (net_step ?k) (stores_well ?k) sample_net full_run" by code_simp
  have reads: "[] = collect (net_step ?k) (file_read ?k) sample_net full_run" by code_simp
  have start: "snd (world (NewDataLimiter (the_store ?k) empty_site)) = []" by code_simp
  have none: "Loader_lists paths err \<in> set full_run \<Longrightarrow> err = None" for paths err by (auto simp: full_run_def)
  have am: "ambients full_run = [sample_ambient\<lparr>now_nano := 0\<rparr>]" by (simp add: ambients_def ambient_of_def full_run_def)
  have pub: "publications ?k [sample_point] (ambients full_run) = [(''c/datapoints/org/dev'', ''abc'')]" unfolding am by code_simp
  from everything_published [OF site store sound unlimited events s(1) [unfolded sample_net_def] s(2) room [unfolded sample_net_def] reads [unfolded sample_net_def]]
  obtain paths err passed where "snd (world (n_lim s)) = map (post ?k) (map snd passed)" "Loader_lists paths err \<in> set full_run"
    "came_from ?k [sample_point] (ambients full_run) err [] (r_out (n_req s)) passed" by (auto simp: start)
  with none [of paths err] s show ?thesis by (auto simp: came_from_def listing_error_def pub)
qed

end
