(* ===== verification/Payload.thy ===== *)
theory Payload
  imports Client
begin

text \<open>
  The type of what the converter (\<open>schema/convert.go\<close>, \<open>schema/schema.go\<close>) makes with the JSON encoding: its
  payloads are well-formed JSON objects, so the serial output (\<open>cmd/client/main.go\<close>) can embed every one.
\<close>

section \<open>Decoding keeps what holds of the values\<close>

lemma assign_members_keeps:
  assumes "\<And>k v r. Q v \<Longrightarrow> P r \<Longrightarrow> P (fst (f k v r))" and "\<forall>kv \<in> set ms. Q (snd kv)" and "P r"
  shows "P (fst (assign_members f ms r))"
  using assms(2,3)
proof (induction ms arbitrary: r)
  case Nil
  then show ?case by simp
next
  case (Cons kv ms)
  obtain k v where kv: "kv = (k, v)" by (cases kv)
  obtain r' bad where r': "f k v r = (r', bad)" by (cases "f k v r")
  with assms(1) [of v r k] Cons.prems kv have "P r'" by simp
  with Cons.IH [of r'] Cons.prems r' kv show ?case by (cases "assign_members f ms r'") simp
qed

lemma insert_key_set: "set (insert_key kv ms) \<subseteq> insert kv (set ms)"
  by (induction kv ms rule: insert_key.induct) auto

lemma wf_lossless:
  "wf_json v \<Longrightarrow> wf_json (lossless v)"
  "\<forall>v \<in> set vs. wf_json v \<Longrightarrow> \<forall>v \<in> set (lossless_elems vs). wf_json v"
  "\<forall>m \<in> set ms. wf_json (snd m) \<Longrightarrow> \<forall>m \<in> set acc. wf_json (snd m) \<Longrightarrow>
   \<forall>m \<in> set (lossless_members ms acc). wf_json (snd m)"
proof (induction v and vs and ms acc rule: lossless_lossless_elems_lossless_members.induct)
  case (7 k v ms acc)
  then have "wf_json (lossless v)" by simp
  with "7.prems"(2) have "\<forall>m \<in> set (insert_key (k, lossless v) acc). wf_json (snd m)"
    using insert_key_set [of "(k, lossless v)" acc] by auto
  with "7.IH"(2) "7.prems"(1) show ?case by simp
qed auto

text \<open>The payload of a data point that was found among the members of its object.\<close>

lemma raw_payload_wf:
  assumes "unmarshalLossless raw_field data ([], None) = ((t, Some v), None)" and "\<forall>d. data = Some d \<longrightarrow> wf_json d"
  shows "wf_json v"
proof -
  let ?P = "\<lambda>r. \<forall>x. snd r = Some x \<longrightarrow> wf_json x"
  have keeps: "?P (fst (raw_field k u r))" if "wf_json u" "?P r" for k u r
    using that by (cases r; cases u) (auto simp: raw_field_def assign_string_def)
  from assms(1) obtain d where d: "data = Some d" "fst (assign_struct raw_field d ([], None)) = (t, Some v)"
    by (cases data; cases "assign_struct raw_field (the data) ([], None)")
      (simp_all add: unmarshalLossless_def decode_struct_def Let_def)
  have "?P (fst (assign_members raw_field ms ([], None)))" if "d = JObj ms" for ms
  proof (rule assign_members_keeps [where Q = wf_json and P = ?P])
    show "\<forall>kv \<in> set ms. wf_json (snd kv)" using assms(2) d(1) that by simp
  qed (rule keeps, assumption+, simp)
  with d(2) show ?thesis by (cases d) (auto simp: assign_struct_def)
qed

lemma wf_to_dataPoint: "\<forall>d. data = Some d \<longrightarrow> wf_json d \<Longrightarrow> wf_json (Payload (to_dataPoint c a data))"
  using raw_payload_wf [of data] wf_lossless(1)
  by (auto simp: to_dataPoint_def genericDataPoint_def Let_def split: prod.split option.split)

section \<open>Well-formed payloads\<close>

definition wf_float :: "float64 \<Rightarrow> bool" where
  "wf_float x = (case x of Finite n \<Rightarrow> wf_json (JNum n) | NotFinite \<Rightarrow> True)"

definition wf_metrics :: "Metrics \<Rightarrow> bool" where
  "wf_metrics m \<longleftrightarrow> wf_float (CPUPercent m) \<and> wf_float (MemPercent m)"

lemma wf_metrics_json: "wf_metrics m \<Longrightarrow> wf_json (metrics_json m)"
  by (auto simp: wf_metrics_def wf_float_def metrics_json_def float_json_def split: float64.splits)

lemma wf_frame_json [simp]: "wf_json (frame_json f)"
  by (simp add: frame_json_def split: option.split)

definition wf_payload :: "payload \<Rightarrow> bool" where
  "wf_payload v =
     (case v of P_profile _ \<Rightarrow> True | P_errorSig e \<Rightarrow> wf_metrics (sig_metrics e) | P_exit e \<Rightarrow> wf_metrics (exit_metrics e)
      | P_dataPoint d \<Rightarrow> wf_json (Payload d))"

lemma wf_payload_json:
  assumes "wf_payload v"
  shows "\<exists>ms. payload_json v = JObj ms \<and> wf_json (JObj ms)"
  using assms wf_meta_members
  by (cases v) (auto simp: wf_payload_def payload_json_def profile_json_def errorSig_json_def exit_json_def dataPoint_json_def
      wf_metrics_json split: option.splits)

text \<open>What a message has to be for the outputs: an object in its bytes, or an error and no bytes.\<close>

definition well_formed :: "Message \<Rightarrow> bool" where
  "well_formed b \<longleftrightarrow>
     (if Error b = [] then (case parse (Bytes b) of Some (JObj ms, rest) \<Rightarrow> wf_json (JObj ms) \<and> rest = [] | _ \<Rightarrow> False)
      else Bytes b = [])"

lemma marshal_well_formed:
  assumes "cfg_Encoding c = JSON" and "wf_payload v"
  shows "well_formed (marshal msgpack c v t)"
proof (cases "snd (json_marshal v)")
  case None
  obtain ms where ms: "payload_json v = JObj ms" "wf_json (JObj ms)" using wf_payload_json [OF assms(2)] by blast
  with None assms(1) parse_render_append [OF ms(2), of "[]"] show ?thesis
    by (auto simp: well_formed_def marshal_def json_marshal_def empty_message_def split: if_splits)
next
  case (Some e)
  with assms(1) show ?thesis
    by (auto simp: well_formed_def marshal_def json_marshal_def empty_message_def split: if_splits)
qed

lemma well_formed_serial: "well_formed b \<Longrightarrow> \<exists>l. serial_line b = Some l"
  by (auto simp: well_formed_def serial_line_def raw_text_def skip_ws_def split: if_splits option.splits prod.splits json.splits)

lemma convert_well_formed:
  assumes "cfg_Encoding c = JSON" and "wf_metrics (metrics_now a)" and "\<forall>v. Data m = Some v \<longrightarrow> wf_json v"
    and "Type m \<noteq> ''log''"
  shows "well_formed (convert W msgpack c a m)"
proof -
  have "wf_payload (P_errorSig (to_errorSig W c a (Data m)))" "wf_payload (P_exit (to_exit c a))"
    "wf_payload (P_dataPoint (to_dataPoint c a (Data m)))" "wf_payload (P_profile p)" for p
    using assms(2) wf_to_dataPoint [OF assms(3)]
    by (simp_all add: wf_payload_def to_errorSig_def to_exit_def Let_def split: prod.split)
  moreover have "well_formed (empty_message\<lparr>Error := ''message of type '' @ s, Topic := t\<rparr>)" for s t
    by (simp add: well_formed_def empty_message_def)
  ultimately show ?thesis
    using assms(4) by (simp add: convert_def marshal_well_formed [OF assms(1)])
qed

section \<open>Properties\<close>

text \<open>C26: Every message the converter makes is well-formed: with the JSON encoding, whatever a message of an agent holds,
its bytes are one well-formed JSON object and nothing else, or it has an error and no bytes; either way
the serial output has a line for it.\<close>

theorem payload_well_formed:
  assumes "cfg_Encoding c = JSON" and "wf_metrics (metrics_now a)" and "\<forall>v. Data m = Some v \<longrightarrow> wf_json v"
    and "Type m \<noteq> ''log''"
  shows "well_formed (convert W msgpack c a m) \<and> (\<exists>l. serial_line (convert W msgpack c a m) = Some l)"
  using convert_well_formed [OF assms] well_formed_serial by blast

theorem payload_well_formed_witness:
  "well_formed (convert 64 (\<lambda>_. ([], None)) sample_config sample_ambient
     \<lparr>Type = ''datapoint'', Data = Some (JObj [(''type'', JStr ''t''), (''payload'', JArr [JNum ''1e9'', JNull])])\<rparr>)"
proof -
  have "wf_metrics (metrics_now sample_ambient)"
    by (simp add: wf_metrics_def wf_float_def sample_ambient_def no_metrics_def, code_simp)
  moreover have "wf_json (JObj [(''type'', JStr ''t''), (''payload'', JArr [JNum ''1e9'', JNull])])" by code_simp
  ultimately show ?thesis
    using payload_well_formed [of sample_config sample_ambient] by (simp add: sample_config_def)
qed

end
