(* ===== verification/Outputs.thy ===== *)
theory Outputs
  imports Payload
begin

text \<open>
  The rest of \<open>cmd/client/main.go\<close>: the configurations the pipelines give the converter, the loop of the serial
  pipeline, and the text that \<open>-licenses\<close> prints.
\<close>

section \<open>Set-up of the pipelines\<close>

record serial =
  s_userVersion :: string
  s_appID :: string
  s_macHash :: string
  s_addr :: string

definition newserial :: "8 word list list \<Rightarrow> (string \<Rightarrow> string) \<Rightarrow> string \<Rightarrow> string \<Rightarrow> serial go" where
  "newserial interfaces env addr userVer =
     (case IfaceHash interfaces of
        None \<Rightarrow> Panics
      | Some h \<Rightarrow> Returns \<lparr>s_userVersion = userVer, s_appID = env_AppID env, s_macHash = h, s_addr = addr\<rparr>)"

definition serial_config :: "serial \<Rightarrow> Schema.Config" where
  "serial_config s =
     \<lparr>cfg_Username = [], cfg_UserVersion = s_userVersion s, cfg_AppID = s_appID s, cfg_MacHash = s_macHash s,
      cfg_Encoding = JSON\<rparr>"

definition client_config :: "'w client \<Rightarrow> Schema.Config" where
  "client_config c =
     \<lparr>cfg_Username = cl_username c, cfg_UserVersion = cl_userVersion c, cfg_AppID = cl_appID c, cfg_MacHash = cl_macHash c,
      cfg_Encoding = MsgPack\<rparr>"

section \<open>The serial loop\<close>

text \<open>Every message of the merger is written; the rest of the world may act before each.\<close>

fun write_all :: "('w, 'h) Fs \<Rightarrow> string \<Rightarrow> (Message \<times> ('w \<Rightarrow> 'w)) list \<Rightarrow> 'w \<Rightarrow> 'w" where
  "write_all fs addr [] w = w"
| "write_all fs addr ((m, env) # ms) w = write_all fs addr ms (tryWrite fs addr m (env w))"

section \<open>Licenses\<close>

text \<open>\<open>strings.Replace\<close> of the first \<open>--\<close> by a slash.\<close>

fun replace_dashes :: "string \<Rightarrow> string" where
  "replace_dashes (a # b # s) =
     (if a = CHR ''-'' \<and> b = CHR ''-'' then CHR ''/'' # s else a # replace_dashes (b # s))"
| "replace_dashes s = s"

definition license_format :: "string \<Rightarrow> string \<Rightarrow> string" where
  "license_format name txt =
     ''License for '' @ name @ [CHR 0x0A] @ replicate 25 (CHR ''-'') @ [CHR 0x0A] @ txt"

text \<open>The box of license files is a list of names and the text of each.\<close>

definition licenses :: "string list \<Rightarrow> (string \<Rightarrow> string) \<Rightarrow> string" where
  "licenses names txt =
     license_format ''Auklet Client'' (txt ''LICENSE'')
     @ concat (map (\<lambda>l. replicate 3 (CHR 0x0A) @ license_format (''package: '' @ replace_dashes l) (txt l))
         (filter (\<lambda>l. l \<noteq> ''LICENSE'') names))"

section \<open>What the serial pipeline writes\<close>

context file_system
begin

lemma tryWrite_frame: "q \<noteq> addr \<Longrightarrow> content (tryWrite fs addr m w) q = content w q"
proof (cases "OpenFile fs addr [O_WRONLY, O_CREATE, O_TRUNC] w")
  case (Pair r u)
  assume q: "q \<noteq> addr"
  show ?thesis
  proof (cases r)
    case (Inl err)
    with Pair show ?thesis using OpenFile_fails [of addr _ w err u] by (simp add: tryWrite_def)
  next
    case (Inr f)
    with Pair q have f: "Name fs f = addr" "content u q = content w q"
      using OpenFile_creates [of addr "[O_WRONLY, O_CREATE, O_TRUNC]" w f u] by auto
    have "content (snd (Write fs f l u)) q = content u q" for l
      using Write_overwrites [of f l u] Write_fails [of f l u] f(1) q
      by (cases "Write fs f l u"; cases "fst (Write fs f l u)") auto
    with Pair Inr f show ?thesis by (simp add: tryWrite_def split: option.split)
  qed
qed

lemma tryWrite_line:
  assumes "serial_line m = Some l" and "OpenFile fs addr [O_WRONLY, O_CREATE, O_TRUNC] w = (Inr f, u)"
    and "Write fs f l u = (None, w')"
  shows "tryWrite fs addr m w = w' \<and> content w' = (content w)(addr \<mapsto> l)"
  using assms WriteFile_writes [of addr l w w'] by (simp add: tryWrite_def WriteFile_def)

end

lemma convert_all_plain:
  "convert_all W msgpack fs pid c (None, w) xs =
     map (\<lambda>(m, a). convert W msgpack c a m) (filter (\<lambda>x. \<not> dropped (fst x)) (map (\<lambda>((m, a, l), env). (m, a)) xs))"
proof (induction xs arbitrary: w)
  case Nil
  then show ?case by simp
next
  case (Cons y xs)
  obtain m a l env where "y = ((m, a, l), env)" by (metis prod.exhaust)
  with Cons show ?case by (auto simp: convert_one_def dropped_def Let_def)
qed

section \<open>Properties\<close>

text \<open>The serial pipeline has one line for each message of the agent, but the logs it drops: whatever well-formed data
the messages hold, none of them fails to be serialized, and none is made up.\<close>

theorem serial_line_per_message:
  assumes "\<forall>((m, a, l), env) \<in> set xs. wf_metrics (metrics_now a) \<and> (\<forall>v. Data m = Some v \<longrightarrow> wf_json v)"
  shows "let out = convert_all W msgpack fs pid (serial_config s) (None, w) xs in
    length out = length (filter (\<lambda>((m, a, l), env). \<not> dropped m) xs) \<and> (\<forall>b \<in> set out. \<exists>l. serial_line b = Some l)"
proof -
  have "length (filter (\<lambda>x. \<not> dropped (fst x)) (map (\<lambda>((m, a, l), env). (m, a)) xs))
    = length (filter (\<lambda>((m, a, l), env). \<not> dropped m) xs)"
    by (induction xs) auto
  moreover have "\<exists>l. serial_line (convert W msgpack (serial_config s) a m) = Some l"
    if "((m, a, l), env) \<in> set xs" "\<not> dropped m" for m a l env
  proof (rule well_formed_serial, rule convert_well_formed)
    from bspec [OF assms that(1)] show "wf_metrics (metrics_now a)" "\<forall>v. Data m = Some v \<longrightarrow> wf_json v" by simp_all
  qed (use that(2) in \<open>simp_all add: dropped_def serial_config_def\<close>)
  ultimately show ?thesis
    by (fastforce simp: convert_all_plain Let_def)
qed

theorem serial_line_per_message_witness:
  "length (convert_all 64 (\<lambda>_. ([], None)) disk_fs 7 (serial_config \<lparr>s_userVersion = [], s_appID = [], s_macHash = [], s_addr = ''t''\<rparr>)
     (None, empty_disk) [((\<lparr>Type = ''cleanExit'', Data = None\<rparr>, sample_ambient, None), id)]) = 1"
proof -
  have "wf_metrics (metrics_now sample_ambient)"
    by (simp add: wf_metrics_def wf_float_def sample_ambient_def no_metrics_def, code_simp)
  then show ?thesis
    using serial_line_per_message [where fs = disk_fs and xs = "[((\<lparr>Type = ''cleanExit'', Data = None\<rparr>, sample_ambient, None), id :: disk \<Rightarrow> disk)]"]
    by (simp add: Let_def dropped_def del: convert_all.simps)
qed

text \<open>A line that could be written is what the file of the serial port then holds, and no other file changes, whatever
happens.\<close>

theorem serial_write:
  assumes "file_system fs content" and "serial_line m = Some l"
    and "OpenFile fs addr [O_WRONLY, O_CREATE, O_TRUNC] w = (Inr f, u)" and "Write fs f l u = (None, w')"
  shows "tryWrite fs addr m w = w' \<and> content w' = (content w)(addr \<mapsto> l)"
  by (rule file_system.tryWrite_line [OF assms])

theorem serial_write_witness:
  "disk_content (tryWrite disk_fs ''t'' empty_message empty_disk) ''t'' = serial_line empty_message"
proof -
  obtain l where l: "serial_line empty_message = Some l"
    by (simp add: serial_line_def raw_text_def empty_message_def)
  have o: "OpenFile disk_fs ''t'' [O_WRONLY, O_CREATE, O_TRUNC] empty_disk = (Inr ''t'', empty_disk\<lparr>files := [(''t'', [])]\<rparr>)"
    by (simp add: disk_fs_def empty_disk_def)
  have "\<exists>w'. Write disk_fs ''t'' l (empty_disk\<lparr>files := [(''t'', [])]\<rparr>) = (None, w')"
    by (simp add: disk_fs_def empty_disk_def)
  with serial_write [OF disk.file_system_axioms l o] l show ?thesis by auto
qed

end
