(* ===== verification/EndToEnd.thy ===== *)
theory EndToEnd
  imports Complete Outputs
begin

text \<open>
  From the application to the broker: \<open>client.run\<close> after its handshake with the agent starts the network of goroutines on the two
  streams of the application; and what the broker gets from the converter is, in order, what the application wrote.
\<close>

section \<open>The start of the network\<close>

text \<open>The parts that \<open>client.run\<close> builds from the client that \<open>newclient\<close> returned. The process id, the width of an integer, the
time zone and the encoder of MessagePack come from outside.\<close>

definition client_parts ::
  "('w, 'h) Fs \<Rightarrow> int \<Rightarrow> nat \<Rightarrow> location \<Rightarrow> (bool \<Rightarrow> payload \<Rightarrow> bytes \<times> string option) \<Rightarrow> 'w client \<Rightarrow> 'w MQTTProducer \<Rightarrow> ('w, 'h) parts"
where
  "client_parts fs pid W local enc c p =
     \<lparr>the_fs = fs, the_pid = pid, the_width = W, the_msgpack = msgpackMarshal enc, the_config = client_config c,
      the_store = limiter_file fs (limPath c) W local, the_producer = p\<rparr>"

text \<open>The decoder of the agent's server: the one that read the version, or a new one.\<close>

definition server_decoder :: "'w Os \<Rightarrow> Exec \<Rightarrow> 'w \<Rightarrow> stream option" where
  "server_decoder os e w = (case decoder e of Some d \<Rightarrow> Some d | None \<Rightarrow> map_option (\<lambda>f. ReadFrom os f w) (agentData e))"

text \<open>The network, if both streams of the application end: what the two servers send is what they make of the streams.\<close>

definition start_net :: "'w Os \<Rightarrow> ('w, 'h) parts \<Rightarrow> string \<Rightarrow> Exec \<Rightarrow> 'w \<Rightarrow> 'w net option" where
  "start_net os k dir e w =
     (case (server_decoder os e w, datapoints e) of
        (Some d, Some f) \<Rightarrow>
          (case (serve (newServer d), dp_serve (newDataPointServer (ReadFrom os f w))) of
             (Some srv, Some dps) \<Rightarrow> Some (new_net k srv dps dir w)
           | _ \<Rightarrow> None)
      | _ \<Rightarrow> None)"

section \<open>From the streams\<close>

text \<open>The streams that the application writes on its two sockets, after its version: its messages, and its data points. The servers
make these of them.\<close>

definition server_messages :: "agent_Message list \<Rightarrow> agent_Message list" where
  "server_messages ms = ms @ (if \<exists>m \<in> set ms. Type m = ''event'' then [] else [cleanExit])"

definition point_messages :: "json list \<Rightarrow> agent_Message list" where
  "point_messages vs = map (\<lambda>v. \<lparr>Type = ''datapoint'', Data = Some v\<rparr>) vs"

lemma handshake_server:
  assumes "getAgentVersion os e0 w = Returns (None, e, w')" and "agentData e0 = Some f"
    and "ReadFrom os f w = agent_stream v ms j" and "v \<noteq> []" and "\<forall>m \<in> set ms. wf_agent m"
  shows "w' = w \<and> agentData e = agentData e0 \<and> datapoints e = datapoints e0
    \<and> (\<exists>d. decoder e = Some d \<and> serve (newServer d) = Some (server_messages ms))"
  using handshake [OF assms(2-5)] assms(1) by (auto simp: server_messages_def)

lemma served_streams:
  assumes "client_run os sha http c (NewExec look name args) w0 = Returns (Serving e p, w)"
    and "agentData e = Some f" and "ReadFrom os f w = agent_stream v ms j" and "v \<noteq> []" and "\<forall>m \<in> set ms. wf_agent m"
    and "datapoints e = Some g" and "carries (ReadFrom os g w) vs"
  shows "start_net os k dir e w = Some (new_net k (server_messages ms) (point_messages vs) dir w)"
proof -
  obtain sum e1 where "CheckSum_of os sha (NewExec look name args) w0 = (sum, e1)" by (cases "CheckSum_of os sha (NewExec look name args) w0")
  with assms(1) obtain w1 where "Connect os e1 w1 = Returns (None, e, w)" by (cases rule: client_run_cases) auto
  then obtain e2 w2 where version: "getAgentVersion os e2 w2 = Returns (None, e, w)" by (rule Connect_steps)
  then have "agentData e2 = Some f" "w2 = w" using assms(2) by (elim getAgentVersion_None; simp)+
  with handshake_server [OF version _ _ assms(4,5), of f j] assms(3)
  obtain d where "decoder e = Some d" "serve (newServer d) = Some (server_messages ms)" by auto
  moreover have "dp_serve (newDataPointServer (ReadFrom os g w)) = Some (point_messages vs)"
    using data_points_sent [of "newDataPointServer (ReadFrom os g w)" vs] assms(7) by (simp add: newDataPointServer_def point_messages_def)
  ultimately show ?thesis using assms(6) by (simp add: start_net_def server_decoder_def)
qed

section \<open>Properties\<close>

text \<open>C4: What the application writes is what the broker gets. Once \<open>client.run\<close> serves an application, whose agent sends its version
and the messages \<open>ms\<close> and which writes the data points \<open>vs\<close>, then, under every schedule, if the data is not limited, the broker
accepts what it is sent and there is room to store, by the end of the client: of what the broker has accepted since, in the order of the limiter, the part that came from the converter
is, message by message and once each, the publication (topic and payload) of each message that is no log, of an interleaving of the two streams: the
messages, a clean exit if none was an event, and the data points, each in its order. The other two parts are what the loader read of the
files it found, which may be files of messages that this client has stored, and the requester's report.\<close>

theorem app_to_broker:
  assumes "client_run os sha http c (NewExec look name args) w0 = Returns (Serving e p, w)"
    and "agentData e = Some f" and "ReadFrom os f w = agent_stream v ms j" and "v \<noteq> []" and "\<forall>m \<in> set ms. wf_agent m"
    and "datapoints e = Some g" and "carries (ReadFrom os g w) vs"
    and "site fs content (client p) accepted" and "\<forall>t b w. fst (Publish (client p) t 1 False b w) = None"
    and "k = client_parts fs pid W local enc c p"
    and "\<not> HasBudget (lim (NewDataLimiter (the_store k) w))" and "list_all undefined_conf es"
    and "start_net os k (msgPath c) e w = Some s0" and "run (net_step k) s0 es = Some s" and "n_ended s"
    and "along (net_step k) (stores_well k) s0 es"
  shows "\<exists>merged \<in> shuffles (server_messages ms) (point_messages vs). \<exists>err passed.
      accepted (world (n_lim s)) = accepted w @ map (post k) (map snd passed)
    \<and> came_from k merged (ambients es) err (collect (net_step k) (file_read k) s0 es) (r_out (n_req s)) passed"
proof -
  have s0: "s0 = new_net k (server_messages ms) (point_messages vs) (msgPath c) w"
    using assms(13) by (simp add: served_streams [OF assms(1-7)])
  note r = assms(14) [unfolded s0]
  have k: "the_fs k = fs" "the_producer k = p" "the_store k = limiter_file fs (limPath c) W local" by (simp_all add: assms(10) client_parts_def)
  have "\<forall>x w. accepted (snd (Save (the_store k) x w)) = accepted w"
    using site.limiter_file_harmless [OF assms(8), of "limPath c @ ''x''" "limPath c" W local] by (simp add: k(3) harmless_def)
  from ended_accepted [OF reachable_passed_on [OF assms(8) [folded k(1,2)] this assms(9) [folded k(2)] assms(11,12) r] r assms(15)]
  have "accepted (world (n_lim s)) = accepted w @ map (post k) (map snd (taken (n_merger s)))"
    by (simp add: k(3) NewDataLimiter_def limiter_file_def FilePersistor_def file_Load_def split: prod.splits sum.splits)
  with drained_sources [OF r assms(15,16) [unfolded s0]] show ?thesis unfolding s0 by blast
qed

text \<open>An operating system whose sockets carry a version and one data point.\<close>

definition site_os :: "(disk \<times> (string \<times> bytes) list) Os" where
  "site_os =
     \<lparr>Socketpair = (\<lambda>w. (Inr (5, 6), w)), StartProcess = (\<lambda>_ w. (None, w)), CloseFile = (\<lambda>_ w. w),
      ReadFrom = (\<lambda>f w. if file_name f = ''agentData-local'' then agent_stream ''1.0'' [] (\<lambda>_. 512)
        else \<lparr>unread = line_of (the (Data sample_point)), failing = None, buffered = (\<lambda>_. 512)\<rparr>),
      ReadFile = (\<lambda>_ _. Inr ''ELF''), WaitProcess = (\<lambda>w. (Some (Exited 0), w))\<rparr>"

definition site_client :: "(disk \<times> (string \<times> bytes) list) client" where
  "site_client = \<lparr>msgPath = ''d'', limPath = ''limits'', cl_api = sample_api, cl_userVersion = [], cl_username = ''dev'', cl_appID = ''app'',
     cl_macHash = [], producer = Some sample_producer\<rparr>"

definition site_parts :: "(disk \<times> (string \<times> bytes) list, string) parts" where
  "site_parts = client_parts (on_fst disk_fs) 7 64 UTC (\<lambda>_ _. (''abc'', None)) site_client sample_producer"

definition app_run :: "net_event list" where
  "app_run =
     [Loader_lists [] None, Loader_ends, Server_sends, Converts 0 (sample_ambient\<lparr>now_nano := 0\<rparr>) None, Server_ends, Server_done,
      Limit_acts some_time Go, Converter_sends, Merger (Put 0), Points_send, Converts 1 (sample_ambient\<lparr>now_nano := 0\<rparr>) None, Points_end,
      Limit_takes some_time, Publishes, Converter_sends, Limit_gets 0 some_time, Publishes, Requests OnDone, Requester_ends,
      Agents (SeeClosed 0), Agents (SeeClosed 1), Agents WaitOver, Converter_ends,
      Merger (SeeClosed 0), Merger (SeeClosed 1), Merger (SeeClosed 2), Merger WaitOver,
      Limit_closes some_time, Limit_acts some_time Go, Producer_ends]"

lemma site_serving:
  obtains e where "client_run site_os (\<lambda>_. ''ab'') (fixed_http 200 []) site_client (NewExec (\<lambda>_. None) ''app'' []) empty_site
      = Returns (Serving e sample_producer, empty_site)"
    and "agentData e = Some \<lparr>fd = 5, file_name = ''agentData-local''\<rparr>" and "datapoints e = Some \<lparr>fd = 5, file_name = ''datapoints-local''\<rparr>"
proof -
  from Decode_carries_Cons [OF carries_agent_stream [of "[]"]] obtain dec where
    "Decode (agent_stream ''1.0'' [] (\<lambda>_. 512)) = (Value (version_json ''1.0''), dec)" by auto
  then show ?thesis
    using that by (simp add: client_run_def CheckSum_of_def Release_def http_send_def fixed_http_def site_client_def
        Connect_def addSockets_def socketpair_def site_os_def NewFile_def NewExec_def Start_def
        getAgentVersion_def decode_struct_def version_json_def assign_struct_def version_field_def assign_string_def)
qed

theorem app_to_broker_witness:
  "\<exists>s passed. run (net_step site_parts) (new_net site_parts [cleanExit] [sample_point] ''d'' empty_site) app_run = Some s \<and> n_ended s
     \<and> snd (world (n_lim s)) = map (post site_parts) (map snd passed)
     \<and> set (map (post site_parts) (from_source 0 passed)) = {(''c/events/org/dev'', ''abc''), (''c/datapoints/org/dev'', ''abc'')}
     \<and> length (from_source 0 passed) = 2"
proof -
  obtain e where run: "client_run site_os (\<lambda>_. ''ab'') (fixed_http 200 []) site_client (NewExec (\<lambda>_. None) ''app'' []) empty_site
      = Returns (Serving e sample_producer, empty_site)"
    and files: "agentData e = Some \<lparr>fd = 5, file_name = ''agentData-local''\<rparr>" "datapoints e = Some \<lparr>fd = 5, file_name = ''datapoints-local''\<rparr>"
    by (rule site_serving)
  have agent: "ReadFrom site_os \<lparr>fd = 5, file_name = ''agentData-local''\<rparr> empty_site = agent_stream ''1.0'' [] (\<lambda>_. 512)" "''1.0'' \<noteq> []"
    "\<forall>m \<in> set []. wf_agent m" by (simp_all add: site_os_def)
  have "wf_json (the (Data sample_point))" by code_simp
  then have points: "carries (ReadFrom site_os \<lparr>fd = 5, file_name = ''datapoints-local''\<rparr> empty_site) [the (Data sample_point)]"
    by (simp add: site_os_def carries_def)
  have msgs: "server_messages [] = [cleanExit]" "point_messages [the (Data sample_point)] = [sample_point]"
    by (simp_all add: server_messages_def point_messages_def sample_point_def)
  have site: "site (on_fst disk_fs) (\<lambda>w. disk_content (fst w)) (client sample_producer) snd"
    using log_site.site_axioms [of "\<lambda>_. None"] by (simp add: client_sample_producer)
  have sound: "\<forall>t b w. fst (Publish (client sample_producer) t 1 False b w) = None"
    by (simp add: client_sample_producer logging_client_def)
  have free: "\<not> HasBudget (lim (NewDataLimiter (the_store site_parts) empty_site))" by code_simp
  have confs: "list_all undefined_conf app_run" by (simp add: app_run_def undefined_conf_def)
  let ?s0 = "new_net site_parts [cleanExit] [sample_point] ''d'' empty_site" let ?a = "sample_ambient\<lparr>now_nano := 0\<rparr>"
  have "case run (net_step site_parts) ?s0 app_run of None \<Rightarrow> False | Some s \<Rightarrow> n_ended s" by code_simp
  then obtain s where r: "run (net_step site_parts) ?s0 app_run = Some s" and s: "n_ended s" by (auto split: option.splits)
  have start: "start_net site_os site_parts (msgPath site_client) e empty_site = Some ?s0"
    by (simp add: served_streams [OF run files(1) agent files(2) points] msgs) (simp add: site_client_def)
  have room: "along (net_step site_parts) (stores_well site_parts) ?s0 app_run" by code_simp
  have am: "ambients app_run = [?a, ?a]" by (simp add: ambients_def ambient_of_def app_run_def)
  have pub: "publication site_parts (cleanExit, ?a) = (''c/events/org/dev'', ''abc'')"
    "publication site_parts (sample_point, ?a) = (''c/datapoints/org/dev'', ''abc'')" by code_simp+
  have kept: "\<not> dropped cleanExit" "\<not> dropped sample_point" by (simp_all add: dropped_def cleanExit_def sample_point_def)
  from app_to_broker [OF run files(1) agent files(2) points site sound site_parts_def free confs start r s room]
  obtain merged err passed where m: "merged \<in> shuffles (server_messages []) (point_messages [the (Data sample_point)])"
    "snd (world (n_lim s)) = snd empty_site @ map (post site_parts) (map snd passed)"
    "map (post site_parts) (from_source 0 passed) = publications site_parts merged [?a, ?a]" unfolding came_from_def am by blast
  from m(1) [unfolded msgs] have "merged = [cleanExit, sample_point] \<or> merged = [sample_point, cleanExit]" by auto
  moreover have "publications site_parts [cleanExit, sample_point] [?a, ?a] = [(''c/events/org/dev'', ''abc''), (''c/datapoints/org/dev'', ''abc'')]"
    "publications site_parts [sample_point, cleanExit] [?a, ?a] = [(''c/datapoints/org/dev'', ''abc''), (''c/events/org/dev'', ''abc'')]"
    by (simp_all add: publications_def pub kept)
  ultimately have "set (publications site_parts merged [?a, ?a]) = {(''c/events/org/dev'', ''abc''), (''c/datapoints/org/dev'', ''abc'')}"
    "length (publications site_parts merged [?a, ?a]) = 2" by auto
  with m(3) have "set (map (post site_parts) (from_source 0 passed)) = {(''c/events/org/dev'', ''abc''), (''c/datapoints/org/dev'', ''abc'')}"
    "length (from_source 0 passed) = 2" by (metis, metis length_map)
  moreover from m(2) have "snd (world (n_lim s)) = map (post site_parts) (map snd passed)" by (simp only: empty_site_def snd_conv append_Nil)
  ultimately show ?thesis using r s by blast
qed

end
