(* ===== verification/Live.thy ===== *)
theory Live
  imports Network Client
begin

text \<open>
  The client with the backend in it: the goroutine of \<open>pollConfig\<close> hands the limits to the persistor's \<open>serve\<close>
  (\<open>broker/message.go\<close>, lines 85 to 95), to the requester and to the limiter of the network, which \<open>client.run\<close>
  connects (\<open>cmd/client/main.go\<close>, lines 313 to 349). Only what the backend has given arrives, and every message is
  stored under the limit that \<open>serve\<close> holds at that moment.
\<close>

section \<open>State and steps\<close>

record 'w live =
  lv_net :: "'w net"
  lv_poll :: poll
  lv_limit :: "int option"

text \<open>
  \<open>Acts\<close> and \<open>Polls\<close> are the steps of the network and of the polling goroutine alone; in the others one of the
  three consumers takes what waits in its channel.
\<close>

datatype live_event =
    Acts net_event
  | Polls poll_event
  | Persistor_takes
  | Requester_takes
  | Limiter_takes gotime

fun configures :: "net_event \<Rightarrow> bool" where
  "configures (Requests (OnConf _)) = True"
| "configures (Limit_acts _ (Configure _)) = True"
| "configures _ = False"

fun taking :: "poll_event \<Rightarrow> bool" where
  "taking TakeStorage = True"
| "taking TakePeriod = True"
| "taking TakeCellular = True"
| "taking _ = False"

fun live_step :: "('w, 'h) parts \<Rightarrow> 'w live \<Rightarrow> live_event \<Rightarrow> 'w live option" where
  "live_step k s (Acts e) =
     (if \<not> configures e \<and> stores_under (lv_limit s) e then
        map_option (\<lambda>n. s\<lparr>lv_net := n\<rparr>) (net_step k (lv_net s) e)
      else None)"
| "live_step k s (Polls e) =
     (if taking e then None else map_option (\<lambda>q. s\<lparr>lv_poll := q\<rparr>) (poll_step (lv_poll s) e))"
| "live_step k s Persistor_takes =
     (case (p_chan (lv_poll s), poll_step (lv_poll s) TakeStorage) of
        (Some l, Some q) \<Rightarrow> Some (s\<lparr>lv_poll := q, lv_limit := l\<rparr>)
      | _ \<Rightarrow> None)"
| "live_step k s Requester_takes =
     (case (r_chan (lv_poll s), poll_step (lv_poll s) TakePeriod) of
        (Some d, Some q) \<Rightarrow>
          map_option (\<lambda>n. s\<lparr>lv_net := n, lv_poll := q\<rparr>) (net_step k (lv_net s) (Requests (OnConf d)))
      | _ \<Rightarrow> None)"
| "live_step k s (Limiter_takes now) =
     (case (l_chan (lv_poll s), poll_step (lv_poll s) TakeCellular) of
        (Some c, Some q) \<Rightarrow>
          map_option (\<lambda>n. s\<lparr>lv_net := n, lv_poll := q\<rparr>) (net_step k (lv_net s) (Limit_acts now (Configure c)))
      | _ \<Rightarrow> None)"

definition new_live :: "('w, 'h) parts \<Rightarrow> agent_Message list \<Rightarrow> agent_Message list \<Rightarrow> string \<Rightarrow> 'w \<Rightarrow> 'w live" where
  "new_live k srv dps dir w = \<lparr>lv_net = new_net k srv dps dir w, lv_poll = new_poll, lv_limit = None\<rparr>"

text \<open>What each event needs and does.\<close>

lemma live_step_cases:
  assumes "live_step k s e = Some t"
  obtains (acts) ev n where "e = Acts ev" "\<not> configures ev" "stores_under (lv_limit s) ev"
      "net_step k (lv_net s) ev = Some n" "t = s\<lparr>lv_net := n\<rparr>"
  | (polls) ev q where "e = Polls ev" "\<not> taking ev" "poll_step (lv_poll s) ev = Some q" "t = s\<lparr>lv_poll := q\<rparr>"
  | (persistor) l q where "e = Persistor_takes" "p_chan (lv_poll s) = Some l" "poll_step (lv_poll s) TakeStorage = Some q"
      "t = s\<lparr>lv_poll := q, lv_limit := l\<rparr>"
  | (requester) d q r where "e = Requester_takes" "r_chan (lv_poll s) = Some d" "poll_step (lv_poll s) TakePeriod = Some q"
      "req_step (n_req (lv_net s)) (OnConf d) = Some r" "t = s\<lparr>lv_net := (lv_net s)\<lparr>n_req := r\<rparr>, lv_poll := q\<rparr>"
      "net_step k (lv_net s) (Requests (OnConf d)) = Some (lv_net t)"
  | (limiter) now c q l where "e = Limiter_takes now" "l_chan (lv_poll s) = Some c" "poll_step (lv_poll s) TakeCellular = Some q"
      "lim_step (the_width k) (the_store k) (n_lim (lv_net s)) (now, Configure c) = Some l"
      "t = s\<lparr>lv_net := (lv_net s)\<lparr>n_lim := l\<rparr>, lv_poll := q\<rparr>"
      "net_step k (lv_net s) (Limit_acts now (Configure c)) = Some (lv_net t)"
proof (cases e)
  case (Limiter_takes now)
  from assms Limiter_takes obtain c q n where c: "l_chan (lv_poll s) = Some c" "poll_step (lv_poll s) TakeCellular = Some q"
    "net_step k (lv_net s) (Limit_acts now (Configure c)) = Some n" "t = s\<lparr>lv_net := n, lv_poll := q\<rparr>"
    by (auto simp del: net_step.simps poll_step.simps split: option.splits)
  from c(3) obtain l where "lim_step (the_width k) (the_store k) (n_lim (lv_net s)) (now, Configure c) = Some l"
    "n = (lv_net s)\<lparr>n_lim := l\<rparr>" by (cases rule: net_step_cases) (auto simp del: lim_step.simps req_step.simps)
  with c limiter [OF Limiter_takes c(1,2)] show ?thesis by (simp del: net_step.simps lim_step.simps)
next
  case Requester_takes
  from assms Requester_takes obtain d q n where d: "r_chan (lv_poll s) = Some d" "poll_step (lv_poll s) TakePeriod = Some q"
    "net_step k (lv_net s) (Requests (OnConf d)) = Some n" "t = s\<lparr>lv_net := n, lv_poll := q\<rparr>"
    by (auto simp del: net_step.simps poll_step.simps split: option.splits)
  from d(3) obtain r where "req_step (n_req (lv_net s)) (OnConf d) = Some r" "n = (lv_net s)\<lparr>n_req := r\<rparr>"
    by (cases rule: net_step_cases) (auto simp del: lim_step.simps req_step.simps)
  with d requester [OF Requester_takes d(1,2)] show ?thesis by (simp del: net_step.simps req_step.simps)
next
  case (Acts ev)
  from assms Acts obtain n where "\<not> configures ev" "stores_under (lv_limit s) ev" "net_step k (lv_net s) ev = Some n" "t = s\<lparr>lv_net := n\<rparr>"
    by (auto simp del: net_step.simps split: if_splits)
  then show ?thesis by (rule acts [OF Acts])
next
  case (Polls ev)
  from assms Polls obtain q where "\<not> taking ev" "poll_step (lv_poll s) ev = Some q" "t = s\<lparr>lv_poll := q\<rparr>"
    by (auto simp del: poll_step.simps split: if_splits)
  then show ?thesis by (rule polls [OF Polls])
next
  case Persistor_takes
  from assms Persistor_takes obtain l q where "p_chan (lv_poll s) = Some l" "poll_step (lv_poll s) TakeStorage = Some q"
    "t = s\<lparr>lv_poll := q, lv_limit := l\<rparr>" by (auto simp del: poll_step.simps split: option.splits)
  then show ?thesis by (rule persistor [OF Persistor_takes])
qed

section \<open>The parts of the composition\<close>

text \<open>For the network, each step is its own step or none.\<close>

interpretation live: simulation "live_step k" "net_step k" "\<lambda>s n. n = lv_net s" "\<lambda>_. True" "\<lambda>_ _ _ _. True" for k
proof unfold_locales
  fix s t :: "'a live" and n e
  assume "n = lv_net s" "live_step k s e = Some t"
  then show "n = lv_net t \<or> (\<exists>f m. True \<and> net_step k n f = Some m \<and> m = lv_net t)"
    by (auto elim!: live_step_cases simp del: net_step.simps)
qed simp

section \<open>The limits in force\<close>

text \<open>What the limiter and the requester make of a configuration.\<close>

definition budget_of :: "DataLimiter \<Rightarrow> int \<times> bool" where
  "budget_of l = (Budget l, HasBudget l)"

definition conf_budget :: "nat \<Rightarrow> CellularConfig \<Rightarrow> int \<times> bool" where
  "conf_budget W c = (swrap W (1000000 * Limit c), Defined c)"

definition conf_period :: "int \<Rightarrow> int option" where
  "conf_period d = (if d > 0 then Some (swrap 64 (d * 1000000000)) else None)"

lemma lim_step_budget:
  assumes "lim_step W store c (now, inp) = Some c'"
  shows "budget_of (lim c') = (case inp of Configure conf \<Rightarrow> conf_budget W conf | _ \<Rightarrow> budget_of (lim c))"
  using assms
proof (cases rule: lim_step_cases)
  case (pass m)
  then show ?thesis by (cases rule: handleMessage_cases [of c W m store]) (simp_all add: budget_of_def)
qed (auto simp: budget_of_def conf_budget_def initial_def cleanup_def timer_fires_def startThisPeriod_def apply_conf_def
    reset_def setBudget_def Let_def case_prod_unfold split: option.splits if_splits)

lemma req_step_period:
  assumes "req_step r e = Some r'" and "\<not> r_panicked r'"
  shows "\<not> r_panicked r \<and> period r' = (case e of OnConf d \<Rightarrow> conf_period d | _ \<Rightarrow> period r)"
  using assms by (cases e) (auto simp: write_fails_def on_conf_def conf_period_def Let_def split: if_splits option.splits)

lemma req_step_stopped: "req_step r e = Some r' \<Longrightarrow> \<not> r_stopped r"
  by (cases e) (auto split: if_splits)

lemma net_step_limits:
  assumes "net_step k s e = Some t" and "\<not> configures e"
  shows "budget_of (lim (n_lim t)) = budget_of (lim (n_lim s))
    \<and> (\<not> r_panicked (n_req t) \<longrightarrow> \<not> r_panicked (n_req s) \<and> period (n_req t) = period (n_req s))
    \<and> (r_stopped (n_req s) \<longrightarrow> r_stopped (n_req t))"
  using assms(1)
proof (cases rule: net_step_cases)
  case (requests ev r)
  with req_step_period [OF requests(2)] req_step_stopped [OF requests(2)] assms(2) show ?thesis by (cases ev) auto
next
  case (limit_receives ev g l now)
  with lim_step_budget [OF limit_receives(4)] show ?thesis by simp
next
  case (limit_closes now l)
  with lim_step_budget [OF limit_closes(4)] show ?thesis by simp
next
  case (limit_acts now inp l)
  with lim_step_budget [OF limit_acts(4)] assms(2) show ?thesis by (cases inp) auto
qed simp_all

text \<open>The limits that the backend gave in a run, in their order.\<close>

fun answers :: "live_event list \<Rightarrow> DataLimit list" where
  "answers [] = []"
| "answers (Polls e # es) = polled [e] @ answers es"
| "answers (_ # es) = answers es"

text \<open>In force is what each consumer has taken last, or what it started with.\<close>

definition in_force :: "('w, 'h) parts \<Rightarrow> int \<times> bool \<Rightarrow> DataLimit list \<Rightarrow> 'w live \<Rightarrow> bool" where
  "in_force k loaded dls s \<longleftrightarrow> poll_inv dls (lv_poll s)
     \<and> lv_limit s = last (None # p_taken (lv_poll s))
     \<and> budget_of (lim (n_lim (lv_net s))) = last (loaded # map (conf_budget (the_width k)) (l_taken (lv_poll s)))
     \<and> (\<not> r_panicked (n_req (lv_net s)) \<longrightarrow>
          period (n_req (lv_net s)) = last (Some 1000000000 # map conf_period (r_taken (lv_poll s))))"

lemma poll_step_taken:
  assumes "poll_step q e = Some q'"
  shows "p_taken q' = p_taken q @ (if e = TakeStorage then opt_list (p_chan q) else [])
    \<and> r_taken q' = r_taken q @ (if e = TakePeriod then opt_list (r_chan q) else [])
    \<and> l_taken q' = l_taken q @ (if e = TakeCellular then opt_list (l_chan q) else [])"
  using assms by (cases e) (auto simp: opt_list_def split: if_splits option.splits poll_phase.splits)

lemma in_force_step:
  assumes "in_force k loaded dls s" and "live_step k s e = Some t"
  shows "in_force k loaded (dls @ answers [e]) t"
  using assms(2)
proof (cases rule: live_step_cases)
  case (acts ev n)
  with net_step_limits [OF acts(4,2)] assms(1) show ?thesis by (simp add: in_force_def)
next
  case (polls ev q)
  with poll_inv_step [OF _ polls(3)] poll_step_taken [OF polls(3)] assms(1) show ?thesis
    by (auto simp: in_force_def simp del: poll_step.simps)
next
  case (persistor l q)
  with poll_inv_step [OF _ persistor(3)] poll_step_taken [OF persistor(3)] assms(1) show ?thesis
    by (auto simp: in_force_def opt_list_def simp del: poll_step.simps)
next
  case (requester d q r)
  with poll_inv_step [OF _ requester(3)] poll_step_taken [OF requester(3)] req_step_period [OF requester(4)] assms(1) show ?thesis
    by (auto simp: in_force_def opt_list_def simp del: poll_step.simps req_step.simps net_step.simps)
next
  case (limiter now c q l)
  with poll_inv_step [OF _ limiter(3)] poll_step_taken [OF limiter(3)] lim_step_budget [OF limiter(4)] assms(1) show ?thesis
    by (auto simp: in_force_def opt_list_def simp del: poll_step.simps lim_step.simps net_step.simps)
qed

lemma answers_append [simp]: "answers (es @ fs) = answers es @ answers fs"
  by (induction es rule: answers.induct) simp_all

interpretation enforcing: step_history "live_step k"
  "\<lambda>s es t. \<forall>dls. in_force k loaded dls s \<longrightarrow> in_force k loaded (dls @ answers es) t" for k loaded
proof unfold_locales
  fix s t u :: "'a live" and e es
  assume e: "live_step k s e = Some t" and es: "\<forall>dls. in_force k loaded dls t \<longrightarrow> in_force k loaded (dls @ answers es) u"
  show "\<forall>dls. in_force k loaded dls s \<longrightarrow> in_force k loaded (dls @ answers (e # es)) u"
    using in_force_step [OF _ e] es answers_append [of "[e]" es] by (metis append.assoc append_Cons append_Nil)
qed simp

lemma in_force_new:
  "in_force k (budget_of (lim (NewDataLimiter (the_store k) w))) [] (new_live k srv dps dir w)"
  using poll_inv_new
  by (simp add: in_force_def new_live_def new_net_def new_poll_def NewPeriodicRequester_def split: prod.split)

lemmas live_in_force = enforcing.run_rel [THEN spec [of _ "[]"], THEN mp, OF _ in_force_new, simplified append_Nil]

text \<open>A consumer is at most two polls behind: one limit may wait in its channel, and one may be in the goroutine's hand.\<close>

lemma taken_behind:
  assumes "xs @ opt_list y = map f (take (length dls - a) dls)" and "a \<le> 1"
  shows "\<exists>n \<le> length dls. length dls \<le> n + 2 \<and> xs = map f (take n dls)"
proof (intro exI [of _ "length xs"] conjI)
  from arg_cong [OF assms(1), of length] assms(2) show "length dls \<le> length xs + 2" "length xs \<le> length dls"
    by (auto simp: opt_list_def split: option.splits)
  then show "xs = map f (take (length xs) dls)"
    using arg_cong [OF assms(1), of "take (length xs)"] arg_cong [OF assms(1), of length] by (simp add: take_map min_def split: if_splits)
qed

lemma taken_counts:
  assumes "poll_inv dls q"
  shows "length (r_taken q) \<le> length dls \<and> length dls \<le> length (r_taken q) + 2
    \<and> length (l_taken q) \<le> length (r_taken q) + 1 \<and> length dls \<le> length (l_taken q) + 2"
proof -
  obtain a b c where abc: "unsent (poll_phase q) = (a, b, c)" by (cases "unsent (poll_phase q)")
  then have "a \<le> b" "b \<le> c" "c \<le> 1" by (auto simp: unsent_def split: poll_phase.splits)
  moreover from assms abc have "length (r_taken q @ opt_list (r_chan q)) = length dls - b"
    "length (l_taken q @ opt_list (l_chan q)) = length dls - c" by (simp_all add: poll_inv_def)
  ultimately show ?thesis by (auto simp: opt_list_def split: option.splits)
qed

section \<open>Properties\<close>

text \<open>C9: In every run of the client, the limit under which messages are stored, the period between requests and the data budget
are each what the backend gave in one of its last three answers, or what the client started with: no limit, one second,
and the budget that was saved. (A requester whose ticker has panicked has no period.)\<close>

theorem limits_in_force:
  assumes "run (live_step k) (new_live k srv dps dir w) es = Some s"
  shows "(\<exists>n \<le> length (answers es). length (answers es) \<le> n + 2
      \<and> lv_limit s = last (None # map Storage (take n (answers es))))
    \<and> (\<exists>n \<le> length (answers es). length (answers es) \<le> n + 2
      \<and> (\<not> r_panicked (n_req (lv_net s)) \<longrightarrow>
           period (n_req (lv_net s)) = last (Some 1000000000 # map conf_period (map EmissionPeriod (take n (answers es))))))
    \<and> (\<exists>n \<le> length (answers es). length (answers es) \<le> n + 2
      \<and> budget_of (lim (n_lim (lv_net s))) =
        last (budget_of (lim (NewDataLimiter (the_store k) w)) # map (conf_budget (the_width k)) (map Cellular (take n (answers es)))))"
proof -
  let ?dls = "answers es" and ?q = "lv_poll s"
  from live_in_force [OF assms] have inv: "poll_inv ?dls ?q"
    and force: "lv_limit s = last (None # p_taken ?q)"
      "budget_of (lim (n_lim (lv_net s))) =
        last (budget_of (lim (NewDataLimiter (the_store k) w)) # map (conf_budget (the_width k)) (l_taken ?q))"
      "\<not> r_panicked (n_req (lv_net s)) \<longrightarrow> period (n_req (lv_net s)) = last (Some 1000000000 # map conf_period (r_taken ?q))"
    by (simp_all add: in_force_def)
  obtain a b c where abc: "unsent (poll_phase ?q) = (a, b, c)" by (cases "unsent (poll_phase ?q)")
  then have "a \<le> 1" "b \<le> 1" "c \<le> 1" by (auto simp: unsent_def split: poll_phase.splits)
  moreover from inv abc have "p_taken ?q @ opt_list (p_chan ?q) = map Storage (take (length ?dls - a) ?dls)"
    "r_taken ?q @ opt_list (r_chan ?q) = map EmissionPeriod (take (length ?dls - b) ?dls)"
    "l_taken ?q @ opt_list (l_chan ?q) = map Cellular (take (length ?dls - c) ?dls)" by (auto simp: poll_inv_def)
  ultimately obtain n m l where "n \<le> length ?dls" "length ?dls \<le> n + 2" and n: "p_taken ?q = map Storage (take n ?dls)"
    and "m \<le> length ?dls" "length ?dls \<le> m + 2" and m: "r_taken ?q = map EmissionPeriod (take m ?dls)"
    and "l \<le> length ?dls" "length ?dls \<le> l + 2" and l: "l_taken ?q = map Cellular (take l ?dls)"
    using taken_behind [of "p_taken ?q"] taken_behind [of "r_taken ?q"] taken_behind [of "l_taken ?q"] by metis
  with force [unfolded n m l] show ?thesis by blast
qed

definition sample_live :: "(disk \<times> (string \<times> bytes) list) live" where
  "sample_live = new_live sample_parts [sample_point] [] ''d'' empty_site"

definition sample_live_events :: "live_event list" where
  "sample_live_events = [Polls (Polled (Inr sample_limits)), Polls SentStorage, Polls SentPeriod, Requester_takes, Persistor_takes]"

theorem limits_in_force_witness:
  "\<exists>s. run (live_step sample_parts) sample_live sample_live_events = Some s
     \<and> lv_limit s = Some 7 \<and> period (n_req (lv_net s)) = Some 60000000000
     \<and> (\<exists>n \<le> 1. lv_limit s = last (None # map Storage (take n [sample_limits])))"
proof -
  have "case run (live_step sample_parts) sample_live sample_live_events of None \<Rightarrow> False
    | Some s \<Rightarrow> lv_limit s = Some 7 \<and> period (n_req (lv_net s)) = Some 60000000000" by code_simp
  then obtain s where s: "run (live_step sample_parts) sample_live sample_live_events = Some s"
    "lv_limit s = Some 7" "period (n_req (lv_net s)) = Some 60000000000" by (auto split: option.splits)
  have "answers sample_live_events = [sample_limits]" by (simp add: sample_live_events_def)
  with limits_in_force [OF s(1) [unfolded sample_live_def]] s show ?thesis by auto
qed

lemma stopped_step:
  assumes "live_step k s e = Some t" and "r_stopped (n_req (lv_net s))"
  shows "r_stopped (n_req (lv_net t)) \<and> r_taken (lv_poll t) = r_taken (lv_poll s)"
  using assms(1)
proof (cases rule: live_step_cases)
  case (acts ev n)
  with net_step_limits [OF acts(4,2)] assms(2) show ?thesis by simp
next
  case (polls ev q)
  with poll_step_taken [OF polls(3)] assms(2) show ?thesis by (auto simp del: poll_step.simps)
next
  case (persistor l q)
  with poll_step_taken [OF persistor(3)] assms(2) show ?thesis by (simp del: poll_step.simps)
next
  case (requester d q r)
  with req_step_stopped [OF requester(4)] assms(2) show ?thesis by simp
next
  case (limiter now c q l)
  with poll_step_taken [OF limiter(3)] assms(2) show ?thesis by (simp del: poll_step.simps lim_step.simps net_step.simps)
qed

text \<open>C18: The limits are frozen when the requester has ended, as it does at its second write error while the application runs on:
whatever the client does then, the backend answers at most twice more, and the limiter takes at most three more
budgets, two of which were on their way.\<close>

theorem limits_freeze:
  assumes "run (live_step k) (new_live k srv dps dir w) es = Some s" and "r_stopped (n_req (lv_net s))"
    and "run (live_step k) s es' = Some t"
  shows "length (answers es') \<le> 2 \<and> length (l_taken (lv_poll t)) \<le> length (l_taken (lv_poll s)) + 3"
proof -
  have "r_stopped (n_req (lv_net t)) \<and> r_taken (lv_poll t) = r_taken (lv_poll s)"
    using run_keeps [where J = "\<lambda>t. r_stopped (n_req (lv_net t)) \<and> r_taken (lv_poll t) = r_taken (lv_poll s)",
        OF _ _ assms(3) along_True] stopped_step assms(2) by (metis (no_types, lifting))
  moreover from assms have "run (live_step k) (new_live k srv dps dir w) (es @ es') = Some t" by (simp add: run_append)
  ultimately show ?thesis
    using live_in_force [OF assms(1)] live_in_force [of k srv dps dir w "es @ es'" t]
      taken_counts [of "answers es" "lv_poll s"] taken_counts [of "answers (es @ es')" "lv_poll t"]
    by (simp add: in_force_def)
qed

definition two_failures :: "live_event list" where
  "two_failures = [Acts (Requests Ticks), Acts (Requests (OnTick (Some ''EPIPE''))), Acts (Requests Ticks),
     Acts (Requests (OnTick (Some ''EPIPE'')))]"

definition polls_go_on :: "live_event list" where
  "polls_go_on = [Polls (Polled (Inr sample_limits)), Polls SentStorage, Polls SentPeriod, Polls SentCellular, Persistor_takes,
     Polls Hour, Polls (Polled (Inr sample_limits)), Polls SentStorage, Persistor_takes]"

theorem limits_freeze_witness:
  "\<exists>s t. run (live_step sample_parts) sample_live two_failures = Some s \<and> run (live_step sample_parts) s polls_go_on = Some t
     \<and> length (answers polls_go_on) = 2 \<and> length (l_taken (lv_poll t)) \<le> 3"
proof -
  have "case run (live_step sample_parts) sample_live two_failures of None \<Rightarrow> False
    | Some s \<Rightarrow> r_stopped (n_req (lv_net s)) \<and> l_taken (lv_poll s) = [] \<and> run (live_step sample_parts) s polls_go_on \<noteq> None"
    by code_simp
  then obtain s t where s: "run (live_step sample_parts) sample_live two_failures = Some s" "r_stopped (n_req (lv_net s))"
    "l_taken (lv_poll s) = []" "run (live_step sample_parts) s polls_go_on = Some t" by (auto split: option.splits)
  from limits_freeze [OF s(1) [unfolded sample_live_def] s(2,4)] s show ?thesis by (simp add: polls_go_on_def)
qed

text \<open>The client with polling refines the network: what polling adds only chooses among the runs of the network, so what holds of
all of them holds of the client.\<close>

theorem live_refines_network:
  assumes "run (live_step k) (new_live k srv dps dir w) es = Some s"
  shows "\<exists>fs. run (net_step k) (new_net k srv dps dir w) fs = Some (lv_net s)"
  using live.run_sim [OF TrueI _ assms, of "new_net k srv dps dir w"] by (simp add: new_live_def)

theorem live_refines_network_witness:
  "\<exists>fs n. run (net_step sample_parts) sample_net fs = Some n \<and> period (n_req n) = Some 60000000000"
proof -
  have "case run (live_step sample_parts) sample_live sample_live_events of None \<Rightarrow> False
    | Some s \<Rightarrow> period (n_req (lv_net s)) = Some 60000000000" by code_simp
  then obtain s where s: "run (live_step sample_parts) sample_live sample_live_events = Some s"
    "period (n_req (lv_net s)) = Some 60000000000" by (auto split: option.splits)
  from live_refines_network [OF s(1) [unfolded sample_live_def]] s(2) show ?thesis unfolding sample_net_def by blast
qed

lemma in_force_storage:
  assumes "in_force k loaded dls s" and "lv_limit s = Some L"
  shows "Some L \<in> set (map Storage (drop (length dls - 3) dls))"
proof -
  obtain a b c where abc: "unsent (poll_phase (lv_poll s)) = (a, b, c)" by (cases "unsent (poll_phase (lv_poll s))")
  then have "a \<le> 1" by (auto simp: unsent_def split: poll_phase.splits)
  moreover from assms(1) abc have "p_taken (lv_poll s) @ opt_list (p_chan (lv_poll s)) = map Storage (take (length dls - a) dls)"
    by (simp add: in_force_def poll_inv_def)
  ultimately obtain n where n: "n \<le> length dls" "length dls \<le> n + 2" "p_taken (lv_poll s) = map Storage (take n dls)"
    using taken_behind by blast
  from assms n(3) have "Some L = last (None # map Storage (take n dls))" by (simp add: in_force_def)
  then have "n \<noteq> 0" "dls \<noteq> []" and "Some L = Storage (dls ! (n - 1))"
    using n(1) by (auto simp: last_map last_conv_nth split: if_splits)
  moreover from this n have "dls ! (n - 1) = drop (length dls - 3) dls ! (n - 1 - (length dls - 3))"
    "n - 1 - (length dls - 3) < length (drop (length dls - 3) dls)" by auto
  ultimately show ?thesis using nth_mem [of "n - 1 - (length dls - 3)" "drop (length dls - 3) dls"] by simp
qed

text \<open>C19: Whenever the client stores a message while a storage limit is in force, the backend gave this limit in one of its last
three answers, and the message and what the client's directory held before it are together at most 90 percent of it.\<close>

theorem stored_within_limit:
  assumes "run (live_step k) (new_live k srv dps dir w) es = Some s"
    and "live_step k s (Acts (Converts i a l)) = Some t" and "n_conv (lv_net t) = [b]" and "has_fs b"
    and "lv_limit s = Some L" and "0 \<le> L" and "fits 64 (9 * L)"
  shows "Some L \<in> set (map Storage (drop (length (answers es) - 3) (answers es)))
    \<and> (\<exists>used. storage_size (the_fs k) (msg_dir (n_pers (lv_net s))) (world (n_lim (lv_net s))) = (used, None)
       \<and> (fits 64 (msg_len b + used) \<longrightarrow> 10 * (msg_len b + used) \<le> 9 * L))"
proof
  show "Some L \<in> set (map Storage (drop (length (answers es) - 3) (answers es)))"
    using in_force_storage [OF live_in_force [OF assms(1)] assms(5)] .
  from assms(2,5) have "net_step k (lv_net s) (Converts i a (Some L)) = Some (lv_net t)"
    by (auto simp del: net_step.simps split: if_splits)
  then obtain m p w' where
    conv: "convert_one (the_width k) (the_msgpack k) (the_fs k) (the_pid k) (the_config k)
        (Some (n_pers (lv_net s)), world (n_lim (lv_net s))) (m, a, Some L) = (n_conv (lv_net t), Some p, w')"
  proof (cases rule: net_step_cases)
    case (converts i' a' l' g out p w')
    with that [of "snd (last (taken g))" p w'] show ?thesis by (simp del: merge_step.simps)
  qed auto
  from conv show "\<exists>used. storage_size (the_fs k) (msg_dir (n_pers (lv_net s))) (world (n_lim (lv_net s))) = (used, None)
       \<and> (fits 64 (msg_len b + used) \<longrightarrow> 10 * (msg_len b + used) \<le> 9 * L)"
  proof (cases rule: convert_one_cases)
    case (stored q q' b')
    with assms(3) have "b' = b" by simp
    from stored(5) show ?thesis
    proof (cases rule: CreateMessage_cases)
      case (saved e used)
      with over_limit_iff [OF assms(6,7), of "msg_len b" used] stored(2) \<open>b' = b\<close> show ?thesis
        by (auto simp: limit_error_def msg_len_def split: if_splits)
    qed simp
  qed (use assms(3,4) in \<open>auto simp: report_def empty_message_def\<close>)
qed

definition limited_storing :: "live_event list" where
  "limited_storing = [Polls (Polled (Inr (sample_limits\<lparr>Storage := Some 70\<rparr>))), Polls SentStorage, Persistor_takes,
     Acts Server_sends, Acts Server_ends]"

theorem stored_within_limit_witness:
  "\<exists>s used. run (live_step sample_parts) sample_live limited_storing = Some s
     \<and> storage_size (the_fs sample_parts) (msg_dir (n_pers (lv_net s))) (world (n_lim (lv_net s))) = (used, None)
     \<and> (fits 64 (3 + used) \<longrightarrow> 10 * (3 + used) \<le> 630)"
proof -
  let ?e = "Acts (Converts 0 (sample_ambient\<lparr>now_nano := 0\<rparr>) (Some 70))"
  have "case run (live_step sample_parts) sample_live limited_storing of None \<Rightarrow> False
    | Some s \<Rightarrow> lv_limit s = Some 70 \<and> (case live_step sample_parts s ?e of None \<Rightarrow> False
        | Some t \<Rightarrow> (case n_conv (lv_net t) of [b] \<Rightarrow> has_fs b \<and> msg_len b = 3 | _ \<Rightarrow> False))"
    by code_simp
  then obtain s t b where s: "run (live_step sample_parts) sample_live limited_storing = Some s" "lv_limit s = Some 70"
    "live_step sample_parts s ?e = Some t" "n_conv (lv_net t) = [b]" "has_fs b" "msg_len b = 3"
    by (simp only: split: option.splits list.splits) blast+
  have "0 \<le> (70::int)" "fits 64 (9 * (70::int))" by (simp_all add: fits_def)
  from stored_within_limit [OF s(1) [unfolded sample_live_def] s(3,4,5,2) this] s(1,6) show ?thesis by auto
qed

end
