(* ===== verification/LiveEnds.thy ===== *)
theory LiveEnds
  imports Live Shutdown
begin

text \<open>
  The client with the backend in it ends, too: whatever the goroutine of \<open>pollConfig\<close> waits for, the network needs nothing of it.
\<close>

declare lim_step.simps [simp del] merge_step.simps [simp del] net_step.simps [simp del] req_step.simps [simp del] poll_step.simps [simp del]

section \<open>What the client does by itself\<close>

text \<open>The steps of the network, each under the limit that is in force; the polls, and what is taken of them, are not needed.\<close>

fun live_own :: "live_event \<Rightarrow> bool" where
  "live_own (Acts e) = productive e"
| "live_own _ = False"

fun live_adds :: "live_event \<Rightarrow> nat" where
  "live_adds (Acts e) = adds e"
| "live_adds (Limiter_takes _) = 1"
| "live_adds _ = 0"

definition live_ok :: "agent_Message list \<Rightarrow> agent_Message list \<Rightarrow> 'w live \<Rightarrow> bool" where
  "live_ok srv dps s \<longleftrightarrow> ends_ok (lv_net s) \<and> accounts srv dps (lv_net s)"

lemma productive_configures: "productive e \<Longrightarrow> \<not> configures e"
  by (cases e rule: configures.cases) auto

text \<open>A step of the whole is a step of the network or leaves the network as it is.\<close>

lemma live_step_net:
  assumes "live_step k s e = Some t"
  obtains (net) f where "net_step k (lv_net s) f = Some (lv_net t)" "live_own e \<longleftrightarrow> productive f" "live_adds e = adds f"
  | (none) "lv_net t = lv_net s" "\<not> live_own e"
  using assms
proof (cases rule: live_step_cases)
  case (acts ev n)
  then show ?thesis by (intro net [of ev]) simp_all
next
  case (requester d q r)
  then show ?thesis by (intro net [of "Requests (OnConf d)"]) (simp_all add: adds_def)
next
  case (limiter now c q l)
  then show ?thesis by (intro net [of "Limit_acts now (Configure c)"]) (simp_all add: adds_def)
qed (simp_all add: none)

lemma live_acts:
  assumes "net_step k (lv_net s) e = Some n" and "productive e" and "stores_under (lv_limit s) e"
  shows "live_step k s (Acts e) = Some (s\<lparr>lv_net := n\<rparr>)"
  using assms productive_configures by simp

interpretation live_ends: winding_down "live_step k" "live_ok srv dps" live_own live_adds "\<lambda>s. net_work (lv_net s)"
  "\<lambda>s. settled (lv_net s)" "\<lambda>s. n_ended (lv_net s)" for k srv dps
proof unfold_locales
  fix s t :: "'a live" and e
  assume ok: "live_ok srv dps s" and step: "live_step k s e = Some t"
  from step show "live_ok srv dps t"
  proof (cases rule: live_step_net)
    case (net f)
    from ends_ok_step [OF ok [unfolded live_ok_def] net(1)] show ?thesis by (simp add: live_ok_def)
  next
    case none
    with ok show ?thesis by (simp add: live_ok_def)
  qed
  from step show "net_work (lv_net t) + (if live_own e then 1 else 0) \<le> net_work (lv_net s) + live_adds e"
  proof (cases rule: live_step_net)
    case (net f)
    from ok net_work_step [OF _ net(1)] net(2,3) show ?thesis by (simp add: live_ok_def)
  next
    case none
    then show ?thesis by simp
  qed
next
  fix s t :: "'a live" and e
  assume alive: "settled (lv_net s)" and own: "live_own e" and step: "live_step k s e = Some t"
  from step own obtain f where f: "net_step k (lv_net s) f = Some (lv_net t)" "productive f" "live_adds e = adds f"
    by (cases rule: live_step_net) auto
  from settled_adds [OF alive f(2,1)] f(3) show "live_adds e = 0" by simp
  from shutdown.alive_step [OF alive f(2,1)] show "settled (lv_net t)" .
next
  fix s :: "'a live"
  assume "live_ok srv dps s" "settled (lv_net s)" "\<not> n_ended (lv_net s)"
  then have "proceeds k (lv_limit s) (lv_net s)" by (intro net_progress) (simp_all add: live_ok_def settled_def)
  then show "\<exists>e t. live_own e \<and> live_step k s e = Some t"
    unfolding proceeds_def by (metis live_acts live_own.simps(1))
qed

lemma live_new_ok: "live_ok srv dps (new_live k srv dps dir w)"
  using new_net_ends_ok by (simp add: live_ok_def new_live_def)

lemma live_finishes:
  assumes ok: "live_ok srv dps s" and alive: "\<not> r_panicked (n_req (lv_net s))"
  shows "\<exists>es t. run (live_step k) s es = Some t \<and> n_ended (lv_net t) \<and> list_all live_own es
    \<and> length es \<le> net_work (lv_net s) + sum_list (map live_adds es)"
proof (cases "n_listed (lv_net s)")
  case (Some l)
  with alive have "settled (lv_net s)" by (simp add: settled_def)
  from live_ends.finishes [OF ok this, of k] show ?thesis by (meson trans_le_add1)
next
  case None
  obtain paths err where "filepaths (the_fs k) (msg_dir (n_pers (lv_net s))) (world (n_lim (lv_net s))) = (paths, err)" by fastforce
  with None obtain n where n: "net_step k (lv_net s) (Loader_lists paths err) = Some n" by (simp add: net_step.simps)
  let ?e = "Acts (Loader_lists paths err)" and ?u = "s\<lparr>lv_net := n\<rparr>"
  from live_acts [OF n] have u: "live_step k s ?e = Some ?u" by simp
  from alive n None have "settled (lv_net ?u)" by (auto simp: settled_def net_step.simps split: if_splits)
  from live_ends.finishes [OF live_ends.step_inv [OF ok u] this, of k] obtain es t where
    t: "run (live_step k) ?u es = Some t" "n_ended (lv_net t)" "list_all live_own es" "length es \<le> net_work (lv_net ?u)" by blast
  from live_ends.work_step [OF ok u] t(4) have "length (?e # es) \<le> net_work (lv_net s) + sum_list (map live_adds (?e # es))" by simp
  with t u show ?thesis by (intro exI [of _ "?e # es"] exI [of _ t]) (simp del: live_step.simps)
qed

section \<open>Properties\<close>

text \<open>C7: The backend cannot keep the client from its end: whatever it has answered, however far the polling goroutine has got and even when
it is blocked for ever, the client can go on by itself until the producer has disconnected, storing every message under the limit
in force, within the bound of the work that is left; and no run has more steps of the client's own than the bound, but for one more for each
time the timer or a configuration interrupts the limiter, and for what the loader found. The requester must not have panicked.\<close>

theorem live_shuts_down:
  assumes "run (live_step k) (new_live k srv dps dir w) es = Some s" and "\<not> r_panicked (n_req (lv_net s))"
  shows "(\<exists>es' t. run (live_step k) s es' = Some t \<and> n_ended (lv_net t) \<and> list_all live_own es'
      \<and> length es' \<le> net_work (lv_net s) + sum_list (map live_adds es'))
    \<and> net_work (lv_net s) + length (filter live_own es) \<le> net_work (lv_net (new_live k srv dps dir w)) + sum_list (map live_adds es)"
  using live_finishes [OF live_ends.run_inv [OF live_new_ok assms(1)] assms(2)] live_ends.run_work [OF live_new_ok assms(1)] by blast

theorem live_shuts_down_witness:
  "\<exists>s es' t. run (live_step sample_parts) sample_live (two_failures @ polls_go_on) = Some s \<and> poll_step (lv_poll s) SentPeriod = None \<and>
     run (live_step sample_parts) s es' = Some t \<and> n_ended (lv_net t) \<and> list_all live_own es'"
proof -
  let ?r = "run (live_step sample_parts) sample_live (two_failures @ polls_go_on)"
  have "case ?r of None \<Rightarrow> False
    | Some s \<Rightarrow> \<not> r_panicked (n_req (lv_net s)) \<and> Option.is_none (poll_step (lv_poll s) SentPeriod)" by code_simp
  then obtain s where s: "?r = Some s" "\<not> r_panicked (n_req (lv_net s))" "poll_step (lv_poll s) SentPeriod = None"
    by (auto simp: Option.is_none_def split: option.splits)
  from live_shuts_down [OF s(1) [unfolded sample_live_def] s(2)] s(1,3) show ?thesis by blast
qed

end
