(* ===== verification/Local.thy ===== *)
theory Local
  imports Ends Outputs
begin

text \<open>
  The pipelines without a broker (\<open>cmd/client/main.go\<close>, lines 124 to 216): the dumper prints what the agent sends, and the
  serial pipeline converts it and writes it to a serial port. Both read the two servers of the agent through a merger, and
  have a requester; here are their goroutines and channels under every schedule.
\<close>

section \<open>The agent's streams\<close>

text \<open>
  What the two servers have still to send, whether \<open>server.Done\<close> is closed, the merger and the requester. The pipelines extend this
  record. No configuration arrives: the requester's channel for it is nil.
\<close>

record feed =
  fd_srv :: "agent_Message list"
  fd_dps :: "agent_Message list"
  fd_done :: bool
  fd_agents :: "agent_Message merger"
  fd_req :: requester

datatype feed_event =
    Srv_sends | Srv_ends | Srv_done | Dps_sends | Dps_ends | Merges "agent_Message merge_event" | Req req_event

fun feed_step :: "'a feed_scheme \<Rightarrow> feed_event \<Rightarrow> 'a feed_scheme option" where
  "feed_step s Srv_sends =
     (case fd_srv s of
        [] \<Rightarrow> None
      | m # ms \<Rightarrow> map_option (\<lambda>g. s\<lparr>fd_srv := ms, fd_agents := g\<rparr>) (merge_step (fd_agents s) (Arrive 0 m)))"
| "feed_step s Srv_ends =
     (if fd_srv s = [] then map_option (\<lambda>g. s\<lparr>fd_agents := g\<rparr>) (merge_step (fd_agents s) (CloseSource 0)) else None)"
| "feed_step s Srv_done =
     (if src_closed (workers (fd_agents s) ! 0) \<and> \<not> fd_done s then Some (s\<lparr>fd_done := True\<rparr>) else None)"
| "feed_step s Dps_sends =
     (case fd_dps s of
        [] \<Rightarrow> None
      | m # ms \<Rightarrow> map_option (\<lambda>g. s\<lparr>fd_dps := ms, fd_agents := g\<rparr>) (merge_step (fd_agents s) (Arrive 1 m)))"
| "feed_step s Dps_ends =
     (if fd_dps s = [] then map_option (\<lambda>g. s\<lparr>fd_agents := g\<rparr>) (merge_step (fd_agents s) (CloseSource 1)) else None)"
| "feed_step s (Merges e) =
     (if internal e then map_option (\<lambda>g. s\<lparr>fd_agents := g\<rparr>) (merge_step (fd_agents s) e) else None)"
| "feed_step s (Req e) =
     (case e of
        OnConf _ \<Rightarrow> None
      | OnDone \<Rightarrow> if fd_done s then map_option (\<lambda>r. s\<lparr>fd_req := r\<rparr>) (req_step (fd_req s) e) else None
      | _ \<Rightarrow> map_option (\<lambda>r. s\<lparr>fd_req := r\<rparr>) (req_step (fd_req s) e))"

lemma feed_step_cases:
  assumes "feed_step s e = Some t"
  obtains (srv_sends) m ms g where "e = Srv_sends" "fd_srv s = m # ms" "merge_step (fd_agents s) (Arrive 0 m) = Some g"
      "t = s\<lparr>fd_srv := ms, fd_agents := g\<rparr>"
  | (srv_ends) g where "e = Srv_ends" "fd_srv s = []" "merge_step (fd_agents s) (CloseSource 0) = Some g" "t = s\<lparr>fd_agents := g\<rparr>"
  | (srv_done) "e = Srv_done" "src_closed (workers (fd_agents s) ! 0)" "\<not> fd_done s" "t = s\<lparr>fd_done := True\<rparr>"
  | (dps_sends) m ms g where "e = Dps_sends" "fd_dps s = m # ms" "merge_step (fd_agents s) (Arrive 1 m) = Some g"
      "t = s\<lparr>fd_dps := ms, fd_agents := g\<rparr>"
  | (dps_ends) g where "e = Dps_ends" "fd_dps s = []" "merge_step (fd_agents s) (CloseSource 1) = Some g" "t = s\<lparr>fd_agents := g\<rparr>"
  | (merges) ev g where "e = Merges ev" "internal ev" "merge_step (fd_agents s) ev = Some g" "t = s\<lparr>fd_agents := g\<rparr>"
  | (req) ev r where "e = Req ev" "\<nexists>d. ev = OnConf d" "ev = OnDone \<longrightarrow> fd_done s" "req_step (fd_req s) ev = Some r"
      "t = s\<lparr>fd_req := r\<rparr>"
proof (cases e)
  case (Req ev)
  with assms req show ?thesis by (cases ev) (auto simp del: req_step.simps split: if_splits)
qed (use assms that in \<open>auto simp del: merge_step.simps split: list.splits if_splits\<close>)

text \<open>What the servers have sent, and what the ends of their channels tell.\<close>

definition feed_ok :: "agent_Message list \<Rightarrow> agent_Message list \<Rightarrow> 'a feed_scheme \<Rightarrow> bool" where
  "feed_ok srv dps s \<longleftrightarrow> merger_ok 2 0 (fd_agents s)
     \<and> got (workers (fd_agents s) ! 0) @ fd_srv s = srv \<and> got (workers (fd_agents s) ! 1) @ fd_dps s = dps
     \<and> (src_closed (workers (fd_agents s) ! 0) \<longrightarrow> fd_srv s = []) \<and> (src_closed (workers (fd_agents s) ! 1) \<longrightarrow> fd_dps s = [])
     \<and> (fd_done s \<longrightarrow> src_closed (workers (fd_agents s) ! 0))"

lemma feed_ok_step:
  assumes ok: "feed_ok srv dps s" and step: "feed_step s e = Some t"
  shows "feed_ok srv dps t"
proof -
  from ok have m: "merger_ok 2 0 (fd_agents s)" by (simp add: feed_ok_def)
  note len = merger_len [OF m] and up = merger_ok_step [OF m]
  from step show ?thesis
  proof (cases rule: feed_step_cases)
    case (srv_sends m ms g)
    with ok show ?thesis unfolding feed_ok_def
      by (elim conjE, simp add: len merge_step_frame [OF srv_sends(3)] up [OF srv_sends(3)] del: merge_step.simps)
  next
    case (srv_ends g)
    with ok show ?thesis unfolding feed_ok_def
      by (elim conjE, simp add: len merge_step_frame [OF srv_ends(3)] up [OF srv_ends(3)] del: merge_step.simps)
  next
    case (dps_sends m ms g)
    with ok show ?thesis unfolding feed_ok_def
      by (elim conjE, simp add: len merge_step_frame [OF dps_sends(3)] up [OF dps_sends(3)] del: merge_step.simps)
  next
    case (dps_ends g)
    with ok show ?thesis unfolding feed_ok_def
      by (elim conjE, simp add: len merge_step_frame [OF dps_ends(3)] up [OF dps_ends(3)] del: merge_step.simps)
  next
    case (merges ev g)
    then show ?thesis using ok unfolding feed_ok_def
      by (cases ev; elim conjE; simp add: len merge_step_frame [OF merges(3)] up [OF merges(3)] del: merge_step.simps)
  qed (use ok in \<open>auto simp: feed_ok_def\<close>)
qed

text \<open>The reader of the merger takes a message.\<close>

lemma feed_ok_direct:
  assumes "feed_ok srv dps s" and "merge_step (fd_agents s) (Direct i) = Some g"
  shows "feed_ok srv dps (s\<lparr>fd_agents := g\<rparr>)"
proof -
  from assms(1) have m: "merger_ok 2 0 (fd_agents s)" by (simp add: feed_ok_def)
  from assms(1) show ?thesis unfolding feed_ok_def
    by (elim conjE, simp add: merger_len [OF m] merge_step_frame [OF assms(2)] merger_ok_step [OF m assms(2)] del: merge_step.simps)
qed

lemma feed_complete:
  assumes "feed_ok srv dps s" and "closed (fd_agents s)"
  shows "map snd (taken (fd_agents s)) \<in> shuffles srv dps"
proof -
  from assms(1) have m: "merger_ok 2 0 (fd_agents s)" by (simp add: feed_ok_def)
  then have "buf (fd_agents s) = []" by (auto simp: merger_ok_def count_ok_def)
  note all = closed_all_taken [OF m assms(2) this] and cl = closed_all_closed [OF m assms(2)]
  have "from_source 0 (taken (fd_agents s)) = srv" "from_source 1 (taken (fd_agents s)) = dps"
    using all [of 0] all [of 1] cl [of 0] cl [of 1] assms(1) by (auto simp: feed_ok_def)
  with shuffles_by_source [of "taken (fd_agents s)"] taken_tags [OF m] show ?thesis by auto
qed

text \<open>A bound on what the servers and the merger still do by themselves; it is not up to them to let the requester's ticker tick.\<close>

fun feed_productive :: "feed_event \<Rightarrow> bool" where
  "feed_productive (Req _) = False"
| "feed_productive _ = True"

definition feed_work :: "'a feed_scheme \<Rightarrow> nat" where
  "feed_work s = 3 * length (fd_srv s) + 3 * length (fd_dps s) + (if fd_done s then 0 else 1)
     + work_left (fd_agents s) + open_sources (fd_agents s)"

lemma feed_work_step:
  assumes "feed_ok srv dps s" and "feed_step s e = Some t"
  shows "feed_work t + (if feed_productive e then 1 else 0) \<le> feed_work s"
proof -
  from assms(1) have m: "count_ok (fd_agents s)" by (simp add: feed_ok_def merger_ok_def)
  from assms(2) show ?thesis
  proof (cases rule: feed_step_cases)
    case (merges ev g)
    with work_left_exact [OF m merges(3)] open_sources_step [OF merges(3)] show ?thesis by (cases ev) (simp_all add: feed_work_def)
  qed (simp_all add: feed_work_def m arrive_work close_work del: merge_step.simps)
qed

lemma direct_work:
  assumes "count_ok (fd_agents s)" and "merge_step (fd_agents s) (Direct i) = Some g"
  shows "feed_work (s\<lparr>fd_agents := g\<rparr>) + 2 = feed_work s"
  using work_left_exact [OF assms] open_sources_step [OF assms(2)] by (simp add: feed_work_def)

text \<open>Until its output is closed, the merger takes from the servers, or hands a message to its reader.\<close>

lemma feed_progress:
  assumes ok: "feed_ok srv dps s" and "\<not> closed (fd_agents s) \<or> \<not> fd_done s"
  shows "(\<exists>e t. feed_productive e \<and> feed_step s e = Some t) \<or> (\<exists>i g. merge_step (fd_agents s) (Direct i) = Some g)"
proof -
  let ?g = "fd_agents s"
  have can: "?thesis" if "feed_productive e" "feed_step s e \<noteq> None" for e using that by blast
  from ok have m: "merger_ok 2 0 ?g" by (simp add: feed_ok_def)
  then have buf: "buf ?g = []" by (auto simp: merger_ok_def count_ok_def)
  show ?thesis
  proof (cases "closed ?g")
    case True
    with closed_all_closed [OF m True, of 0] assms(2) show ?thesis by (intro can [of Srv_done]) simp_all
  next
    case False
    from m False buf show ?thesis
    proof (cases rule: merger_progress)
      case (inside e t)
      then show ?thesis by (intro can [of "Merges e"]) simp_all
    next
      case (source i)
      then consider "i = 0" | "i = 1" by linarith
      then show ?thesis
      proof cases
        case 1
        with source close_enabled [of 0 ?g] arrive_enabled [of 0 ?g] merger_len [OF m] show ?thesis
          by (intro can [of "if fd_srv s = [] then Srv_ends else Srv_sends"]) (auto simp: neq_Nil_conv simp del: merge_step.simps)
      next
        case 2
        with source close_enabled [of 1 ?g] arrive_enabled [of 1 ?g] merger_len [OF m] show ?thesis
          by (intro can [of "if fd_dps s = [] then Dps_ends else Dps_sends"]) (auto simp: neq_Nil_conv simp del: merge_step.simps)
      qed
    qed blast
  qed
qed

section \<open>The dumper\<close>

text \<open>\<open>d_printed\<close> is what is on the standard output; nobody reads the requester's channel.\<close>

record dumper = feed +
  d_printed :: string
  d_returned :: bool

datatype dumper_event = D_feed feed_event | D_prints nat | D_returns

fun dumper_step :: "(json option \<Rightarrow> string) \<Rightarrow> dumper \<Rightarrow> dumper_event \<Rightarrow> dumper option" where
  "dumper_step raw s (D_feed e) = feed_step s e"
| "dumper_step raw s (D_prints i) =
     map_option (\<lambda>g. s\<lparr>fd_agents := g, d_printed := d_printed s @ dump raw [snd (last (taken g))]\<rparr>)
       (merge_step (fd_agents s) (Direct i))"
| "dumper_step raw s D_returns =
     (if closed (fd_agents s) \<and> \<not> d_returned s then Some (s\<lparr>d_returned := True\<rparr>) else None)"

definition new_dumper :: "agent_Message list \<Rightarrow> agent_Message list \<Rightarrow> dumper" where
  "new_dumper srv dps =
     \<lparr>fd_srv = srv, fd_dps = dps, fd_done = False, fd_agents = Merge_agent 2, fd_req = NewPeriodicRequester,
      d_printed = [], d_returned = False\<rparr>"

definition dumper_ok :: "(json option \<Rightarrow> string) \<Rightarrow> agent_Message list \<Rightarrow> agent_Message list \<Rightarrow> dumper \<Rightarrow> bool" where
  "dumper_ok raw srv dps s \<longleftrightarrow> feed_ok srv dps s \<and> d_printed s = dump raw (map snd (taken (fd_agents s)))
     \<and> (d_returned s \<longrightarrow> closed (fd_agents s))"

lemma feed_step_frame:
  assumes "feed_step s e = Some t"
  shows "feed.more t = feed.more s" and "taken (fd_agents t) = taken (fd_agents s)"
    and "closed (fd_agents s) \<Longrightarrow> closed (fd_agents t)"
proof -
  have "feed.more t = feed.more s \<and> taken (fd_agents t) = taken (fd_agents s) \<and> (closed (fd_agents s) \<longrightarrow> closed (fd_agents t))"
    using assms by (cases rule: feed_step_cases) (auto simp: merge_step_frame(5,6) simp del: merge_step.simps)
  then show "feed.more t = feed.more s" and "taken (fd_agents t) = taken (fd_agents s)"
    and "closed (fd_agents s) \<Longrightarrow> closed (fd_agents t)" by auto
qed

lemma dump_append [simp]: "dump raw (xs @ ys) = dump raw xs @ dump raw ys"
  by (simp add: dump_def)

lemma feed_ok_cong: "fd_srv t = fd_srv s \<Longrightarrow> fd_dps t = fd_dps s \<Longrightarrow> fd_done t = fd_done s \<Longrightarrow> fd_agents t = fd_agents s \<Longrightarrow>
  feed_ok srv dps s \<Longrightarrow> feed_ok srv dps t"
  by (simp add: feed_ok_def)

lemma dumper_ok_step:
  assumes "dumper_ok raw srv dps s" and "dumper_step raw s e = Some t"
  shows "dumper_ok raw srv dps t"
proof (cases e)
  case (D_feed ev)
  with assms(2) have step: "feed_step s ev = Some t" by simp
  from feed_step_frame(1) [OF step] have "d_printed t = d_printed s" "d_returned t = d_returned s"
    by (cases s; cases t; simp)+
  with assms(1) feed_ok_step [OF _ step] feed_step_frame(2,3) [OF step] show ?thesis by (simp add: dumper_ok_def)
next
  case (D_prints i)
  with assms(2) obtain g where g: "merge_step (fd_agents s) (Direct i) = Some g"
    "t = s\<lparr>fd_agents := g, d_printed := d_printed s @ dump raw [snd (last (taken g))]\<rparr>" by (auto simp del: merge_step.simps)
  from assms(1) have "count_ok (fd_agents s)" by (simp add: dumper_ok_def feed_ok_def merger_ok_def)
  from direct_taken [OF this g(1)] obtain x where "\<not> closed (fd_agents s)" "taken g = taken (fd_agents s) @ [x]" by blast
  with assms(1) feed_ok_direct [OF _ g(1)] g(2) show ?thesis
    by (auto simp: dumper_ok_def intro: feed_ok_cong [of _ "s\<lparr>fd_agents := g\<rparr>"])
next
  case D_returns
  with assms show ?thesis by (auto simp: dumper_ok_def intro: feed_ok_cong [of _ s] split: if_splits)
qed

fun dumper_own :: "dumper_event \<Rightarrow> bool" where
  "dumper_own (D_feed e) = feed_productive e"
| "dumper_own _ = True"

definition dumper_work :: "dumper \<Rightarrow> nat" where
  "dumper_work s = feed_work s + (if d_returned s then 0 else 1)"

interpretation dumping: winding_down "dumper_step raw" "dumper_ok raw srv dps" dumper_own "\<lambda>_. 0" dumper_work "\<lambda>_. True" d_returned
  for raw srv dps
proof unfold_locales
  fix s t e
  assume ok: "dumper_ok raw srv dps s" and step: "dumper_step raw s e = Some t"
  from ok step show "dumper_ok raw srv dps t" by (rule dumper_ok_step)
  from ok have f: "feed_ok srv dps s" "count_ok (fd_agents s)" by (simp_all add: dumper_ok_def feed_ok_def merger_ok_def)
  show "dumper_work t + (if dumper_own e then 1 else 0) \<le> dumper_work s + 0"
  proof (cases e)
    case (D_feed ev)
    with step have fs: "feed_step s ev = Some t" by simp
    from feed_step_frame(1) [OF fs] have "d_returned t = d_returned s" by (cases s; cases t; simp)
    with D_feed feed_work_step [OF f(1) fs] show ?thesis by (simp add: dumper_work_def)
  next
    case (D_prints i)
    with step direct_work [OF f(2), of i] show ?thesis by (auto simp: dumper_work_def feed_work_def simp del: merge_step.simps)
  qed (use step in \<open>auto simp: dumper_work_def feed_work_def split: if_splits\<close>)
next
  fix s
  assume ok: "dumper_ok raw srv dps s" and "\<not> d_returned s"
  show "\<exists>e t. dumper_own e \<and> dumper_step raw s e = Some t"
  proof (cases "closed (fd_agents s)")
    case True
    with \<open>\<not> d_returned s\<close> show ?thesis by (intro exI [of _ D_returns]) simp
  next
    case False
    from ok have "feed_ok srv dps s" by (simp add: dumper_ok_def)
    from feed_progress [OF this disjI1 [OF False]] show ?thesis
    proof (elim disjE exE conjE)
      fix e t assume "feed_productive e" "feed_step s e = Some t"
      then show ?thesis by (intro exI [of _ "D_feed e"]) simp
    next
      fix i g assume "merge_step (fd_agents s) (Direct i) = Some g"
      then show ?thesis by (intro exI [of _ "D_prints i"]) (simp del: merge_step.simps)
    qed
  qed
qed simp_all

lemma new_dumper_ok: "dumper_ok raw srv dps (new_dumper srv dps)"
  using new_merger_merger_ok [of 2 0]
  by (auto simp: dumper_ok_def feed_ok_def new_dumper_def Merge_agent_def dump_def) (simp_all add: new_merger_def)

text \<open>C15: The dumper prints all that the agent sends and returns: under every schedule, when it has returned, it has printed the messages of the two
servers, each server's in their order; and from every state it can go on by itself until it returns, within a bound that
also bounds the steps it has taken by itself.\<close>

theorem dumper_prints_all:
  assumes "run (dumper_step raw) (new_dumper srv dps) es = Some s"
  shows "(d_returned s \<longrightarrow> (\<exists>ms \<in> shuffles srv dps. d_printed s = dump raw ms))
    \<and> (\<exists>es' t. run (dumper_step raw) s es' = Some t \<and> d_returned t)
    \<and> length (filter dumper_own es) \<le> dumper_work (new_dumper srv dps)"
proof -
  from dumping.run_inv [OF new_dumper_ok assms] have ok: "dumper_ok raw srv dps s" .
  then have "\<exists>ms \<in> shuffles srv dps. d_printed s = dump raw ms" if "d_returned s"
    using that feed_complete [of srv dps s] by (auto simp: dumper_ok_def)
  with dumping.finishes [OF ok TrueI] dumping.run_work [OF new_dumper_ok assms] show ?thesis by auto
qed

definition dumper_run :: "dumper_event list" where
  "dumper_run = [D_feed Srv_sends, D_prints 0, D_feed Srv_ends, D_feed Srv_done, D_feed Dps_ends, D_feed (Merges (SeeClosed 0)),
     D_feed (Merges (SeeClosed 1)), D_feed (Merges WaitOver), D_returns]"

theorem dumper_prints_all_witness:
  "\<exists>s. run (dumper_step (\<lambda>_. ''1'')) (new_dumper [\<lparr>Type = ''log'', Data = None\<rparr>] []) dumper_run = Some s
     \<and> (\<exists>ms \<in> {[\<lparr>Type = ''log'', Data = None\<rparr>]}. d_printed s = dump (\<lambda>_. ''1'') ms)"
proof -
  let ?r = "run (dumper_step (\<lambda>_. ''1'')) (new_dumper [\<lparr>Type = ''log'', Data = None\<rparr>] []) dumper_run"
  have "case ?r of None \<Rightarrow> False | Some s \<Rightarrow> d_returned s" by code_simp
  then obtain s where s: "?r = Some s" "d_returned s" by (auto split: option.splits)
  from dumper_prints_all [OF s(1)] s show ?thesis by simp
qed

end
