(* ===== verification/Serial.thy ===== *)
theory Serial
  imports Local
begin

text \<open>
  The serial pipeline (\<open>cmd/client/main.go\<close>, lines 147 to 216) in the detail of its goroutines and channels: the converter
  without a persistor reads the merger of the agent's streams, a second merger joins it and the requester, and
  the main loop writes what comes out of that to the serial port.
\<close>

section \<open>State and steps\<close>

record ('w, 'h) serial_parts =
  sp_width :: nat
  sp_msgpack :: "payload \<Rightarrow> bytes \<times> string option"
  sp_fs :: "('w, 'h) Fs"
  sp_pid :: int
  sp_serial :: serial

record 'w port = feed +
  sn_conv :: "Message list"
  sn_rsent :: nat
  sn_merger :: "Message merger"
  sn_world :: 'w
  sn_returned :: bool

text \<open>Source 0 of the second merger is the converter, and 1 the requester.\<close>

datatype port_event =
    S_feed feed_event | S_converts nat ambient | S_conv_sends | S_conv_ends | S_req_sends | S_req_ends
  | S_merges "Message merge_event" | S_takes | S_gets nat | S_returns

definition port_writes :: "('w, 'h) serial_parts \<Rightarrow> 'w port \<Rightarrow> Message merger option \<Rightarrow> 'w port option" where
  "port_writes k s r =
     map_option (\<lambda>g. s\<lparr>sn_merger := g,
         sn_world := tryWrite (sp_fs k) (s_addr (sp_serial k)) (snd (last (taken g))) (sn_world s)\<rparr>) r"

fun port_step :: "('w, 'h) serial_parts \<Rightarrow> 'w port \<Rightarrow> port_event \<Rightarrow> 'w port option" where
  "port_step k s (S_feed e) = feed_step s e"
| "port_step k s (S_converts i a) =
     (if sn_conv s = [] then
        (case merge_step (fd_agents s) (Direct i) of
           None \<Rightarrow> None
         | Some g \<Rightarrow>
             (case convert_one (sp_width k) (sp_msgpack k) (sp_fs k) (sp_pid k) (serial_config (sp_serial k))
                     (None, sn_world s) (snd (last (taken g)), a, None) of
                (out, _, w) \<Rightarrow> Some (s\<lparr>fd_agents := g, sn_conv := out, sn_world := w\<rparr>)))
      else None)"
| "port_step k s S_conv_sends =
     (case sn_conv s of
        [] \<Rightarrow> None
      | b # bs \<Rightarrow> map_option (\<lambda>g. s\<lparr>sn_conv := bs, sn_merger := g\<rparr>) (merge_step (sn_merger s) (Arrive 0 b)))"
| "port_step k s S_conv_ends =
     (if closed (fd_agents s) \<and> sn_conv s = [] then
        map_option (\<lambda>g. s\<lparr>sn_merger := g\<rparr>) (merge_step (sn_merger s) (CloseSource 0))
      else None)"
| "port_step k s S_req_sends =
     (if sn_rsent s < length (r_out (fd_req s)) then
        map_option (\<lambda>g. s\<lparr>sn_rsent := Suc (sn_rsent s), sn_merger := g\<rparr>)
          (merge_step (sn_merger s) (Arrive 1 (r_out (fd_req s) ! sn_rsent s)))
      else None)"
| "port_step k s S_req_ends =
     (if r_stopped (fd_req s) \<and> \<not> r_panicked (fd_req s) \<and> sn_rsent s = length (r_out (fd_req s)) then
        map_option (\<lambda>g. s\<lparr>sn_merger := g\<rparr>) (merge_step (sn_merger s) (CloseSource 1))
      else None)"
| "port_step k s (S_merges e) =
     (if internal e then map_option (\<lambda>g. s\<lparr>sn_merger := g\<rparr>) (merge_step (sn_merger s) e) else None)"
| "port_step k s S_takes = port_writes k s (merge_step (sn_merger s) Take)"
| "port_step k s (S_gets i) = port_writes k s (merge_step (sn_merger s) (Direct i))"
| "port_step k s S_returns =
     (if closed (sn_merger s) \<and> buf (sn_merger s) = [] \<and> \<not> sn_returned s then Some (s\<lparr>sn_returned := True\<rparr>) else None)"

definition new_port :: "agent_Message list \<Rightarrow> agent_Message list \<Rightarrow> 'w \<Rightarrow> 'w port" where
  "new_port srv dps w =
     \<lparr>fd_srv = srv, fd_dps = dps, fd_done = False, fd_agents = Merge_agent 2, fd_req = NewPeriodicRequester,
      sn_conv = [], sn_rsent = 0, sn_merger = Merge_messages 2, sn_world = w, sn_returned = False\<rparr>"

lemma port_step_cases:
  assumes "port_step k s e = Some t"
  obtains (feed) ev where "e = S_feed ev" "feed_step s ev = Some t"
  | (converts) i a g out p w where "e = S_converts i a" "sn_conv s = []" "merge_step (fd_agents s) (Direct i) = Some g"
      "convert_one (sp_width k) (sp_msgpack k) (sp_fs k) (sp_pid k) (serial_config (sp_serial k))
         (None, sn_world s) (snd (last (taken g)), a, None) = (out, p, w)"
      "t = s\<lparr>fd_agents := g, sn_conv := out, sn_world := w\<rparr>"
  | (conv_sends) b bs g where "e = S_conv_sends" "sn_conv s = b # bs" "merge_step (sn_merger s) (Arrive 0 b) = Some g"
      "t = s\<lparr>sn_conv := bs, sn_merger := g\<rparr>"
  | (conv_ends) g where "e = S_conv_ends" "closed (fd_agents s)" "sn_conv s = []" "merge_step (sn_merger s) (CloseSource 0) = Some g"
      "t = s\<lparr>sn_merger := g\<rparr>"
  | (req_sends) g where "e = S_req_sends" "sn_rsent s < length (r_out (fd_req s))"
      "merge_step (sn_merger s) (Arrive 1 (r_out (fd_req s) ! sn_rsent s)) = Some g"
      "t = s\<lparr>sn_rsent := Suc (sn_rsent s), sn_merger := g\<rparr>"
  | (req_ends) g where "e = S_req_ends" "r_stopped (fd_req s)" "sn_rsent s = length (r_out (fd_req s))"
      "merge_step (sn_merger s) (CloseSource 1) = Some g" "t = s\<lparr>sn_merger := g\<rparr>"
  | (merges) ev g where "e = S_merges ev" "internal ev" "merge_step (sn_merger s) ev = Some g" "t = s\<lparr>sn_merger := g\<rparr>"
  | (writes) ev g where "e = S_takes \<and> ev = Take \<or> (\<exists>i. e = S_gets i \<and> ev = Direct i)" "merge_step (sn_merger s) ev = Some g"
      "t = s\<lparr>sn_merger := g, sn_world := tryWrite (sp_fs k) (s_addr (sp_serial k)) (snd (last (taken g))) (sn_world s)\<rparr>"
  | (returns) "e = S_returns" "closed (sn_merger s)" "buf (sn_merger s) = []" "\<not> sn_returned s" "t = s\<lparr>sn_returned := True\<rparr>"
proof (cases e)
  case (S_feed ev)
  with assms feed show ?thesis by (simp del: feed_step.simps)
next
  case (S_gets i)
  with assms writes [of "Direct i"] show ?thesis by (auto simp: port_writes_def simp del: merge_step.simps)
next
  case S_takes
  with assms writes [of Take] show ?thesis by (auto simp: port_writes_def simp del: merge_step.simps)
next
  case (S_converts i a)
  with assms converts show ?thesis by (auto simp del: merge_step.simps split: if_splits option.splits prod.splits)
next
  case S_conv_sends
  with assms conv_sends show ?thesis by (auto simp del: merge_step.simps split: list.splits if_splits)
next
  case S_conv_ends
  with assms conv_ends show ?thesis by (auto simp del: merge_step.simps split: list.splits if_splits)
next
  case S_req_sends
  with assms req_sends show ?thesis by (auto simp del: merge_step.simps split: list.splits if_splits)
next
  case S_req_ends
  with assms req_ends show ?thesis by (auto simp del: merge_step.simps split: list.splits if_splits)
next
  case (S_merges ev)
  with assms merges show ?thesis by (auto simp del: merge_step.simps split: list.splits if_splits)
next
  case S_returns
  with assms returns show ?thesis by (auto simp del: merge_step.simps split: list.splits if_splits)
qed

section \<open>Invariant\<close>

text \<open>The converter's messages, for the state of the machine at each: no log has one.\<close>

definition conversions :: "('w, 'h) serial_parts \<Rightarrow> agent_Message list \<Rightarrow> ambient list \<Rightarrow> Message list" where
  "conversions k ms as = map2 (\<lambda>m a. convert (sp_width k) (sp_msgpack k) (serial_config (sp_serial k)) a m) ms as"

definition port_ok :: "('w, 'h) serial_parts \<Rightarrow> agent_Message list \<Rightarrow> agent_Message list \<Rightarrow> 'w \<Rightarrow> 'w port \<Rightarrow> bool" where
  "port_ok k srv dps w s \<longleftrightarrow> feed_ok srv dps s \<and> merger_ok 2 10 (sn_merger s) \<and> \<not> r_panicked (fd_req s)
     \<and> sn_rsent s \<le> length (r_out (fd_req s)) \<and> got (workers (sn_merger s) ! 1) = take (sn_rsent s) (r_out (fd_req s))
     \<and> (src_closed (workers (sn_merger s) ! 0) \<longrightarrow> closed (fd_agents s) \<and> sn_conv s = [])
     \<and> (src_closed (workers (sn_merger s) ! 1) \<longrightarrow> r_stopped (fd_req s) \<and> sn_rsent s = length (r_out (fd_req s)))
     \<and> (sn_returned s \<longrightarrow> closed (sn_merger s) \<and> buf (sn_merger s) = [])
     \<and> (\<exists>as. length as = length (filter (\<lambda>m. \<not> dropped m) (map snd (taken (fd_agents s))))
         \<and> got (workers (sn_merger s) ! 0) @ sn_conv s
           = conversions k (filter (\<lambda>m. \<not> dropped m) (map snd (taken (fd_agents s)))) as)
     \<and> sn_world s = fold (tryWrite (sp_fs k) (s_addr (sp_serial k))) (map snd (taken (sn_merger s))) w"

lemma convert_plain:
  "convert_one W msgpack fs pid c (None, w) (m, a, l) = (if dropped m then [] else [convert W msgpack c a m], None, w)"
  by (auto simp: convert_one_def dropped_def Let_def)

lemma conversions_snoc:
  "length as = length ms \<Longrightarrow> conversions k (ms @ [m]) (as @ [a]) =
     conversions k ms as @ [convert (sp_width k) (sp_msgpack k) (serial_config (sp_serial k)) a m]"
  by (simp add: conversions_def)

lemma feed_step_req:
  assumes "feed_step s e = Some t" and "\<not> r_panicked (fd_req s)"
  shows "\<not> r_panicked (fd_req t) \<and> (\<exists>ms. r_out (fd_req t) = r_out (fd_req s) @ ms \<and> (r_stopped (fd_req s) \<longrightarrow> r_stopped (fd_req t) \<and> ms = []))"
  using assms(1)
proof (cases rule: feed_step_cases)
  case (req ev r)
  with assms(2) show ?thesis
    by (cases ev) (auto simp: write_fails_def Let_def split: if_splits option.splits)
qed (use assms(2) in auto)

lemma port_ok_step:
  assumes ok: "port_ok k srv dps w s" and step: "port_step k s e = Some t"
  shows "port_ok k srv dps w t"
proof -
  from ok have f: "feed_ok srv dps s" and m: "merger_ok 2 10 (sn_merger s)" by (auto simp: port_ok_def)
  note len = merger_len [OF m] and up = merger_ok_step [OF m] and bufs = closed_buf [OF m]
  have cong: "feed_ok srv dps t'" if "feed.truncate t' = feed.truncate s" for t' :: "'a port"
    using that f by (intro feed_ok_cong [OF _ _ _ _ f]) (simp_all add: feed.truncate_def)
  from step show ?thesis
  proof (cases rule: port_step_cases)
    case (feed ev)
    from feed_step_frame [OF feed(2)] have more: "feed.more t = feed.more s" "taken (fd_agents t) = taken (fd_agents s)"
      "closed (fd_agents s) \<longrightarrow> closed (fd_agents t)" by auto
    from more(1) have same: "sn_conv t = sn_conv s" "sn_rsent t = sn_rsent s" "sn_merger t = sn_merger s" "sn_world t = sn_world s"
      "sn_returned t = sn_returned s" by (cases s; cases t; simp)+
    from ok have "\<not> r_panicked (fd_req s)" by (simp add: port_ok_def)
    from feed_step_req [OF feed(2) this] obtain ms where r: "\<not> r_panicked (fd_req t)" "r_out (fd_req t) = r_out (fd_req s) @ ms"
      "r_stopped (fd_req s) \<longrightarrow> r_stopped (fd_req t) \<and> ms = []" by blast
    from ok feed_ok_step [OF f feed(2)] more(2,3) same r show ?thesis unfolding port_ok_def by (elim conjE, simp)
  next
    case (converts i a g out p w')
    from f have "count_ok (fd_agents s)" by (simp add: feed_ok_def merger_ok_def)
    from direct_taken [OF this converts(3)] obtain x where c: "\<not> closed (fd_agents s)" "taken g = taken (fd_agents s) @ [x]" by blast
    have out: "out = (if dropped (snd x) then [] else [convert (sp_width k) (sp_msgpack k) (serial_config (sp_serial k)) a (snd x)])" "w' = sn_world s"
      using converts(4) by (simp_all add: convert_plain c(2))
    from ok converts(2) obtain as where as: "length as = length (filter (\<lambda>m. \<not> dropped m) (map snd (taken (fd_agents s))))"
      "got (workers (sn_merger s) ! 0) = conversions k (filter (\<lambda>m. \<not> dropped m) (map snd (taken (fd_agents s)))) as"
      by (auto simp: port_ok_def)
    have "\<exists>as'. length as' = length (filter (\<lambda>m. \<not> dropped m) (map snd (taken g)))
         \<and> got (workers (sn_merger s) ! 0) @ out = conversions k (filter (\<lambda>m. \<not> dropped m) (map snd (taken g))) as'"
      using as by (intro exI [of _ "as @ (if dropped (snd x) then [] else [a])"]) (simp add: c(2) out(1) conversions_snoc)
    moreover from feed_ok_direct [OF f converts(3)] have "feed_ok srv dps t"
      by (rule feed_ok_cong [rotated 4]) (simp_all add: converts(5))
    ultimately show ?thesis using ok c(1) unfolding port_ok_def by (elim conjE, simp add: converts(5) out(2))
  next
    case (conv_sends b bs g)
    have "feed_ok srv dps t" by (rule cong) (simp add: conv_sends(4) feed.truncate_def)
    with ok show ?thesis unfolding port_ok_def
      by (elim conjE, simp add: conv_sends(2,4) len merge_step_frame [OF conv_sends(3)] up [OF conv_sends(3)] bufs [OF _ _ conv_sends(3)] del: merge_step.simps)
  next
    case (conv_ends g)
    have "feed_ok srv dps t" by (rule cong) (simp add: conv_ends(5) feed.truncate_def)
    with ok show ?thesis unfolding port_ok_def
      by (elim conjE, simp add: conv_ends(2,3,5) len merge_step_frame [OF conv_ends(4)] up [OF conv_ends(4)] bufs [OF _ _ conv_ends(4)] del: merge_step.simps)
  next
    case (req_sends g)
    from ok req_sends(2) have "\<not> src_closed (workers (sn_merger s) ! Suc 0)" by (auto simp: port_ok_def)
    note new = this take_Suc_conv_app_nth [OF req_sends(2)] Suc_leI [OF req_sends(2)]
    have "feed_ok srv dps t" by (rule cong) (simp add: req_sends(4) feed.truncate_def)
    with ok show ?thesis unfolding port_ok_def
      by (elim conjE, simp add: req_sends(4) len new merge_step_frame [OF req_sends(3)] up [OF req_sends(3)] bufs [OF _ _ req_sends(3)] del: merge_step.simps)
  next
    case (req_ends g)
    have "feed_ok srv dps t" by (rule cong) (simp add: req_ends(5) feed.truncate_def)
    with ok show ?thesis unfolding port_ok_def
      by (elim conjE, simp add: req_ends(2,3,5) len merge_step_frame [OF req_ends(4)] up [OF req_ends(4)] bufs [OF _ _ req_ends(4)] del: merge_step.simps)
  next
    case (merges ev g)
    have "feed_ok srv dps t" by (rule cong) (simp add: merges(4) feed.truncate_def)
    with ok merges(2,4) show ?thesis unfolding port_ok_def
      by (cases ev; elim conjE; simp add: len merge_step_frame [OF merges(3)] up [OF merges(3)] bufs [OF _ _ merges(3)] del: merge_step.simps)
  next
    case (writes ev g)
    have ft: "feed_ok srv dps t" by (rule cong) (simp add: writes(3) feed.truncate_def)
    from m have "count_ok (sn_merger s)" by (simp add: merger_ok_def)
    from taken_grows [OF this writes(2)] writes(1) obtain x where x: "taken g = taken (sn_merger s) @ [x]" by blast
    from writes(1) ft ok show ?thesis unfolding port_ok_def
      by (elim conjE disjE exE; simp add: writes(3) len x merge_step_frame(1-5) [OF writes(2)] up [OF writes(2)] bufs [OF _ _ writes(2)] del: merge_step.simps)
  next
    case returns
    have "feed_ok srv dps t" by (rule cong) (simp add: returns(5) feed.truncate_def)
    with ok returns show ?thesis unfolding port_ok_def by (elim conjE, simp)
  qed
qed

lemma new_port_ok: "port_ok k srv dps w (new_port srv dps w)"
proof -
  have "merger_ok 2 0 (new_merger 2 0 :: agent_Message merger)" "merger_ok 2 10 (new_merger 2 10 :: Message merger)"
    by (rule new_merger_merger_ok)+
  then show ?thesis
    by (simp add: port_ok_def feed_ok_def new_port_def Merge_agent_def Merge_messages_def NewPeriodicRequester_def)
      (simp add: new_merger_def conversions_def)
qed

section \<open>The end\<close>

fun port_own :: "port_event \<Rightarrow> bool" where
  "port_own (S_feed e) = (feed_productive e \<or> e = Req OnDone)"
| "port_own _ = True"

text \<open>What is left to do: a message of the servers is taken, converted, sent and written.\<close>

definition port_work :: "'w port \<Rightarrow> nat" where
  "port_work s = 2 * feed_work s + 3 * length (sn_conv s)
     + (if r_stopped (fd_req s) then 0 else 4) + 3 * (length (r_out (fd_req s)) - sn_rsent s)
     + work_left (sn_merger s) + open_sources (sn_merger s) + (if sn_returned s then 0 else 1)"

lemma req_port_work:
  assumes "req_step r e = Some r'" and "n \<le> length (r_out r)"
  shows "(if r_stopped r' then 0 else 4) + 3 * (length (r_out r') - n) + (if e = OnDone then 1 else 0)
    \<le> (if r_stopped r then 0 else 4) + 3 * (length (r_out r) - n)"
  using assms
  by (cases e) (auto simp: write_fails_def on_conf_def Let_def split: if_splits option.splits)

lemma port_work_step:
  assumes ok: "port_ok k srv dps w s" and step: "port_step k s e = Some t"
  shows "port_work t + (if port_own e then 1 else 0) \<le> port_work s"
proof -
  from ok have f: "feed_ok srv dps s" "count_ok (fd_agents s)" and m: "count_ok (sn_merger s)"
    by (auto simp: port_ok_def feed_ok_def merger_ok_def)
  have fw: "feed_work t' = feed_work s" if "feed.truncate t' = feed.truncate s" for t' :: "'a port"
    using that by (simp add: feed.truncate_def feed_work_def)
  from step show ?thesis
  proof (cases rule: port_step_cases)
    case (feed ev)
    from feed_step_frame(1) [OF feed(2)] have same: "sn_conv t = sn_conv s" "sn_rsent t = sn_rsent s" "sn_merger t = sn_merger s"
      "sn_returned t = sn_returned s" by (cases s; cases t; simp)+
    from ok have n: "sn_rsent s \<le> length (r_out (fd_req s))" by (simp add: port_ok_def)
    note fs = feed_work_step [OF f(1) feed(2)]
    from feed(2) show ?thesis
    proof (cases rule: feed_step_cases)
      case (req ev' r)
      from req_port_work [OF req(4) n] fs same show ?thesis by (simp add: port_work_def feed(1) req(1,5))
    qed (use fs same in \<open>simp_all add: port_work_def feed(1)\<close>)
  next
    case (converts i a g out p w')
    obtain m where "snd (last (taken g)) = m" by simp
    with converts(4) have "length out \<le> 1" by (auto simp: convert_plain split: if_splits)
    moreover from direct_work [OF f(2) converts(3)] have "feed_work t + 2 = feed_work s" by (simp add: converts(5) feed_work_def)
    ultimately show ?thesis using converts(2) by (simp add: port_work_def converts(1,5))
  next
    case (merges ev g)
    from fw [of t] have "feed_work t = feed_work s" by (simp add: merges(4) feed.truncate_def)
    with merges(2) work_left_exact [OF m merges(3)] open_sources_step [OF merges(3)] show ?thesis
      by (cases ev) (simp_all add: port_work_def merges(1,4))
  next
    case (writes ev g)
    from fw [of t] have "feed_work t = feed_work s" by (simp add: writes(3) feed.truncate_def)
    with writes(1) work_left_exact [OF m writes(2)] open_sources_step [OF writes(2)] show ?thesis
      by (auto simp: port_work_def writes(3))
  qed (use fw [of t] in \<open>simp_all add: port_work_def feed.truncate_def m arrive_work close_work del: merge_step.simps\<close>)
qed

lemma own_step: "port_own e \<Longrightarrow> port_step k s e = Some t \<Longrightarrow> \<exists>e t. port_own e \<and> port_step k s e = Some t"
  by blast

lemma port_feed_progress:
  assumes ok: "port_ok k srv dps w s" and "sn_conv s = []" and "\<not> closed (fd_agents s) \<or> \<not> fd_done s"
  shows "\<exists>e t. port_own e \<and> port_step k s e = Some t"
proof -
  from ok have "feed_ok srv dps s" by (simp add: port_ok_def)
  from feed_progress [OF this assms(3)] show ?thesis
  proof (elim disjE exE conjE)
    fix e t assume "feed_productive e" "feed_step s e = Some t"
    then show ?thesis by (intro own_step [of "S_feed e"]) simp_all
  next
    fix i g and a :: ambient
    assume g: "merge_step (fd_agents s) (Direct i) = Some g"
    obtain out p w' where c: "convert_one (sp_width k) (sp_msgpack k) (sp_fs k) (sp_pid k) (serial_config (sp_serial k))
         (None, sn_world s) (snd (last (taken g)), a, None) = (out, p, w')" by (metis prod.exhaust)
    with g assms(2) show ?thesis
      by (intro own_step [of "S_converts i a" k s "s\<lparr>fd_agents := g, sn_conv := out, sn_world := w'\<rparr>"]) (simp_all del: merge_step.simps)
  qed
qed

lemma port_progress:
  assumes ok: "port_ok k srv dps w s" and "\<not> sn_returned s"
  shows "\<exists>e t. port_own e \<and> port_step k s e = Some t"
proof (cases "(\<exists>x xs. buf (sn_merger s) = x # xs) \<or> (\<exists>i t. merge_step (sn_merger s) (Direct i) = Some t)")
  case True
  then show ?thesis
  proof (elim disjE exE)
    fix x xs assume "buf (sn_merger s) = x # xs"
    then show ?thesis by (intro exI [of _ S_takes]) (simp add: port_writes_def merge_step_defs)
  next
    fix i g assume "merge_step (sn_merger s) (Direct i) = Some g"
    then show ?thesis by (intro exI [of _ "S_gets i"]) (simp add: port_writes_def del: merge_step.simps)
  qed
next
  case False
  then have buf: "buf (sn_merger s) = []" and direct: "\<nexists>i t. merge_step (sn_merger s) (Direct i) = Some t"
    by (cases "buf (sn_merger s)"; simp)+
  from ok have m: "merger_ok 2 10 (sn_merger s)" and rs: "sn_rsent s \<le> length (r_out (fd_req s))" "\<not> r_panicked (fd_req s)"
    by (simp_all add: port_ok_def)
  note len = merger_len [OF m]
  show ?thesis
  proof (cases "closed (sn_merger s)")
    case True
    with buf assms(2) show ?thesis by (intro exI [of _ S_returns]) simp
  next
    case opn: False
    have conv: ?thesis if c: "sn_conv s = b # bs" for b bs
    proof -
      from ok c have o: "\<not> src_closed (workers (sn_merger s) ! 0)" by (auto simp: port_ok_def)
      moreover have "phase (workers (sn_merger s) ! 0) = Waiting"
      proof (cases "phase (workers (sn_merger s) ! 0)")
        case (Holding n)
        with opn len buf have "\<exists>t. merge_step (sn_merger s) (Direct 0) = Some t" by (simp add: merge_step_defs)
        with direct show ?thesis by blast
      qed (use m o in \<open>auto simp: merger_ok_def\<close>)
      ultimately obtain g where "merge_step (sn_merger s) (Arrive 0 b) = Some g" using arrive_enabled [of 0 "sn_merger s" b] len by auto
      with c show ?thesis by (intro exI [of _ S_conv_sends]) (simp del: merge_step.simps)
    qed
    from m opn buf show ?thesis
    proof (cases rule: merger_progress)
      case (inside e t)
      then show ?thesis by (intro exI [of _ "S_merges e"]) (simp del: merge_step.simps)
    next
      case (source i)
      note close = close_enabled [of i "sn_merger s"] and arrive = arrive_enabled [of i "sn_merger s"]
      from source(1) consider "i = 0" | "i = 1" by linarith
      then show ?thesis
      proof cases
        case 1
        show ?thesis
        proof (cases "sn_conv s = [] \<and> closed (fd_agents s)")
          case True
          with close 1 source(3) len show ?thesis by (intro exI [of _ S_conv_ends]) (auto simp del: merge_step.simps)
        next
          case False
          with conv port_feed_progress [OF ok] show ?thesis by (cases "sn_conv s") blast+
        qed
      next
        case 2
        consider "sn_rsent s < length (r_out (fd_req s))" | "sn_rsent s = length (r_out (fd_req s))" "r_stopped (fd_req s)"
          | "\<not> r_stopped (fd_req s)" "fd_done s" | "\<not> fd_done s" using rs(1) by linarith
        then show ?thesis
        proof cases
          case 1
          with arrive 2 source(2,3) len show ?thesis by (intro exI [of _ S_req_sends]) (auto simp del: merge_step.simps)
        next
          case two: 2
          with close 2 source(3) len rs(2) show ?thesis by (intro exI [of _ S_req_ends]) (auto simp del: merge_step.simps)
        next
          case 3
          then show ?thesis by (intro exI [of _ "S_feed (Req OnDone)"]) simp
        next
          case 4
          with conv port_feed_progress [OF ok] show ?thesis by (cases "sn_conv s") auto
        qed
      qed
    qed (use direct in blast)
  qed
qed

interpretation porting: winding_down "port_step k" "port_ok k srv dps w" port_own "\<lambda>_. 0" port_work "\<lambda>_. True" sn_returned
  for k srv dps w
proof unfold_locales
  fix s t :: "'a port" and e
  assume ok: "port_ok k srv dps w s"
  show "port_ok k srv dps w t" if "port_step k s e = Some t" using ok that by (rule port_ok_step)
  show "port_work t + (if port_own e then 1 else 0) \<le> port_work s + 0" if "port_step k s e = Some t"
    using port_work_step [OF ok that] by simp
  show "\<exists>e t. port_own e \<and> port_step k s e = Some t" if "\<not> sn_returned s" using ok that by (rule port_progress)
qed simp_all

section \<open>Properties\<close>

text \<open>C14: The serial pipeline writes all that the agent sends, and returns: under every schedule, when it has returned, the world is as if the
main loop alone had written an interleaving of the converter's messages, one for each message of an interleaving of the two
servers' that is not a log, and of the requester's reports. And from every state it can go on by itself until it
returns, within a bound that also bounds the steps it has taken by itself.\<close>

theorem serial_writes_all:
  assumes "run (port_step k) (new_port srv dps w) es = Some s"
  shows "(sn_returned s \<longrightarrow>
      (\<exists>ms \<in> shuffles srv dps. \<exists>as. length as = length (filter (\<lambda>m. \<not> dropped m) ms)
         \<and> (\<exists>out \<in> shuffles (conversions k (filter (\<lambda>m. \<not> dropped m) ms) as) (r_out (fd_req s)).
              sn_world s = fold (tryWrite (sp_fs k) (s_addr (sp_serial k))) out w)))
    \<and> (\<exists>es' t. run (port_step k) s es' = Some t \<and> sn_returned t)
    \<and> length (filter port_own es) \<le> port_work (new_port srv dps w)"
proof -
  from porting.run_inv [OF new_port_ok assms] have ok: "port_ok k srv dps w s" .
  have "\<exists>ms \<in> shuffles srv dps. \<exists>as. length as = length (filter (\<lambda>m. \<not> dropped m) ms)
         \<and> (\<exists>out \<in> shuffles (conversions k (filter (\<lambda>m. \<not> dropped m) ms) as) (r_out (fd_req s)).
              sn_world s = fold (tryWrite (sp_fs k) (s_addr (sp_serial k))) out w)" if "sn_returned s"
  proof -
    from ok that have m: "merger_ok 2 10 (sn_merger s)" and cl: "closed (sn_merger s)" "buf (sn_merger s) = []"
      by (simp_all add: port_ok_def)
    note closed = closed_all_closed [OF m cl(1)] and all = closed_all_taken [OF m cl]
    from closed [of 0] closed [of 1] ok have up: "closed (fd_agents s)" "sn_conv s = []" "sn_rsent s = length (r_out (fd_req s))"
      by (simp_all add: port_ok_def)
    from ok up(2) obtain as where as: "length as = length (filter (\<lambda>m. \<not> dropped m) (map snd (taken (fd_agents s))))"
      "got (workers (sn_merger s) ! 0) = conversions k (filter (\<lambda>m. \<not> dropped m) (map snd (taken (fd_agents s)))) as"
      by (auto simp: port_ok_def)
    from ok up(3) have "got (workers (sn_merger s) ! 1) = r_out (fd_req s)" by (simp add: port_ok_def)
    with as(2) all [of 0] all [of 1] shuffles_by_source [of "taken (sn_merger s)"] taken_tags [OF m]
    have "map snd (taken (sn_merger s)) \<in> shuffles (conversions k (filter (\<lambda>m. \<not> dropped m) (map snd (taken (fd_agents s)))) as) (r_out (fd_req s))"
      by simp
    moreover from ok have "sn_world s = fold (tryWrite (sp_fs k) (s_addr (sp_serial k))) (map snd (taken (sn_merger s))) w"
      by (simp add: port_ok_def)
    moreover from ok up(1) have "map snd (taken (fd_agents s)) \<in> shuffles srv dps" by (intro feed_complete) (simp_all add: port_ok_def)
    ultimately show ?thesis using as(1) by blast
  qed
  with porting.finishes [OF ok TrueI] porting.run_work [OF new_port_ok assms] show ?thesis by auto
qed

definition sample_serial :: "(disk, string) serial_parts" where
  "sample_serial = \<lparr>sp_width = 64, sp_msgpack = (\<lambda>_. ([], None)), sp_fs = disk_fs, sp_pid = 7,
     sp_serial = \<lparr>s_userVersion = [], s_appID = [], s_macHash = [], s_addr = ''t''\<rparr>\<rparr>"

definition serial_schedule :: "port_event list" where
  "serial_schedule =
     [S_feed Srv_sends, S_converts 0 (sample_ambient\<lparr>now_nano := 0\<rparr>), S_conv_sends, S_gets 0, S_feed Srv_ends, S_feed Srv_done,
      S_feed (Req OnDone), S_req_ends, S_feed Dps_ends, S_feed (Merges (SeeClosed 0)), S_feed (Merges (SeeClosed 1)),
      S_feed (Merges WaitOver), S_conv_ends, S_merges (SeeClosed 0), S_merges (SeeClosed 1), S_merges WaitOver, S_returns]"

theorem serial_writes_all_witness:
  "\<exists>s a. run (port_step sample_serial) (new_port [\<lparr>Type = ''cleanExit'', Data = None\<rparr>] [] empty_disk) serial_schedule = Some s
     \<and> sn_returned s \<and> sn_world s = tryWrite disk_fs ''t''
         (convert 64 (\<lambda>_. ([], None)) (serial_config (sp_serial sample_serial)) a \<lparr>Type = ''cleanExit'', Data = None\<rparr>) empty_disk"
proof -
  let ?r = "run (port_step sample_serial) (new_port [\<lparr>Type = ''cleanExit'', Data = None\<rparr>] [] empty_disk) serial_schedule"
  have "case ?r of None \<Rightarrow> False | Some s \<Rightarrow> sn_returned s \<and> r_out (fd_req s) = []" by code_simp
  then obtain s where s: "?r = Some s" "sn_returned s" "r_out (fd_req s) = []" by (auto split: option.splits)
  from serial_writes_all [OF s(1)] s(2,3) obtain as where "length as = Suc 0"
    "sn_world s = fold (tryWrite disk_fs ''t'') (conversions sample_serial [\<lparr>Type = ''cleanExit'', Data = None\<rparr>] as) empty_disk"
    by (auto simp: dropped_def sample_serial_def)
  with s show ?thesis by (auto simp: length_Suc_conv conversions_def sample_serial_def)
qed

end
