(* ===== verification/Mailbox.thy ===== *)
theory Mailbox
  imports Broker
begin

text \<open>
  What the message store (\<open>broker/message.go\<close>) promises: an abstract mailbox, a map from names to
  messages, with the events that a user of the store sees. The store on a file system refines it: the
  mailbox of a world is what the files hold.
\<close>

section \<open>The mailbox\<close>

record mailbox =
  box :: "string \<Rightarrow> Message option"
  next_no :: int

datatype mail_event = Post Message "create_error option" | Take Message

definition letter :: "Message \<Rightarrow> Message" where
  "letter m = m\<lparr>path := [], has_fs := False\<rparr>"

text \<open>
  A message that is posted without error is in the box under a new name. A post that fails has changed
  nothing, or has used up a name and left anything under it. Taking a message out empties its own place
  or, when that fails, changes nothing.
\<close>

inductive mail_step :: "string \<Rightarrow> int \<Rightarrow> mail_event \<Rightarrow> mailbox \<Rightarrow> mailbox \<Rightarrow> bool" for dir pid where
  posted: "mail_step dir pid (Post m None) b
    (b\<lparr>box := (box b)(message_path dir pid (next_no b) \<mapsto> letter m), next_no := next_no b + 1\<rparr>)"
| refused: "mail_step dir pid (Post m (Some e)) b b"
| torn: "mail_step dir pid (Post m (Some (ErrOther e))) b
    (b\<lparr>box := (box b)(message_path dir pid (next_no b) := x), next_no := next_no b + 1\<rparr>)"
| taken: "has_fs m \<Longrightarrow> mail_step dir pid (Take m) b (b\<lparr>box := (box b)(path m := None)\<rparr>)"
| left: "mail_step dir pid (Take m) b b"

inductive_cases PostE: "mail_step dir pid (Post m err) b b'"
inductive_cases TakeE: "mail_step dir pid (Take m) b b'"

inductive mail_run :: "string \<Rightarrow> int \<Rightarrow> mail_event list \<Rightarrow> mailbox \<Rightarrow> mailbox \<Rightarrow> bool" for dir pid where
  finish: "mail_run dir pid [] b b"
| continue: "mail_step dir pid e b b1 \<Longrightarrow> mail_run dir pid es b1 b' \<Longrightarrow> mail_run dir pid (e # es) b b'"

text \<open>A message stays in the box as long as nobody takes one of its name out.\<close>

definition unnamed :: "string \<Rightarrow> int \<Rightarrow> string \<Rightarrow> mailbox \<Rightarrow> bool" where
  "unnamed dir pid q b \<longleftrightarrow> (\<forall>n \<ge> next_no b. q \<noteq> message_path dir pid n)"

lemma mail_step_stays:
  assumes "mail_step dir pid e b b'" and "unnamed dir pid q b" and "\<forall>m. e = Take m \<longrightarrow> path m \<noteq> q"
  shows "unnamed dir pid q b' \<and> box b' q = box b q"
proof (cases e)
  case (Post m err)
  from assms(2) have "q \<noteq> message_path dir pid (next_no b)" by (simp add: unnamed_def)
  moreover have "unnamed dir pid q (b\<lparr>box := f, next_no := next_no b + 1\<rparr>)" for f
    using assms(2) by (simp add: unnamed_def)
  ultimately show ?thesis using assms(1,2) Post by (auto elim!: PostE)
next
  case (Take m)
  with assms show ?thesis by (auto simp: unnamed_def elim!: TakeE)
qed

lemma mail_run_stays:
  assumes "mail_run dir pid es b b'" and "unnamed dir pid q b" and "\<forall>m. Take m \<in> set es \<longrightarrow> path m \<noteq> q"
  shows "box b' q = box b q"
  using assms
proof (induction rule: mail_run.induct)
  case (continue e b b1 es b')
  with mail_step_stays [OF continue.hyps(1) continue.prems(1)] show ?case by auto
qed simp

section \<open>The store\<close>

text \<open>The operations of the store in the order they are called, and what the caller sees of them.\<close>

datatype store_op = Store_message Message | Remove_stored Message

fun store_step :: "('w, 'h) Fs \<Rightarrow> int \<Rightarrow> Persistor \<times> 'w \<Rightarrow> store_op \<Rightarrow> mail_event \<times> Persistor \<times> 'w" where
  "store_step fs pid (p, w) (Store_message m) =
     (case CreateMessage fs pid p m w of (err, p', _, w') \<Rightarrow> (Post m err, p', w'))"
| "store_step fs pid (p, w) (Remove_stored m) = (Take m, p, Remove_message fs m w)"

fun store_ops :: "('w, 'h) Fs \<Rightarrow> int \<Rightarrow> Persistor \<times> 'w \<Rightarrow> store_op list \<Rightarrow> mail_event list \<times> Persistor \<times> 'w" where
  "store_ops fs pid s [] = ([], s)"
| "store_ops fs pid s (x # xs) =
     (case store_step fs pid s x of (e, s1) \<Rightarrow> (case store_ops fs pid s1 xs of (es, s') \<Rightarrow> (e # es, s')))"

text \<open>What a file holds, as a message of its own, and the mailbox of a world.\<close>

definition read_letter :: "bytes \<Rightarrow> Message option" where
  "read_letter b = (case unmarshal message_field b empty_message of (m, None) \<Rightarrow> Some m | (_, Some _) \<Rightarrow> None)"

definition mailbox_of :: "('w \<Rightarrow> string \<Rightarrow> bytes option) \<Rightarrow> Persistor \<times> 'w \<Rightarrow> mailbox" where
  "mailbox_of content s =
     \<lparr>box = (\<lambda>q. Option.bind (content (snd s) q) read_letter), next_no = msg_count (fst s)\<rparr>"

lemma read_marshal [simp]: "read_letter (marshal_message m) = Some (letter m)"
  by (cases m) (simp add: read_letter_def unmarshal_marshal_message letter_def empty_message_def)

context file_system
begin

lemma store_step_simulates:
  assumes "store_step fs pid s x = (e, s')"
  shows "mail_step (msg_dir (fst s)) pid e (mailbox_of content s) (mailbox_of content s') \<and> msg_dir (fst s') = msg_dir (fst s)"
proof -
  obtain p w where s: "s = (p, w)" by (cases s)
  let ?q = "message_path (msg_dir p) pid (msg_count p)"
  show ?thesis
  proof (cases x)
    case (Store_message m)
    obtain err p' m' w' where c: "CreateMessage fs pid p m w = (err, p', m', w')"
      by (cases "CreateMessage fs pid p m w") auto
    with assms s Store_message have es: "e = Post m err" "s' = (p', w')" by auto
    from c show ?thesis
    proof (cases rule: CreateMessage_cases)
      case (before e')
      then show ?thesis by (simp add: es s mail_step.refused)
    next
      case (saved e' used)
      show ?thesis
      proof (cases e')
        case None
        with saved save_writes [of m' w w'] have "content w' = (content w)(?q \<mapsto> marshal_message m)" by simp
        then have "mailbox_of content (p', w') = (mailbox_of content (p, w))
            \<lparr>box := (box (mailbox_of content (p, w)))(?q \<mapsto> letter m), next_no := msg_count p + 1\<rparr>"
          by (auto simp: mailbox_of_def saved fun_eq_iff)
        with mail_step.posted [of "msg_dir p" pid m "mailbox_of content (p, w)"] saved None show ?thesis
          by (simp add: es s mailbox_of_def)
      next
        case (Some t)
        have "content w' q = content w q" if "q \<noteq> ?q" for q
          using save_frame [of m' w e' w' q] saved that by simp
        then have "mailbox_of content (p', w') = (mailbox_of content (p, w))
            \<lparr>box := (box (mailbox_of content (p, w)))(?q := Option.bind (content w' ?q) read_letter), next_no := msg_count p + 1\<rparr>"
          by (auto simp: mailbox_of_def saved fun_eq_iff)
        with mail_step.torn [of "msg_dir p" pid m t "mailbox_of content (p, w)"] saved Some show ?thesis
          by (simp add: es s mailbox_of_def)
      qed
    qed
  next
    case (Remove_stored m)
    with assms s have es: "e = Take m" "s' = (p, Remove_message fs m w)" by auto
    from Remove_message_content [of m w] show ?thesis
    proof
      assume "content (Remove_message fs m w) = content w"
      then show ?thesis by (simp add: es s mailbox_of_def mail_step.left)
    next
      assume r: "has_fs m \<and> content (Remove_message fs m w) = (content w)(path m := None)"
      then have "mailbox_of content s' = (mailbox_of content (p, w))\<lparr>box := (box (mailbox_of content (p, w)))(path m := None)\<rparr>"
        by (auto simp: es mailbox_of_def fun_eq_iff)
      with r show ?thesis by (simp add: es(1) s mail_step.taken, simp add: es(2))
    qed
  qed
qed

lemma store_ops_simulate:
  assumes "store_ops fs pid s xs = (es, s')"
  shows "mail_run (msg_dir (fst s)) pid es (mailbox_of content s) (mailbox_of content s')"
  using assms
proof (induction xs arbitrary: s es)
  case Nil
  then show ?case by (simp add: mail_run.finish)
next
  case (Cons x xs)
  obtain e s1 where e: "store_step fs pid s x = (e, s1)" by (cases "store_step fs pid s x")
  obtain es1 where es1: "store_ops fs pid s1 xs = (es1, s')" "es = e # es1"
    using Cons.prems e by (auto split: prod.splits)
  from store_step_simulates [OF e] Cons.IH [OF es1(1)] show ?case
    by (auto simp: es1(2) intro: mail_run.continue)
qed

end

section \<open>Properties\<close>

text \<open>C10: The store refines the mailbox: whatever sequence of messages is stored and removed, and whatever errors the
file system has, what the caller sees and what the files hold is a run of the abstract mailbox.\<close>

theorem store_refines_mailbox:
  assumes "file_system fs content" and "store_ops fs pid s xs = (es, s')"
  shows "mail_run (msg_dir (fst s)) pid es (mailbox_of content s) (mailbox_of content s')"
  by (rule file_system.store_ops_simulate [OF assms])

definition sample_ops :: "store_op list" where
  "sample_ops = [Store_message sample, Store_message sample, Remove_stored (sample\<lparr>path := ''d/7-0'', has_fs := True\<rparr>)]"

theorem store_refines_mailbox_witness:
  "\<exists>b. mail_run ''d'' 7 [Post sample None, Post sample None, Take (sample\<lparr>path := ''d/7-0'', has_fs := True\<rparr>)]
     \<lparr>box = Map.empty, next_no = 0\<rparr> b \<and> box b ''d/7-0'' = None \<and> box b ''d/7-1'' = Some sample"
proof -
  let ?s = "(NewPersistor ''d'', empty_disk)"
  let ?r = "store_ops disk_fs 7 ?s sample_ops"
  have "fst ?r = [Post sample None, Post sample None, Take (sample\<lparr>path := ''d/7-0'', has_fs := True\<rparr>)]"
    and "Option.is_none (disk_content (snd (snd ?r)) ''d/7-0'')"
    and "disk_content (snd (snd ?r)) ''d/7-1'' = Some (marshal_message sample)"
    by code_simp+
  then have files: "box (mailbox_of disk_content (snd ?r)) ''d/7-0'' = None"
      "box (mailbox_of disk_content (snd ?r)) ''d/7-1'' = Some (letter sample)"
    and events: "?r = ([Post sample None, Post sample None, Take (sample\<lparr>path := ''d/7-0'', has_fs := True\<rparr>)], snd ?r)"
    by (simp_all add: mailbox_of_def Option.is_none_def prod_eq_iff)
  have "letter sample = sample" by (simp add: letter_def sample_def empty_message_def)
  moreover have "mailbox_of disk_content ?s = \<lparr>box = Map.empty, next_no = 0\<rparr>" and "msg_dir (fst ?s) = ''d''"
    by (simp_all add: mailbox_of_def NewPersistor_def disk_content_def empty_disk_def)
  ultimately show ?thesis
    using store_refines_mailbox [OF disk.file_system_axioms events] files by (intro exI [of _ "mailbox_of disk_content (snd ?r)"]) simp
qed

text \<open>A stored message can be relied on: after it has been stored, no sequence of storing and removing other
messages changes what its file holds, whatever errors occur.\<close>

theorem stored_stays:
  assumes "file_system fs content" and "CreateMessage fs pid p m w = (None, p', m', w')"
    and "store_ops fs pid (p', w') xs = (es, p'', w'')" and "\<forall>m2. Take m2 \<in> set es \<longrightarrow> path m2 \<noteq> path m'"
  shows "Option.bind (content w'' (path m')) read_letter = Some (letter m)"
proof -
  note c = file_system.Create_saved [OF assms(1,2)]
  from c have "unnamed (msg_dir p') pid (path m') (mailbox_of content (p', w'))"
    by (auto simp: unnamed_def mailbox_of_def message_path_inj)
  with file_system.store_ops_simulate [OF assms(1,3)] assms(4)
  have "box (mailbox_of content (p'', w'')) (path m') = box (mailbox_of content (p', w')) (path m')"
    by (intro mail_run_stays) auto
  with c show ?thesis by (simp add: mailbox_of_def)
qed

theorem stored_stays_witness:
  "\<exists>w''. Option.bind (disk_content w'' ''d/7-0'') read_letter = Some (letter sample)"
proof -
  obtain p' m' w' where c: "CreateMessage disk_fs 7 (NewPersistor ''d'') sample empty_disk = (None, p', m', w')"
    by (rule sample_created)
  obtain es p'' w'' where o: "store_ops disk_fs 7 (p', w') [Store_message sample] = (es, p'', w'')"
    by (metis prod.collapse)
  then have "\<forall>m2. Take m2 \<notin> set es" by (auto split: prod.splits)
  moreover have "message_path ''d'' 7 0 = ''d/7-0''" by code_simp
  with disk.Create_saved [OF c] have "path m' = ''d/7-0''" by (simp add: NewPersistor_def)
  ultimately show ?thesis
    using stored_stays [OF disk.file_system_axioms c o] by auto
qed

text \<open>C36: Names are unique within one process only: a client that is started again with the same process id, as the first
process of a container is, stores its first message over the one that the run before stored first, if that is still
on the disk.\<close>

theorem restart_overwrites_stored:
  assumes "file_system fs content"
    and "CreateMessage fs pid ((NewPersistor dir)\<lparr>limit := l1\<rparr>) m w = (None, p1, m1, w1)"
    and "content w2 (path m1) = content w1 (path m1)"
    and "CreateMessage fs pid ((NewPersistor dir)\<lparr>limit := l2\<rparr>) m2 w2 = (None, p3, m3, w3)"
  shows "content w2 (path m1) = Some (marshal_message m) \<and> path m3 = path m1
    \<and> content w3 (path m1) = Some (marshal_message m2)"
  using file_system.Create_saved [OF assms(1,2)] file_system.Create_saved [OF assms(1,4)] assms(3)
  by (simp add: NewPersistor_def)

definition later_sample :: Message where
  "later_sample = sample\<lparr>Bytes := ''xyz''\<rparr>"

theorem restart_overwrites_stored_witness:
  "\<exists>w1 w3. disk_content w1 ''d/7-0'' = Some (marshal_message sample) \<and> disk_content w3 ''d/7-0'' = Some (marshal_message later_sample)"
proof -
  let ?p = "(NewPersistor ''d'')\<lparr>limit := None\<rparr>"
  let ?r = "CreateMessage disk_fs 7 ?p sample empty_disk"
  let ?s = "CreateMessage disk_fs 7 ?p later_sample (snd (snd (snd ?r)))"
  have "fst ?r = None \<and> fst ?s = None \<and> path (fst (snd (snd ?r))) = ''d/7-0''" by code_simp
  then obtain p1 m1 w1 p3 m3 w3 where r: "?r = (None, p1, m1, w1)" "path m1 = ''d/7-0''"
    and s: "CreateMessage disk_fs 7 ?p later_sample w1 = (None, p3, m3, w3)"
    by (metis fst_conv prod.collapse snd_conv)
  from restart_overwrites_stored [OF disk.file_system_axioms r(1) refl s] r(2) show ?thesis by auto
qed

end
