(* ===== verification/Logs.thy ===== *)
theory Logs
  imports Config TimeText
begin

text \<open>
  \<open>errorlog/errorlog.go\<close>, the switches of the two logs in \<open>cmd/client/main.go\<close>, and \<open>version/version.go\<close>. A logger
  is where it writes and what it has written; the standard logger, which takes the information, is one too.
\<close>

section \<open>Version\<close>

text \<open>The values that the linker replaces in a release.\<close>

definition BuildDate :: string where
  "BuildDate = ''no timestamp''"

definition Version_default :: string where
  "Version_default = ''local-build''"

text \<open>What \<open>-version\<close> prints.\<close>

definition version_text :: "string \<Rightarrow> string \<Rightarrow> string" where
  "version_text vers date = ''Auklet Client version '' @ vers @ '' ('' @ date @ '')'' @ [CHR 0x0A]"

section \<open>Text of the operands\<close>

text \<open>An operand is a string, or another value with the text that \<open>fmt\<close> gives it.\<close>

datatype operand = Str string | Val string

fun operand_text :: "operand \<Rightarrow> string" where
  "operand_text (Str s) = s"
| "operand_text (Val s) = s"

text \<open>\<open>Sprint\<close> puts a space between two operands if neither is a string, \<open>Sprintln\<close> always, and ends the line.\<close>

fun Sprint :: "operand list \<Rightarrow> string" where
  "Sprint [] = []"
| "Sprint [a] = operand_text a"
| "Sprint (a # b # bs) =
     operand_text a @ (case (a, b) of (Val _, Val _) \<Rightarrow> '' '' | _ \<Rightarrow> []) @ Sprint (b # bs)"

fun Sprintln :: "operand list \<Rightarrow> string" where
  "Sprintln [] = [CHR 0x0A]"
| "Sprintln [a] = operand_text a @ [CHR 0x0A]"
| "Sprintln (a # b # bs) = operand_text a @ '' '' @ Sprintln (b # bs)"

section \<open>Loggers\<close>

datatype dest = Stdout | Stderr | Discard

record logger =
  lg_out :: dest
  lg_writes :: "(dest \<times> string) list"

definition errorLogger :: logger where
  "errorLogger = \<lparr>lg_out = Stdout, lg_writes = []\<rparr>"

definition infoLogger :: logger where
  "infoLogger = \<lparr>lg_out = Stderr, lg_writes = []\<rparr>"

definition SetOutput :: "dest \<Rightarrow> logger \<Rightarrow> logger" where
  "SetOutput d l = l\<lparr>lg_out := d\<rparr>"

text \<open>The header with the flags \<open>Lmicroseconds\<close> and \<open>LstdFlags\<close>; a number is padded with zeros to a width.\<close>

definition itoa :: "nat \<Rightarrow> int \<Rightarrow> string" where
  "itoa n i = (let s = show_int i in replicate (n - length s) (CHR ''0'') @ s)"

definition log_header :: "gotime \<Rightarrow> string" where
  "log_header now =
     (case date_of now of (y, m, d) \<Rightarrow>
        itoa 4 y @ ''/'' @ itoa 2 m @ ''/'' @ itoa 2 d @ '' '' @ clock_text (local_secs now mod day_secs)
        @ ''.'' @ itoa 6 (ns now mod second div 1000) @ '' '')"

text \<open>One call of \<open>Output\<close> is one write of one line, which gets a newline if it has none.\<close>

definition log_line :: "gotime \<Rightarrow> string \<Rightarrow> string" where
  "log_line now s = log_header now @ s @ (if s = [] \<or> last s \<noteq> CHR 0x0A then [CHR 0x0A] else [])"

definition Output_log :: "gotime \<Rightarrow> string \<Rightarrow> logger \<Rightarrow> logger" where
  "Output_log now s l = l\<lparr>lg_writes := lg_writes l @ [(lg_out l, log_line now s)]\<rparr>"

definition Print :: "gotime \<Rightarrow> operand list \<Rightarrow> logger \<Rightarrow> logger" where
  "Print now vs = Output_log now (Sprint vs)"

definition Println :: "gotime \<Rightarrow> operand list \<Rightarrow> logger \<Rightarrow> logger" where
  "Println now vs = Output_log now (Sprintln vs)"

definition Printf :: "gotime \<Rightarrow> string \<Rightarrow> logger \<Rightarrow> logger" where
  "Printf now formatted = Output_log now formatted"

section \<open>The switches\<close>

definition configureLogs :: "(string \<Rightarrow> string) \<Rightarrow> logger \<times> logger \<Rightarrow> logger \<times> logger" where
  "configureLogs env logs =
     (case logs of (info, errors) \<Rightarrow>
       (if \<not> env_LogInfo env then SetOutput Discard info else info,
        if \<not> env_LogErrors env then SetOutput Discard errors else errors))"

text \<open>What a destination has got.\<close>

definition shown :: "dest \<Rightarrow> logger \<Rightarrow> string" where
  "shown d l = concat (map snd (filter (\<lambda>(e, _). e = d) (lg_writes l)))"

definition log_all :: "(gotime \<times> string) list \<Rightarrow> logger \<Rightarrow> logger" where
  "log_all xs = fold (\<lambda>(now, s). Output_log now s) xs"

lemma log_all_writes:
  "lg_writes (log_all xs l) = lg_writes l @ map (\<lambda>(now, s). (lg_out l, log_line now s)) xs"
  by (induction xs arbitrary: l) (auto simp: log_all_def Output_log_def)

lemma shown_log_all:
  "shown d (log_all xs l) = shown d l @ (if lg_out l = d then concat (map (\<lambda>(now, s). log_line now s) xs) else [])"
proof -
  have "filter (\<lambda>(e, _). e = d) (map (\<lambda>(now, s). (lg_out l, log_line now s)) xs)
      = (if lg_out l = d then map (\<lambda>(now, s). (d, log_line now s)) xs else [])"
    by (induction xs) auto
  then show ?thesis by (auto simp: shown_def log_all_writes comp_def case_prod_unfold)
qed

text \<open>The log of errors goes to the standard output of the client, among the output of the application: after the set-up, all of it
if \<open>AUKLET_LOG_ERRORS\<close> is \<open>true\<close>, and nothing else. What was printed before the set-up is there in any case.\<close>

theorem errors_on_stdout:
  "shown Stdout (log_all after_setup (snd (configureLogs env (infoLogger, log_all before_setup errorLogger))))
     = concat (map (\<lambda>(now, s). log_line now s) (before_setup @ (if env_LogErrors env then after_setup else [])))"
proof -
  have "lg_out (log_all xs errorLogger) = Stdout" for xs
  proof -
    have "lg_out (log_all xs l) = lg_out l" for l
      by (induction xs arbitrary: l) (auto simp: log_all_def Output_log_def)
    then show ?thesis by (simp add: errorLogger_def)
  qed
  moreover have "shown Stdout (SetOutput Discard l) = shown Stdout l" "lg_out (SetOutput Discard l) = Discard" for l
    by (simp_all add: shown_def SetOutput_def)
  moreover have "shown Stdout errorLogger = []" "lg_out errorLogger = Stdout" by (simp_all add: shown_def errorLogger_def)
  ultimately show ?thesis by (simp add: configureLogs_def shown_log_all)
qed

end
