(* ===== verification/Spec2Isabelle.thy ===== *)
theory Spec2Isabelle
  imports Traffic Delivery EndToEnd LiveEnds Serial Mailbox Logs
begin

text \<open>
  The Auklet client: it runs an application with an agent in it, converts what the agent reports, and sends it to a
  broker under limits on storage and data that a backend configures.

  \<^bold>\<open>The program.\<close> \<open>cmd/client/main.go\<close> parses the command line, chooses one of three pipelines and starts the
  application (\<open>app\<close>) with two sockets, one for the agent's messages and one for data points. The agent's streams
  (\<open>agent\<close>) are merged and converted (\<open>schema\<close>); each message is stored on the disk (\<open>broker/message.go\<close>); messages
  of earlier runs are loaded; all streams are merged and pass the data limiter (\<open>message\<close>); the producer
  (\<open>broker/mqtt.go\<close>) publishes what passes, and removes it from the disk. Credentials, the broker's address and the
  limits come from the backend (\<open>api\<close>), which is polled every hour.

  \<^bold>\<open>The theories.\<close>
  \<^item> \<open>Prelude\<close>: bytes, signed integers of a given width (\<open>swrap\<close>, \<open>fits\<close>), decimal numbers, panics (\<open>go\<close>), and runs of a
    partial step function with four locales by which a fact about one iteration of a loop becomes one about its runs:
    \<open>step_invariant\<close>, \<open>step_history\<close>, \<open>simulation\<close> (refinement of step systems, and the transfer of what the abstract
    steps keep) and \<open>winding_down\<close> (termination and progress by a bound on the work that is left).
  \<^item> \<open>GoTime\<close>, \<open>TimeText\<close>, \<open>Base64\<close>, \<open>Json\<close>: the parts of Go's standard library that the code rests on: \<open>time\<close>
    (dates, zones, \<open>AddDate\<close>), its text form, base64, and \<open>encoding/json\<close> (text and decoding into structs).
  \<^item> \<open>FileSys\<close>: the file system as a record of calls (\<open>Fs\<close>) in a world \<open>'w\<close>, what the code relies on as the locale
    \<open>file_system\<close>, and a disk with faults that satisfies it; \<open>fsutil/writefile.go\<close>.
  \<^item> \<open>Broker\<close>: \<open>broker/message.go\<close>, the messages, their files, the storage limit, the loader; \<open>Mailbox\<close>: the abstract
    mailbox that the store refines.
  \<^item> \<open>Limiter\<close>: \<open>message/limiter.go\<close>, the state machine of the data limiter; \<open>Budget\<close>: its invariant under all inputs
    and a reference function for what it sends; \<open>Persist\<close>: \<open>message/persistor.go\<close> and the limiter's file.
  \<^item> \<open>Merge\<close>: \<open>message/merge.go\<close> and \<open>agent/merge.go\<close>, goroutines and channel under every schedule; \<open>Ends\<close>: mergers as
    parts of a network, with the ends of their sources.
  \<^item> \<open>Agent\<close>: \<open>agent/server.go\<close>, \<open>agent/datapoint.go\<close>, \<open>agent/requester.go\<close>.
  \<^item> \<open>Schema\<close>: \<open>schema/schema.go\<close> and \<open>schema/convert.go\<close>; \<open>Payload\<close>: the type of what they make.
  \<^item> \<open>Device\<close>: \<open>device/device.go\<close>; \<open>App\<close>: \<open>app/exec.go\<close>, \<open>app/socketpair.go\<close>; \<open>Config\<close>: \<open>config/config.go\<close>;
    \<open>Api\<close>: \<open>api/api.go\<close>; \<open>Mqtt\<close>: \<open>broker/mqtt.go\<close>.
  \<^item> \<open>Client\<close>: \<open>cmd/client/main.go\<close>, the command line, set-up, release check, serial output and polling; \<open>Outputs\<close>: the
    rest of it, the configurations of the pipelines, the serial loop and the licenses. \<open>Logs\<close>: \<open>errorlog/errorlog.go\<close>, the switches
    of the logs, and \<open>version/version.go\<close>.
  \<^item> \<open>Pipeline\<close>, \<open>Traffic\<close>: the composition that \<open>client.run\<close> builds, as one step function over the world that
    its parts share.
  \<^item> \<open>Network\<close>: the same composition in the detail of its goroutines and channels, with both mergers,
    what each goroutine has in hand and the order in which the channels close; it refines the pipeline. \<open>Shutdown\<close>: it ends;
    \<open>Complete\<close>: what has reached the broker then. \<open>EndToEnd\<close>: the start of the network by \<open>client.run\<close>, from the release check
    and the handshake on, and the whole way from the sockets of the application to the broker.
    \<open>Delivery\<close>: it loses no stored message, across a restart neither. \<open>Live\<close>: the network with the
    goroutine of \<open>pollConfig\<close> and the limits that it hands to its three readers; \<open>LiveEnds\<close>: it ends, too.
  \<^item> \<open>Local\<close>, \<open>Serial\<close>: the pipelines of the dumper and of the serial port, in the same detail; they share the
    record \<open>feed\<close> of the agent's streams, which their states extend.

  \<^bold>\<open>How state and effects correspond.\<close> A struct is a record with the fields of the source, an error an option or the
  left of a sum. What code outside of the program does is a parameter: the file system, the HTTP transport, the MQTT
  client, the operating system, the encoder of MessagePack, the hash of files, the parser of certificates, the
  clock. Each is a record of functions on a world, and what is relied on is a locale (\<open>file_system\<close>,
  \<open>mqtt_broker\<close>, \<open>site\<close>, \<open>persistor\<close>) with an interpretation. A goroutine's loop is a step function
  whose input is the case its \<open>select\<close> takes; goroutines together are a schedule, a list of events in any order.

  \<^bold>\<open>What the groups of properties show.\<close> End to end, for the network of goroutines: under every schedule in which the loader
  reads its file whole, a stored message stays on the disk until the broker has it (\<open>stored_never_lost\<close>), also when the client is killed and started again
  (\<open>stored_survives_restart\<close>); what happens to a file that is read half written is \<open>half_read_message_lost\<close>. Under every schedule a period's traffic stays within the budget (\<open>net_within_budget\<close>). They are proved for the
  pipeline, which has no channels, and carried over by the refinement (\<open>network_refines_pipeline\<close>). Once the application has
  ended, the client ends by itself (\<open>client_shuts_down\<close>), and by then nothing is left in it (\<open>client_drained\<close>):
  without a budget, with room to store and a broker that accepts all, the broker has got exactly the publication of each
  message, the files that the loader read and the requester's report (\<open>everything_published\<close>); what the application wrote on its
  sockets has then arrived, in order, with the topic and the payload that its type calls for (\<open>app_to_broker\<close>). Both say what is
  published by a definition of their own (\<open>publication\<close>), not by what the converter sent. The limits in
  force are the backend's (\<open>limits_in_force\<close>, \<open>stored_within_limit\<close>), until the requester has ended (\<open>limits_freeze\<close>), and
  that does not keep the client from its end (\<open>live_shuts_down\<close>). The two
  other pipelines return, and have by then printed or written all (\<open>dumper_prints_all\<close>, \<open>serial_writes_all\<close>).
  Store: what is saved is what is loaded, nothing else changes, names are unique, the limit, the refinement of an abstract
  mailbox. Limiter: accounting, periods that end on time and not before, progress, and its file across a restart. Streams: order and completeness of merging, serving,
  converting. Formats: round trips of messages, profiles, credentials, command line and limiter state. Some properties
  state behaviour that is a defect; the findings list names them.

  \<^bold>\<open>Bounds and termination.\<close> Integers of Go's \<open>int\<close> have the width \<open>W\<close>, 32 or 64, as an argument. Loops whose end is
  not structural are partial functions with an option (\<open>ensureFuture\<close>, \<open>scan_all\<close>, \<open>dp_serve\<close>): that they return is
  proved, or characterised. The parser of JSON has the length of its input as fuel, which is
  enough because each call consumes a character (\<open>parse_render\<close> and the lemmas on its consumption).

  \<^bold>\<open>Not modelled.\<close> Which step prints which line on a log (\<open>Logs\<close> has the loggers, not their callers), the usage text, the permission bits of files, closing of
  files and connections, and the encoding of MessagePack but for the extension for numbers (\<open>encodeNumber\<close>); what the
  service for the public address answers is part of the environment. Blocking of a send on a full
  channel is modelled in \<open>Merge\<close>, in the networks and in \<open>Live\<close>; between the parts of \<open>Pipeline\<close> the channels are one pool of
  messages of unbounded size, any of which may come next, so that its schedules include those of the program. In
  the networks what the servers send is given from the start. The conversion and storing of one message is one step (\<open>Converts\<close>), and the
  storage is measured in it. The time until its file is complete lies after this step: as long as the converter has the message
  in its hands the loader may read a part of the file (\<open>Loader_tears\<close>), and another goroutine may publish that and remove the file. That the
  producer removes a file while the storage is measured, which makes the storing fail, shows only as an error of the file system.
  A publication with its removal is one step; only the loader looks at
  the file meanwhile, and it finds the same as just before. The limiter counts, and saves its count, in the step in which it sends.
  The number in a message's name (\<open>msg_count\<close>) does not wrap, which would take a run of \<open>2 ^ 63\<close> messages. A read error of an
  agent's stream comes back at every later read. The data of a message of the
  agent is the parsed value, so its white space is lost; where the text counts, in the dumper, it is a parameter. The JSON text of a stored message does not tell nil bytes from
  empty ones, nor does it escape U+2028 and U+2029. In \<open>Serial\<close> and \<open>Local\<close> what the requester reports is a list. Strings are sequences of bytes; the
  replacement of invalid UTF-8 is left out. JSON numbers keep their literals, and floats are literals.
\<close>

section \<open>Properties of the whole client\<close>

text \<open>A step of the goroutines that stays in the period: the timer does not fire, no configuration is taken, and what the limiter
receives has at most \<open>M\<close> bytes.\<close>

definition within_period :: "int \<Rightarrow> 'w net \<Rightarrow> net_event \<Rightarrow> bool" where
  "within_period M s e \<longleftrightarrow> \<not> interrupts e \<and> (case received s e of None \<Rightarrow> True | Some m \<Rightarrow> msg_len m \<le> M)"

text \<open>What the limiter has passed to the producer's channel, and the producer has not published.\<close>

definition to_publish :: "'w net \<Rightarrow> int" where
  "to_publish s = bytes_of (drop (n_next s) (sent (n_lim s)))"

lemma within_period_matches:
  assumes "within_period M s e" and "matches s e a f"
  shows "period_event M a f"
proof (cases f)
  case (Limiter now inp)
  with assms show ?thesis
    by (cases inp) (auto simp: within_period_def matches_def period_event_def)
qed (use assms in \<open>auto simp: within_period_def matches_def period_event_def\<close>)

text \<open>C3: The data budget holds from end to end: whatever the goroutines that the client starts have done before, and in
whatever order they run, within a period of the limiter the broker accepts at most what is left of the budget, and the
messages that were already past the limiter.\<close>

theorem net_within_budget:
  assumes "site (the_fs k) content (client (the_producer k)) accepted"
    and "\<forall>x w. accepted (snd (Save (the_store k) x w)) = accepted w"
    and "wide_enough (the_width k) B M"
    and "run (net_step k) (new_net k srv dps dir w) es = Some s"
    and "HasBudget (lim (n_lim s))" and "within_budget B (lim (n_lim s))"
    and "run (net_step k) s es' = Some t" and "along (net_step k) (within_period M) s es'"
  shows "traffic (accepted (world (n_lim t))) \<le> traffic (accepted (world (n_lim s))) + to_publish s
    + (Budget (lim (n_lim s)) - Count (lim (n_lim s)))"
proof -
  let ?I = "\<lambda>a b. limited k B b \<and> Budget (lim (p_lim b)) = Budget (lim (p_lim a)) \<and> owed accepted b \<le> owed accepted a"
  from net.transfer [where I = "\<lambda>_. True", OF _ new_net_ok new_net_abstracts _ assms(4) along_True]
  obtain a where s: "net_ok s" and a: "abstracts s a" by blast
  from a assms(5,6) have start: "?I a a" by (simp add: limited_def abstracts_def)
  have "?I a b'" if "?I a b" "within_period M u e" "matches u e b f" "pipe_step k b f = Some b'" for u e b f b'
    using site.pipe_step_owed [OF assms(1) refl refl assms(3) _ assms(2) that(4) within_period_matches [OF that(2,3)]] that(1)
    by auto
  then have "net_ok t \<and> (\<exists>b. abstracts t b \<and> ?I a b)"
    by (intro net.transfer [where I = "?I a", OF _ s a start assms(7,8)]) blast
  then obtain b where b: "abstracts t b" "limited k B b" "Budget (lim (p_lim b)) = Budget (lim (p_lim a))"
    "owed accepted b \<le> owed accepted a" by blast
  have "to_publish s = backlog a" "to_publish t = backlog b" using a b(1) by (simp_all add: to_publish_def backlog_def abstracts_def)
  moreover have "0 \<le> backlog b" by (simp add: backlog_def)
  ultimately show ?thesis
    using a b(1) b(2-4) [unfolded owed_def limited_def within_budget_def pl_world_def] by (auto simp: abstracts_def)
qed

definition budgeted_site :: "disk \<times> (string \<times> bytes) list" where
  "budgeted_site =
     (empty_disk\<lparr>files := [(''limits'', render (JObj [(''budget'', JNum ''1000''), (''hasBudget'', JBool True)]))]\<rparr>, [])"

definition up_to_limiter :: "net_event list" where
  "up_to_limiter = [Server_sends, Server_ends, Converts 0 (sample_ambient\<lparr>now_nano := 0\<rparr>) None, Converter_sends,
     Merger (Put 0), Limit_acts some_time Go]"

theorem net_within_budget_witness:
  "\<exists>s t. run (net_step sample_parts) (new_net sample_parts [sample_point] [] ''d'' budgeted_site) up_to_limiter = Some s
     \<and> run (net_step sample_parts) s [Limit_takes some_time, Publishes] = Some t
     \<and> traffic (snd (world (n_lim t))) = 3 \<and> traffic (snd (world (n_lim t))) \<le> 1000"
proof -
  let ?S = "new_net sample_parts [sample_point] [] ''d'' budgeted_site" and ?e = "[Limit_takes some_time, Publishes]"
  have "case run (net_step sample_parts) ?S up_to_limiter of None \<Rightarrow> False
    | Some s \<Rightarrow> Budget (lim (n_lim s)) = 1000 \<and> HasBudget (lim (n_lim s)) \<and> Count (lim (n_lim s)) = 0
        \<and> sent (n_lim s) = [] \<and> snd (world (n_lim s)) = [] \<and> along (net_step sample_parts) (within_period 3) s ?e
        \<and> (case run (net_step sample_parts) s ?e of None \<Rightarrow> False | Some t \<Rightarrow> traffic (snd (world (n_lim t))) = 3)"
    by code_simp
  then obtain s t where s: "run (net_step sample_parts) ?S up_to_limiter = Some s"
    "Budget (lim (n_lim s)) = 1000" "HasBudget (lim (n_lim s))" "Count (lim (n_lim s)) = 0" "sent (n_lim s) = []"
    "snd (world (n_lim s)) = []" and period: "along (net_step sample_parts) (within_period 3) s ?e"
    and t: "run (net_step sample_parts) s ?e = Some t" "traffic (snd (world (n_lim t))) = 3"
    by (simp only: split: option.splits) blast+
  have site: "site (the_fs sample_parts) (\<lambda>w. disk_content (fst w)) (client (the_producer sample_parts)) snd"
    using log_site.site_axioms [of "\<lambda>_. None"] by (simp add: sample_parts_def client_sample_producer)
  have store: "\<forall>x w. snd (snd (Save (the_store sample_parts) x w)) = snd w"
    using log_site.limiter_file_harmless [of "''q''" "''limits''" 64 UTC] by (simp add: sample_parts_def harmless_def)
  have wide: "wide_enough (the_width sample_parts) 1000 3" by (simp add: sample_parts_def wide_enough_def fits_def)
  have "within_budget 1000 (lim (n_lim s))" by (simp add: within_budget_def s)
  from net_within_budget [OF site store wide s(1,3) this t(1) period] s t show ?thesis
    by (simp add: to_publish_def traffic_def)
qed

end
